(* ===== verification/Prelude.thy ===== *)
theory Prelude
  imports Main "HOL-Library.Word"
begin

text \<open>
  Types and lemmas shared by every component of the development: machine words and
  status codes of the Zircon ABI (\<^verbatim>\<open>system/public/zircon/types.h\<close>,
  \<^verbatim>\<open>system/public/zircon/errors.h\<close>), byte ranges of fixed-size buffers, the user-memory
  copy interface, and the facts on bits, lists and words that the component proofs use.
\<close>

unbundle bit_operations_syntax

named_theorems signal_simps \<open>reading a signal bit after an update of the signal word\<close>
named_theorems range_simps \<open>overwriting and reading ranges of a buffer\<close>

section \<open>Types of the ABI\<close>

type_synonym byte = "8 word"
type_synonym u32 = "32 word"
type_synonym u64 = "64 word"
type_synonym zx_signals = u32
type_synonym zx_rights = u32
type_synonym koid = nat

text \<open>
  The status codes the modelled operations return. \<open>zx_status_t\<close> is an integer in the
  source; the codes are pairwise distinct there and only compared for equality.
\<close>

datatype zx_status =
    ZX_OK
  | ZX_ERR_INTERNAL
  | ZX_ERR_NOT_SUPPORTED
  | ZX_ERR_NO_RESOURCES
  | ZX_ERR_NO_MEMORY
  | ZX_ERR_INTERNAL_INTR_RETRY
  | ZX_ERR_INVALID_ARGS
  | ZX_ERR_BAD_HANDLE
  | ZX_ERR_WRONG_TYPE
  | ZX_ERR_BAD_SYSCALL
  | ZX_ERR_OUT_OF_RANGE
  | ZX_ERR_BUFFER_TOO_SMALL
  | ZX_ERR_BAD_STATE
  | ZX_ERR_TIMED_OUT
  | ZX_ERR_SHOULD_WAIT
  | ZX_ERR_CANCELED
  | ZX_ERR_PEER_CLOSED
  | ZX_ERR_NOT_FOUND
  | ZX_ERR_ALREADY_EXISTS
  | ZX_ERR_ALREADY_BOUND
  | ZX_ERR_UNAVAILABLE
  | ZX_ERR_ACCESS_DENIED

abbreviation (input) ZX_KOID_INVALID :: koid where
  "ZX_KOID_INVALID \<equiv> 0"

section \<open>Signal words\<close>

text \<open>
  A signal is a one-bit mask of the 32-bit signal word. Every test in the source has the
  form \<open>(signals & MASK) != 0\<close>; for a one-bit mask this is the bit itself.
\<close>

lemma and_exp_nonzero [signal_simps]:
  "(w AND 2 ^ k \<noteq> 0) \<longleftrightarrow> bit w k" for w :: "'a::len word"
  by (simp add: and_exp_eq_0_iff_not_bit)

lemma and_exp_zero [signal_simps]:
  "(w AND 2 ^ k = 0) \<longleftrightarrow> \<not> bit w k" for w :: "'a::len word"
  by (simp add: and_exp_eq_0_iff_not_bit)

lemma and_bit_one [signal_simps]:
  "(w AND 1 = 0) \<longleftrightarrow> \<not> bit w 0" for w :: "'a::len word"
  using and_exp_zero [of w 0] by simp

text \<open>The source's \<open>(previous & ~clear) | set\<close>, read bit by bit.\<close>

lemma bit_clear_set [signal_simps]:
  "bit ((w AND NOT c) OR s) k \<longleftrightarrow> (bit w k \<and> \<not> bit c k) \<or> bit s k" for w c s :: u32
  by (auto simp: bit_simps dest: bit_imp_le_length)

lemma bit_exp_u32 [signal_simps]:
  "bit (2 ^ n :: u32) k \<longleftrightarrow> n < 32 \<and> k = n"
  by (auto simp: bit_simps)

lemma and_overlap_iff:
  "(a AND b \<noteq> 0) \<longleftrightarrow> (\<exists>k. bit a k \<and> bit b k)" for a b :: "'a::len word"
  by (auto simp: bit_eq_iff bit_simps dest: bit_imp_le_length)

lemma and_disjoint_iff:
  "(a AND b = 0) \<longleftrightarrow> (\<forall>k. \<not> (bit a k \<and> bit b k))" for a b :: "'a::len word"
  using and_overlap_iff [of a b] by auto

section \<open>Ranges of fixed-size buffers\<close>

text \<open>
  \<open>overwrite xs o bs\<close> is the buffer \<open>xs\<close> after a \<open>memcpy\<close> of \<open>bs\<close> to its index \<open>o\<close>;
  \<open>bytes_at xs o n\<close> reads the \<open>n\<close> bytes from index \<open>o\<close>. Both are meaningful only where the
  range lies inside the buffer, which the components prove of every copy they make.
\<close>

definition overwrite :: "'a list \<Rightarrow> nat \<Rightarrow> 'a list \<Rightarrow> 'a list" where
  "overwrite xs p bs = take p xs @ bs @ drop (p + length bs) xs"

definition bytes_at :: "'a list \<Rightarrow> nat \<Rightarrow> nat \<Rightarrow> 'a list" where
  "bytes_at xs p n = take n (drop p xs)"

lemma length_overwrite [range_simps]:
  "p + length bs \<le> length xs \<Longrightarrow> length (overwrite xs p bs) = length xs"
  by (simp add: overwrite_def)

lemma length_bytes_at [range_simps]:
  "p + n \<le> length xs \<Longrightarrow> length (bytes_at xs p n) = n"
  by (simp add: bytes_at_def)

lemma bytes_at_nth:
  "p + n \<le> length xs \<Longrightarrow> i < n \<Longrightarrow> bytes_at xs p n ! i = xs ! (p + i)"
  by (simp add: bytes_at_def)

lemma overwrite_nth:
  assumes "p + length bs \<le> length xs" and "i < length xs"
  shows "overwrite xs p bs ! i = (if p \<le> i \<and> i < p + length bs then bs ! (i - p) else xs ! i)"
  using assms by (auto simp: overwrite_def nth_append min_def not_less)

lemma bytes_at_overwrite_same [range_simps]:
  "p + length bs \<le> length xs \<Longrightarrow> bytes_at (overwrite xs p bs) p (length bs) = bs"
  by (simp add: bytes_at_def overwrite_def)

lemma bytes_at_overwrite_disjoint:
  assumes "p + length bs \<le> length xs" and "q + n \<le> length xs"
    and "q + n \<le> p \<or> p + length bs \<le> q"
  shows "bytes_at (overwrite xs p bs) q n = bytes_at xs q n"
  using assms
  by (intro nth_equalityI) (auto simp: range_simps bytes_at_nth overwrite_nth)

lemma bytes_at_overwrite_inside:
  assumes "p + length bs \<le> length xs" and "p \<le> q" and "q + n \<le> p + length bs"
  shows "bytes_at (overwrite xs p bs) q n = bytes_at bs (q - p) n"
  using assms
  by (intro nth_equalityI) (auto simp: range_simps bytes_at_nth overwrite_nth)

lemma bytes_at_append:
  "bytes_at xs p (m + n) = bytes_at xs p m @ bytes_at xs (p + m) n"
  by (simp add: bytes_at_def take_add add.commute)

lemma bytes_at_slice:
  "q + m \<le> n \<Longrightarrow> bytes_at (bytes_at xs p n) q m = bytes_at xs (p + q) m"
  by (simp add: bytes_at_def drop_take min_def add.commute)

lemma bytes_at_all [range_simps]: "bytes_at xs 0 (length xs) = xs"
  by (simp add: bytes_at_def)

section \<open>Copies from and to user memory\<close>

text \<open>
  A copy from or to a user pointer either succeeds or stops with an error, having moved a
  prefix of the bytes (\<^verbatim>\<open>kernel/lib/user_copy\<close>, implemented in assembly). A user pointer
  is the function that gives the outcome of copying \<open>n\<close> bytes at byte offset \<open>p\<close>:
  the bytes that arrive, the status, and whether a page fault was captured.
\<close>

record user_copy =
  uc_bytes :: "byte list"
  uc_status :: zx_status
  uc_fault :: bool

type_synonym user_in = "nat \<Rightarrow> nat \<Rightarrow> user_copy"

text \<open>What the copy routine documents: a successful copy moves all the bytes it was asked to.\<close>

definition user_in_wf :: "user_in \<Rightarrow> bool" where
  "user_in_wf ptr \<longleftrightarrow>
     (\<forall>p n. length (uc_bytes (ptr p n)) \<le> n \<and>
            (uc_status (ptr p n) = ZX_OK \<longrightarrow> length (uc_bytes (ptr p n)) = n))"

text \<open>A user buffer that is mapped and readable throughout.\<close>

definition user_buf :: "byte list \<Rightarrow> user_in" where
  "user_buf buf p n =
     (if p + n \<le> length buf
      then \<lparr>uc_bytes = bytes_at buf p n, uc_status = ZX_OK, uc_fault = False\<rparr>
      else \<lparr>uc_bytes = [], uc_status = ZX_ERR_INVALID_ARGS, uc_fault = False\<rparr>)"

lemma user_buf_wf [simp, intro]: "user_in_wf (user_buf buf)"
  by (simp add: user_in_wf_def user_buf_def range_simps)

lemma user_buf_ok:
  "p + n \<le> length buf \<Longrightarrow>
   user_buf buf p n = \<lparr>uc_bytes = bytes_at buf p n, uc_status = ZX_OK, uc_fault = False\<rparr>"
  by (simp add: user_buf_def)

lemma user_in_wf_length:
  "user_in_wf ptr \<Longrightarrow> uc_status (ptr p n) = ZX_OK \<Longrightarrow> length (uc_bytes (ptr p n)) = n"
  by (simp add: user_in_wf_def)

lemma user_in_wf_le: "user_in_wf ptr \<Longrightarrow> length (uc_bytes (ptr p n)) \<le> n"
  by (simp add: user_in_wf_def)

text \<open>
  User memory that holds \<open>buf\<close>, of which any part may be inaccessible: a copy that succeeds gives
  the bytes of \<open>buf\<close>; one that fails may have moved some bytes.
\<close>

definition view_of :: "byte list \<Rightarrow> user_in \<Rightarrow> bool" where
  "view_of buf ptr \<longleftrightarrow> (\<forall>p n. length (uc_bytes (ptr p n)) \<le> n \<and>
     (uc_status (ptr p n) = ZX_OK \<longrightarrow> p + n \<le> length buf \<and> uc_bytes (ptr p n) = bytes_at buf p n))"

lemma user_buf_view [simp, intro]: "view_of buf (user_buf buf)"
  by (simp add: view_of_def user_buf_def range_simps)

lemma view_of_le: "view_of buf ptr \<Longrightarrow> length (uc_bytes (ptr p n)) \<le> n"
  by (simp add: view_of_def)

lemma view_of_ok:
  "view_of buf ptr \<Longrightarrow> uc_status (ptr p n) = ZX_OK \<Longrightarrow>
   p + n \<le> length buf \<and> uc_bytes (ptr p n) = bytes_at buf p n"
  by (simp add: view_of_def)

text \<open>
  Towards user memory: the outcome of storing the given bytes at an offset of the user buffer.
  \<open>uc_bytes\<close> is what reached the user. A buffer mapped and writable for \<open>n\<close> bytes is \<open>user_sink n\<close>.
\<close>

type_synonym user_out = "nat \<Rightarrow> byte list \<Rightarrow> user_copy"

definition user_out_wf :: "user_out \<Rightarrow> bool" where
  "user_out_wf ptr \<longleftrightarrow>
     (\<forall>p bs. uc_status (ptr p bs) = ZX_OK \<longrightarrow> uc_bytes (ptr p bs) = bs)"

definition user_sink :: "nat \<Rightarrow> user_out" where
  "user_sink n p bs =
     (if p + length bs \<le> n
      then \<lparr>uc_bytes = bs, uc_status = ZX_OK, uc_fault = False\<rparr>
      else \<lparr>uc_bytes = [], uc_status = ZX_ERR_INVALID_ARGS, uc_fault = False\<rparr>)"

lemma user_sink_wf [simp, intro]: "user_out_wf (user_sink n)"
  by (simp add: user_out_wf_def user_sink_def)

lemma user_sink_ok:
  "p + length bs \<le> n \<Longrightarrow>
   user_sink n p bs = \<lparr>uc_bytes = bs, uc_status = ZX_OK, uc_fault = False\<rparr>"
  by (simp add: user_sink_def)

lemma user_out_wf_bytes:
  "user_out_wf ptr \<Longrightarrow> uc_status (ptr p bs) = ZX_OK \<Longrightarrow> uc_bytes (ptr p bs) = bs"
  by (simp add: user_out_wf_def)

section \<open>Words\<close>

lemma unat_sub_u32: "b \<le> a \<Longrightarrow> unat (a - b) = unat a - unat b" for a b :: u32
  by (simp add: unat_sub)

lemma unat_of_nat_u32: "n < 2 ^ 32 \<Longrightarrow> unat (of_nat n :: u32) = n"
  by (simp add: unat_of_nat take_bit_nat_eq_self)

lemma unat_less_u32: "unat (w :: u32) < 4294967296"
  using unsigned_less [of w] by simp

lemma unat_add_nat_u32:
  "unat (w + of_nat k) = (unat w + k) mod 4294967296" for w :: u32
  by (simp add: unat_word_ariths unat_of_nat take_bit_nat_def mod_add_right_eq)

end
