(* ===== verification/Dispatcher.thy ===== *)
theory Dispatcher
  imports Prelude
begin

text \<open>
  The base class of every kernel object (\<^verbatim>\<open>kernel/object/dispatcher.cc\<close> and
  \<^verbatim>\<open>dispatcher.h\<close>): a word of active signals, the list of observers waiting for signals, and
  the operations that update the one and notify the other. A call of a virtual method of an
  observer (\<open>OnMatch\<close>, \<open>OnCancel\<close>) is recorded, in order, in the field \<open>callbacks\<close>; the
  observers of \<^verbatim>\<open>wait_signal_observer.cc\<close> consume it here, those of ports in the theory of
  ports. The theory also holds the specification of what the observer list promises: an
  observer is called back at most once, exactly when one of its signals rises.
\<close>

section \<open>State\<close>

text \<open>
  \<open>obs_key\<close> is what \<open>MatchesKey\<close> compares: the port and the packet key of a port observer,
  \<open>None\<close> for the default implementation, which never matches.
\<close>

record signal_observer =
  obs_id :: nat
  obs_key :: "(nat \<times> u64) option"
  triggering_signals :: zx_signals
  obs_handle :: nat

datatype callback = OnMatch nat zx_signals | OnCancel nat zx_signals

primrec callback_id :: "callback \<Rightarrow> nat" where
  "callback_id (OnMatch i s) = i"
| "callback_id (OnCancel i s) = i"

record dispatcher =
  koid :: koid
  handle_count :: u32
  signals :: zx_signals
  observers :: "signal_observer list"
  waitable :: bool
  callbacks :: "callback list"

datatype trigger_mode = Level | Edge

definition Dispatcher_new :: "koid \<Rightarrow> bool \<Rightarrow> zx_signals \<Rightarrow> dispatcher" where
  "Dispatcher_new k w s =
     \<lparr>koid = k, handle_count = 0, signals = s, observers = [], waitable = w, callbacks = []\<rparr>"

definition MatchesKey :: "signal_observer \<Rightarrow> nat \<Rightarrow> u64 \<Rightarrow> bool" where
  "MatchesKey ob port key =
     (case obs_key ob of None \<Rightarrow> False | Some (p, k) \<Rightarrow> key = k \<and> port = p)"

section \<open>Handle counts\<close>

definition increment_handle_count :: "dispatcher \<Rightarrow> dispatcher" where
  "increment_handle_count d = d\<lparr>handle_count := handle_count d + 1\<rparr>"

text \<open>The boolean is true exactly when the count goes to zero.\<close>

definition decrement_handle_count :: "dispatcher \<Rightarrow> bool \<times> dispatcher" where
  "decrement_handle_count d = (handle_count d = 1, d\<lparr>handle_count := handle_count d - 1\<rparr>)"

section \<open>Signals and observers\<close>

definition ClearSignals :: "dispatcher \<Rightarrow> zx_signals \<Rightarrow> dispatcher" where
  "ClearSignals d s = d\<lparr>signals := signals d AND NOT s\<rparr>"

definition RaiseSignalsLocked :: "dispatcher \<Rightarrow> zx_signals \<Rightarrow> zx_signals \<times> dispatcher" where
  "RaiseSignalsLocked d s = (signals d, d\<lparr>signals := signals d OR s\<rparr>)"

text \<open>
  The loop over the observer list: an observer none of whose signals is active stays, any
  other is erased and called.
\<close>

fun notify_loop :: "zx_signals \<Rightarrow> signal_observer list \<Rightarrow> signal_observer list \<times> callback list" where
  "notify_loop s [] = ([], [])"
| "notify_loop s (it # rest) =
     (let (kept, called) = notify_loop s rest
      in if triggering_signals it AND s = 0 then (it # kept, called)
         else (kept, OnMatch (obs_id it) s # called))"

definition NotifyObserversLocked :: "dispatcher \<Rightarrow> zx_signals \<Rightarrow> dispatcher" where
  "NotifyObserversLocked d s =
     (let (kept, called) = notify_loop s (observers d)
      in d\<lparr>observers := kept, callbacks := callbacks d @ called\<rparr>)"

text \<open>
  The compare-exchange loop of \<open>UpdateStateLocked\<close>. The lock is held, so the only writes
  that can interfere are those of \<open>ClearSignals\<close>, which takes no lock: each element of the
  list is the mask another thread clears just before the next exchange is attempted. The
  result is the updated word and the \<open>previous\<close> the successful exchange saw.
\<close>

fun cas_loop :: "zx_signals \<Rightarrow> zx_signals \<Rightarrow> zx_signals \<Rightarrow> zx_signals \<Rightarrow> zx_signals list
    \<Rightarrow> zx_signals \<times> zx_signals" where
  "cas_loop clear_mask set_mask cur previous [] =
     (if cur = previous then ((previous AND NOT clear_mask) OR set_mask, previous)
      else ((cur AND NOT clear_mask) OR set_mask, cur))"
| "cas_loop clear_mask set_mask cur previous (m # ms) =
     (let cur' = cur AND NOT m
      in if cur' = previous then ((previous AND NOT clear_mask) OR set_mask, previous)
         else cas_loop clear_mask set_mask cur' cur' ms)"

definition UpdateStateLocked_racing ::
  "zx_signals list \<Rightarrow> dispatcher \<Rightarrow> zx_signals \<Rightarrow> zx_signals \<Rightarrow> zx_signals \<Rightarrow> dispatcher" where
  "UpdateStateLocked_racing races d clear_mask set_mask strobe_mask =
     (let (updated, previous) = cas_loop clear_mask set_mask (signals d) (signals d) races;
          d' = d\<lparr>signals := updated\<rparr>;
          newly_active = set_mask AND NOT previous
      in if newly_active = 0 \<and> strobe_mask = 0 then d'
         else NotifyObserversLocked d' (updated OR strobe_mask))"

definition UpdateStateLocked ::
  "dispatcher \<Rightarrow> zx_signals \<Rightarrow> zx_signals \<Rightarrow> zx_signals \<Rightarrow> dispatcher" where
  "UpdateStateLocked = UpdateStateLocked_racing []"

text \<open>The common call, with the default strobe mask 0.\<close>

definition update_state :: "zx_signals \<Rightarrow> zx_signals \<Rightarrow> dispatcher \<Rightarrow> dispatcher" where
  "update_state clear_mask set_mask d = UpdateStateLocked d clear_mask set_mask 0"

definition UpdateState ::
  "dispatcher \<Rightarrow> zx_signals \<Rightarrow> zx_signals \<Rightarrow> zx_signals \<Rightarrow> dispatcher" where
  "UpdateState d clear_mask set_mask strobe_mask =
     (if set_mask = 0 \<and> strobe_mask = 0 then ClearSignals d clear_mask
      else UpdateStateLocked d clear_mask set_mask strobe_mask)"

definition AddObserver ::
  "dispatcher \<Rightarrow> signal_observer \<Rightarrow> nat \<Rightarrow> zx_signals \<Rightarrow> trigger_mode \<Rightarrow> zx_status \<times> dispatcher" where
  "AddObserver d ob h s mode =
     (if \<not> waitable d then (ZX_ERR_NOT_SUPPORTED, d)
      else if mode = Level \<and> signals d AND s \<noteq> 0
      then (ZX_OK, d\<lparr>callbacks := callbacks d @ [OnMatch (obs_id ob) (signals d)]\<rparr>)
      else (ZX_OK, d\<lparr>observers :=
              ob\<lparr>obs_handle := h, triggering_signals := s\<rparr> # observers d\<rparr>))"

text \<open>
  \<open>RemoveObserver\<close> returns whether the observer was in the list, and the signals at that
  moment. An observer is in the list of one dispatcher at most, so \<open>InContainer\<close> is
  membership of this list.
\<close>

definition RemoveObserver :: "dispatcher \<Rightarrow> nat \<Rightarrow> bool \<times> zx_signals \<times> dispatcher" where
  "RemoveObserver d i =
     (if i \<in> set (map obs_id (observers d))
      then (True, signals d, d\<lparr>observers := filter (\<lambda>ob. obs_id ob \<noteq> i) (observers d)\<rparr>)
      else (False, signals d, d))"

fun cancel_loop :: "(signal_observer \<Rightarrow> bool) \<Rightarrow> zx_signals \<Rightarrow> signal_observer list
    \<Rightarrow> signal_observer list \<times> callback list" where
  "cancel_loop hit s [] = ([], [])"
| "cancel_loop hit s (it # rest) =
     (let (kept, called) = cancel_loop hit s rest
      in if \<not> hit it then (it # kept, called)
         else (kept, OnCancel (obs_id it) s # called))"

definition Cancel :: "dispatcher \<Rightarrow> nat \<Rightarrow> dispatcher" where
  "Cancel d h =
     (let (kept, called) = cancel_loop (\<lambda>ob. obs_handle ob = h) (signals d) (observers d)
      in d\<lparr>observers := kept, callbacks := callbacks d @ called\<rparr>)"

definition CancelByKey :: "dispatcher \<Rightarrow> nat \<Rightarrow> nat \<Rightarrow> u64 \<Rightarrow> bool \<times> dispatcher" where
  "CancelByKey d h port key =
     (let (kept, called) = cancel_loop (\<lambda>ob. obs_handle ob = h \<and> MatchesKey ob port key)
                             (signals d) (observers d)
      in (called \<noteq> [], d\<lparr>observers := kept, callbacks := callbacks d @ called\<rparr>))"

definition PollSignals :: "dispatcher \<Rightarrow> zx_signals" where
  "PollSignals d = signals d"

section \<open>Signals set from user space (solo dispatchers)\<close>

definition ZX_USER_SIGNAL_ALL :: zx_signals where
  "ZX_USER_SIGNAL_ALL = 0xff000000"

definition solo_user_signal_self ::
  "zx_signals \<Rightarrow> dispatcher \<Rightarrow> zx_signals \<Rightarrow> zx_signals \<Rightarrow> zx_status \<times> dispatcher" where
  "solo_user_signal_self extra_signals d clear_mask set_mask =
     (if \<not> waitable d then (ZX_ERR_NOT_SUPPORTED, d)
      else let allowed = ZX_USER_SIGNAL_ALL OR extra_signals
           in if set_mask AND NOT allowed \<noteq> 0 \<or> clear_mask AND NOT allowed \<noteq> 0
              then (ZX_ERR_INVALID_ARGS, d)
              else (ZX_OK, UpdateState d clear_mask set_mask 0))"

definition solo_user_signal_peer ::
  "dispatcher \<Rightarrow> zx_signals \<Rightarrow> zx_signals \<Rightarrow> zx_status \<times> dispatcher" where
  "solo_user_signal_peer d clear_mask set_mask = (ZX_ERR_NOT_SUPPORTED, d)"

section \<open>Observers of a blocking wait\<close>

text \<open>
  \<open>WaitSignalObserver\<close>: \<open>event\<close> is the status the event was signalled with, if it was;
  \<open>final_signal_state\<close> is what \<open>OnMatch\<close> or \<open>OnCancel\<close> stored.
\<close>

record wait_observer =
  wo_id :: nat
  wo_event :: "zx_status option"
  wo_final :: zx_signals

definition ZX_SIGNAL_HANDLE_CLOSED :: zx_signals where
  "ZX_SIGNAL_HANDLE_CLOSED = 2 ^ 23"

fun wo_callback :: "callback \<Rightarrow> wait_observer \<Rightarrow> wait_observer" where
  "wo_callback (OnMatch i s) w =
     (if i = wo_id w then w\<lparr>wo_final := s, wo_event := Some ZX_OK\<rparr> else w)"
| "wo_callback (OnCancel i s) w =
     (if i = wo_id w
      then w\<lparr>wo_final := s OR ZX_SIGNAL_HANDLE_CLOSED, wo_event := Some ZX_ERR_CANCELED\<rparr> else w)"

text \<open>The calls a transition of the dispatcher from \<open>d\<close> to \<open>d'\<close> made, delivered to the waiter.\<close>

definition wo_deliver :: "dispatcher \<Rightarrow> dispatcher \<Rightarrow> wait_observer \<Rightarrow> wait_observer" where
  "wo_deliver d d' w = fold wo_callback (drop (length (callbacks d)) (callbacks d')) w"

definition wo_begin ::
  "wait_observer \<Rightarrow> dispatcher \<Rightarrow> nat \<Rightarrow> zx_signals \<Rightarrow> zx_status \<times> wait_observer \<times> dispatcher" where
  "wo_begin w d h watched =
     (let (st, d') = AddObserver d
            \<lparr>obs_id = wo_id w, obs_key = None, triggering_signals = 0, obs_handle = 0\<rparr>
            h watched Level
      in (st, wo_deliver d d' w, d'))"

definition wo_end :: "wait_observer \<Rightarrow> dispatcher \<Rightarrow> zx_signals \<times> dispatcher" where
  "wo_end w d =
     (let (was_removed, s, d') = RemoveObserver d (wo_id w)
      in (if \<not> was_removed then wo_final w else s, d'))"

section \<open>The observer list: specification and lemmas\<close>

lemma notify_loop_filter:
  "notify_loop s obs =
     (filter (\<lambda>ob. triggering_signals ob AND s = 0) obs,
      map (\<lambda>ob. OnMatch (obs_id ob) s) (filter (\<lambda>ob. triggering_signals ob AND s \<noteq> 0) obs))"
  by (induction obs) auto

lemma cancel_loop_filter:
  "cancel_loop hit s obs =
     (filter (\<lambda>ob. \<not> hit ob) obs, map (\<lambda>ob. OnCancel (obs_id ob) s) (filter hit obs))"
  by (induction obs) auto

text \<open>
  The invariant of \<^verbatim>\<open>dispatcher.h\<close> lines 269 to 271: while the lock is not held, no observer
  matches an active signal.
\<close>

definition observers_quiet :: "dispatcher \<Rightarrow> bool" where
  "observers_quiet d \<longleftrightarrow> (\<forall>ob \<in> set (observers d). triggering_signals ob AND signals d = 0)"

text \<open>Every observer in the list or already called back is accounted for exactly once.\<close>

definition dispatcher_ids :: "dispatcher \<Rightarrow> nat list" where
  "dispatcher_ids d = map obs_id (observers d) @ map callback_id (callbacks d)"

lemma cas_loop_updated:
  "cas_loop c s cur prev ms = (u, p) \<Longrightarrow> u = (p AND NOT c) OR s"
  by (induction c s cur prev ms rule: cas_loop.induct) (auto simp: Let_def split: if_splits)

lemma cas_loop_previous:
  "cas_loop c s cur cur ms = (u, p) \<Longrightarrow>
   \<exists>k \<le> length ms. p = fold (\<lambda>m x. x AND NOT m) (take k ms) cur"
proof (induction ms arbitrary: cur)
  case Nil
  then show ?case by simp
next
  case (Cons m ms)
  show ?case
  proof (cases "cur AND NOT m = cur")
    case True
    with Cons.prems have "p = cur" by simp
    then show ?thesis by (intro exI [of _ 0]) simp
  next
    case False
    with Cons.prems have "cas_loop c s (cur AND NOT m) (cur AND NOT m) ms = (u, p)"
      by (simp add: Let_def)
    from Cons.IH [OF this] obtain k where "k \<le> length ms"
      and "p = fold (\<lambda>m x. x AND NOT m) (take k ms) (cur AND NOT m)" by blast
    then show ?thesis by (intro exI [of _ "Suc k"]) simp
  qed
qed

lemma bit_fold_clear: "bit (fold (\<lambda>m x. x AND NOT m) ms x) k \<Longrightarrow> bit x k" for x :: u32
proof (induction ms arbitrary: x)
  case Nil
  then show ?case by simp
next
  case (Cons m ms)
  then have "bit (x AND NOT m) k" by simp
  then show ?case by (simp add: bit_and_iff)
qed

lemma fold_ClearSignals:
  "fold (\<lambda>m d. ClearSignals d m) ms d =
     d\<lparr>signals := fold (\<lambda>m x. x AND NOT m) ms (signals d)\<rparr>"
  by (induction ms arbitrary: d) (simp_all add: ClearSignals_def)

lemma UpdateStateLocked_racing_linear:
  "\<exists>k \<le> length races.
     UpdateStateLocked_racing races d c s st =
     UpdateStateLocked (fold (\<lambda>m d. ClearSignals d m) (take k races) d) c s st"
proof -
  obtain u p where cas: "cas_loop c s (signals d) (signals d) races = (u, p)"
    by fastforce
  from cas_loop_previous [OF cas] obtain k where "k \<le> length races"
    and p: "p = fold (\<lambda>m x. x AND NOT m) (take k races) (signals d)" by blast
  moreover have "u = (p AND NOT c) OR s" by (rule cas_loop_updated [OF cas])
  ultimately show ?thesis
    by (intro exI [of _ k])
      (simp add: UpdateStateLocked_def UpdateStateLocked_racing_def cas fold_ClearSignals p)
qed

lemma UpdateStateLocked_eq:
  "UpdateStateLocked d c s st =
     (if s AND NOT (signals d) = 0 \<and> st = 0 then d\<lparr>signals := (signals d AND NOT c) OR s\<rparr>
      else NotifyObserversLocked (d\<lparr>signals := (signals d AND NOT c) OR s\<rparr>)
             (((signals d AND NOT c) OR s) OR st))"
  by (simp add: UpdateStateLocked_def UpdateStateLocked_racing_def Let_def)

lemma NotifyObserversLocked_frame [simp]:
  "signals (NotifyObserversLocked d s) = signals d"
  "koid (NotifyObserversLocked d s) = koid d"
  "handle_count (NotifyObserversLocked d s) = handle_count d"
  "waitable (NotifyObserversLocked d s) = waitable d"
  by (simp_all add: NotifyObserversLocked_def notify_loop_filter)

lemma UpdateStateLocked_signals [signal_simps]:
  "signals (UpdateStateLocked d c s st) = (signals d AND NOT c) OR s"
  by (simp add: UpdateStateLocked_eq)

lemma update_state_signals [signal_simps]:
  "signals (update_state c s d) = (signals d AND NOT c) OR s"
  by (simp add: update_state_def signal_simps)

lemma update_state_frame [simp]:
  "koid (update_state c s d) = koid d"
  "handle_count (update_state c s d) = handle_count d"
  "waitable (update_state c s d) = waitable d"
  by (simp_all add: update_state_def UpdateStateLocked_eq)

lemma observers_quiet_clear: "observers_quiet d \<Longrightarrow> observers_quiet (ClearSignals d m)"
  by (auto simp: observers_quiet_def ClearSignals_def and_disjoint_iff bit_simps)

lemma observers_quiet_notify:
  "(\<And>k. bit (signals d) k \<Longrightarrow> bit s k) \<Longrightarrow> observers_quiet (NotifyObserversLocked d s)"
  by (auto simp: observers_quiet_def NotifyObserversLocked_def notify_loop_filter and_disjoint_iff)

lemma observers_quiet_update:
  assumes "observers_quiet d"
  shows "observers_quiet (UpdateStateLocked d c s st)"
proof (cases "s AND NOT (signals d) = 0 \<and> st = 0")
  case True
  then have "bit (signals d) k" if "bit s k" for k
    using that bit_imp_le_length [OF that]
    by (auto simp: and_disjoint_iff bit_simps)
  then show ?thesis
    using assms True
    by (auto simp: UpdateStateLocked_eq observers_quiet_def and_disjoint_iff bit_simps)
next
  case False
  then show ?thesis
    unfolding UpdateStateLocked_eq
    by (auto simp: bit_simps intro!: observers_quiet_notify)
qed

lemma observers_quiet_fold_clear:
  "observers_quiet d \<Longrightarrow> observers_quiet (fold (\<lambda>m d. ClearSignals d m) ms d)"
  by (induction ms arbitrary: d) (simp_all add: observers_quiet_clear)

lemma observers_quiet_racing:
  "observers_quiet d \<Longrightarrow> observers_quiet (UpdateStateLocked_racing races d c s st)"
  using UpdateStateLocked_racing_linear [of races d c s st]
    observers_quiet_update observers_quiet_fold_clear by metis

lemma observers_quiet_cancel: "observers_quiet d \<Longrightarrow> observers_quiet (Cancel d h)"
  by (simp add: Cancel_def cancel_loop_filter observers_quiet_def)

lemma observers_quiet_cancel_key:
  "observers_quiet d \<Longrightarrow> observers_quiet (snd (CancelByKey d h port key))"
  by (simp add: CancelByKey_def cancel_loop_filter observers_quiet_def)

lemma observers_quiet_remove:
  "observers_quiet d \<Longrightarrow> observers_quiet (snd (snd (RemoveObserver d i)))"
  by (auto simp: RemoveObserver_def observers_quiet_def)

lemma observers_quiet_add_level:
  "observers_quiet d \<Longrightarrow> observers_quiet (snd (AddObserver d ob h s Level))"
  by (auto simp: AddObserver_def observers_quiet_def and.commute)

section \<open>Runs of a dispatcher\<close>

text \<open>
  One rule per critical section. \<open>edge\<close> says whether registrations in edge mode occur in the
  run; a registration uses an observer that is not in use. \<open>raise_notify\<close> is the sequence of
  \<^verbatim>\<open>ChannelDispatcher::WriteSelf\<close>: raise one signal, then notify with the signals seen before.
\<close>

definition raise_and_notify :: "dispatcher \<Rightarrow> zx_signals \<Rightarrow> dispatcher" where
  "raise_and_notify d s =
     (let (previous, d') = RaiseSignalsLocked d s
      in if previous AND s = 0 then NotifyObserversLocked d' (previous OR s) else d')"

inductive disp_step :: "bool \<Rightarrow> dispatcher \<Rightarrow> dispatcher \<Rightarrow> bool" for edge where
  add: "obs_id ob \<notin> set (dispatcher_ids d) \<Longrightarrow> (mode = Edge \<Longrightarrow> edge) \<Longrightarrow>
     disp_step edge d (snd (AddObserver d ob h s mode))"
| remove: "disp_step edge d (snd (snd (RemoveObserver d i)))"
| cancel: "disp_step edge d (Cancel d h)"
| cancel_key: "disp_step edge d (snd (CancelByKey d h port key))"
| update: "disp_step edge d (UpdateStateLocked_racing races d c s st)"
| clear: "disp_step edge d (ClearSignals d m)"
| raise_notify: "disp_step edge d (raise_and_notify d (2 ^ k))"

inductive disp_reach :: "bool \<Rightarrow> dispatcher \<Rightarrow> bool" for edge where
  start: "disp_reach edge (Dispatcher_new ko w s)"
| step: "disp_reach edge d \<Longrightarrow> disp_step edge d d' \<Longrightarrow> disp_reach edge d'"

lemma observers_quiet_raise:
  assumes "observers_quiet d"
  shows "observers_quiet (raise_and_notify d (2 ^ k))"
proof (cases "bit (signals d) k")
  case True
  then have "signals d OR 2 ^ k = signals d"
    by (intro bit_word_eqI) (auto simp: bit_simps)
  with True assms show ?thesis
    by (simp add: raise_and_notify_def RaiseSignalsLocked_def signal_simps observers_quiet_def)
next
  case False
  then show ?thesis
    by (auto simp: raise_and_notify_def RaiseSignalsLocked_def signal_simps
        intro!: observers_quiet_notify)
qed

lemma disp_step_quiet:
  "disp_step edge d d' \<Longrightarrow> \<not> edge \<Longrightarrow> observers_quiet d \<Longrightarrow> observers_quiet d'"
proof (induction rule: disp_step.induct)
  case (add ob d mode h s)
  then have "mode = Level" by (cases mode) auto
  with add show ?case by (simp add: observers_quiet_add_level)
qed (simp_all add: observers_quiet_remove observers_quiet_cancel observers_quiet_cancel_key
      observers_quiet_racing observers_quiet_clear observers_quiet_raise)

lemma distinct_filter_map:
  "distinct (map f xs @ ys) \<Longrightarrow>
   distinct (map f (filter (\<lambda>x. \<not> P x) xs) @ ys @ map f (filter P xs))"
  by (induction xs) auto

lemma ids_notify: "distinct (dispatcher_ids d) \<Longrightarrow> distinct (dispatcher_ids (NotifyObserversLocked d s))"
  using distinct_filter_map [of obs_id "observers d" "map callback_id (callbacks d)"
      "\<lambda>ob. triggering_signals ob AND s \<noteq> 0"]
  by (simp add: dispatcher_ids_def NotifyObserversLocked_def notify_loop_filter comp_def)

lemma ids_update: "distinct (dispatcher_ids d) \<Longrightarrow> distinct (dispatcher_ids (UpdateStateLocked d c s st))"
proof -
  assume "distinct (dispatcher_ids d)"
  moreover have "dispatcher_ids (d\<lparr>signals := x\<rparr>) = dispatcher_ids d" for x
    by (simp add: dispatcher_ids_def)
  ultimately show ?thesis by (simp add: UpdateStateLocked_eq ids_notify)
qed

lemma ids_clear [simp]: "dispatcher_ids (ClearSignals d m) = dispatcher_ids d"
  by (simp add: dispatcher_ids_def ClearSignals_def)

lemma ids_fold_clear [simp]:
  "dispatcher_ids (fold (\<lambda>m d. ClearSignals d m) ms d) = dispatcher_ids d"
  by (induction ms arbitrary: d) simp_all

lemma ids_racing:
  "distinct (dispatcher_ids d) \<Longrightarrow> distinct (dispatcher_ids (UpdateStateLocked_racing races d c s st))"
  using UpdateStateLocked_racing_linear [of races d c s st] ids_update ids_fold_clear by metis

lemma ids_cancel_loop:
  assumes "distinct (dispatcher_ids d)"
  shows "distinct (dispatcher_ids (d\<lparr>observers := filter (\<lambda>ob. \<not> hit ob) (observers d),
     callbacks := callbacks d @ map (\<lambda>ob. OnCancel (obs_id ob) s) (filter hit (observers d))\<rparr>))"
  using assms distinct_filter_map [of obs_id "observers d" "map callback_id (callbacks d)" hit]
  by (simp add: dispatcher_ids_def comp_def)

lemma ids_cancel: "distinct (dispatcher_ids d) \<Longrightarrow> distinct (dispatcher_ids (Cancel d h))"
  using ids_cancel_loop [where d = d and hit = "\<lambda>ob. obs_handle ob = h"] by (simp add: Cancel_def cancel_loop_filter)

lemma ids_cancel_key:
  "distinct (dispatcher_ids d) \<Longrightarrow> distinct (dispatcher_ids (snd (CancelByKey d h port key)))"
  using ids_cancel_loop [where d = d and hit = "\<lambda>ob. obs_handle ob = h \<and> MatchesKey ob port key"]
  by (simp add: CancelByKey_def cancel_loop_filter)

lemma ids_remove:
  "distinct (dispatcher_ids d) \<Longrightarrow> distinct (dispatcher_ids (snd (snd (RemoveObserver d i))))"
  by (auto simp: dispatcher_ids_def RemoveObserver_def distinct_map_filter)

lemma ids_add:
  "obs_id ob \<notin> set (dispatcher_ids d) \<Longrightarrow> distinct (dispatcher_ids d) \<Longrightarrow>
   distinct (dispatcher_ids (snd (AddObserver d ob h s mode)))"
  by (auto simp: dispatcher_ids_def AddObserver_def)

lemma ids_raise: "distinct (dispatcher_ids d) \<Longrightarrow> distinct (dispatcher_ids (raise_and_notify d s))"
proof -
  assume d: "distinct (dispatcher_ids d)"
  have "dispatcher_ids (d\<lparr>signals := x\<rparr>) = dispatcher_ids d" for x
    by (simp add: dispatcher_ids_def)
  with d show ?thesis
    by (simp add: raise_and_notify_def RaiseSignalsLocked_def ids_notify)
qed

lemma disp_step_ids:
  "disp_step edge d d' \<Longrightarrow> distinct (dispatcher_ids d) \<Longrightarrow> distinct (dispatcher_ids d')"
  by (induction rule: disp_step.induct)
    (simp_all add: ids_add ids_remove ids_cancel ids_cancel_key ids_racing ids_raise)

section \<open>Runs seen by a blocking waiter\<close>

text \<open>
  What any critical section does to the callback log and to the observers that were
  registered before it.
\<close>

definition calls_ok :: "dispatcher \<Rightarrow> callback list \<Rightarrow> dispatcher \<Rightarrow> bool" where
  "calls_ok d called d' \<longleftrightarrow>
     callbacks d' = callbacks d @ called \<and>
     (\<forall>i s. OnMatch i s \<in> set called \<and> i \<in> set (dispatcher_ids d) \<longrightarrow>
        (\<exists>ob \<in> set (observers d). obs_id ob = i \<and> triggering_signals ob AND s \<noteq> 0)) \<and>
     (\<forall>ob \<in> set (observers d'). obs_id ob \<in> set (dispatcher_ids d) \<longrightarrow> ob \<in> set (observers d))"

lemma calls_ok_notify:
  "calls_ok d (map (\<lambda>ob. OnMatch (obs_id ob) s)
      (filter (\<lambda>ob. triggering_signals ob AND s \<noteq> 0) (observers d))) (NotifyObserversLocked d s)"
  by (auto simp: calls_ok_def NotifyObserversLocked_def notify_loop_filter)

lemma calls_ok_signals: "calls_ok (d\<lparr>signals := x\<rparr>) cs d' = calls_ok d cs d'"
  by (simp add: calls_ok_def dispatcher_ids_def)

lemma calls_ok_update: "\<exists>cs. calls_ok d cs (UpdateStateLocked d c s st)"
proof (cases "s AND NOT (signals d) = 0 \<and> st = 0")
  case True
  then have "calls_ok d [] (UpdateStateLocked d c s st)"
    by (simp add: UpdateStateLocked_eq calls_ok_def)
  then show ?thesis ..
next
  case False
  then show ?thesis
    using calls_ok_notify [of "d\<lparr>signals := (signals d AND NOT c) OR s\<rparr>"]
    by (auto simp: UpdateStateLocked_eq calls_ok_signals)
qed

lemma calls_ok_racing: "\<exists>cs. calls_ok d cs (UpdateStateLocked_racing races d c s st)"
proof -
  obtain k where "UpdateStateLocked_racing races d c s st =
      UpdateStateLocked (fold (\<lambda>m d. ClearSignals d m) (take k races) d) c s st"
    using UpdateStateLocked_racing_linear [of races d c s st] by blast
  with calls_ok_update show ?thesis by (metis fold_ClearSignals calls_ok_signals)
qed

lemma calls_ok_step: "disp_step edge d d' \<Longrightarrow> \<exists>cs. calls_ok d cs d'"
proof (induction rule: disp_step.induct)
  case (add ob d mode h s)
  show ?case
  proof (cases "waitable d \<and> mode = Level \<and> signals d AND s \<noteq> 0")
    case True
    with add have "calls_ok d [OnMatch (obs_id ob) (signals d)] (snd (AddObserver d ob h s mode))"
      by (auto simp: AddObserver_def calls_ok_def)
    then show ?thesis ..
  next
    case False
    with add have "calls_ok d [] (snd (AddObserver d ob h s mode))"
      by (auto simp: AddObserver_def calls_ok_def)
    then show ?thesis ..
  qed
next
  case (remove d i)
  have "calls_ok d [] (snd (snd (RemoveObserver d i)))"
    by (auto simp: RemoveObserver_def calls_ok_def)
  then show ?case ..
next
  case (cancel d h)
  show ?case by (auto simp: Cancel_def cancel_loop_filter calls_ok_def)
next
  case (cancel_key d h port key)
  show ?case by (auto simp: CancelByKey_def cancel_loop_filter calls_ok_def)
next
  case (clear d m)
  have "calls_ok d [] (ClearSignals d m)" by (auto simp: ClearSignals_def calls_ok_def)
  then show ?case ..
next
  case (raise_notify d k)
  show ?case
  proof (cases "signals d AND 2 ^ k = 0")
    case True
    with calls_ok_notify [of "d\<lparr>signals := signals d OR 2 ^ k\<rparr>"] show ?thesis
      by (auto simp: raise_and_notify_def RaiseSignalsLocked_def calls_ok_signals)
  next
    case False
    then have "calls_ok d [] (raise_and_notify d (2 ^ k))"
      by (auto simp: raise_and_notify_def RaiseSignalsLocked_def calls_ok_def)
    then show ?thesis ..
  qed
qed (rule calls_ok_racing)

text \<open>
  A blocking wait from \<open>wo_begin\<close> on, while other threads run any critical sections of the
  dispatcher; only the waiter itself removes its observer, in \<open>wo_end\<close>.
\<close>

inductive wait_reach :: "zx_signals \<Rightarrow> wait_observer \<Rightarrow> dispatcher \<Rightarrow> bool" for watched where
  begun: "disp_reach False d \<Longrightarrow> wo_event w = None \<Longrightarrow> wo_id w \<notin> set (dispatcher_ids d) \<Longrightarrow>
     wo_begin w d h watched = (ZX_OK, w', d') \<Longrightarrow> wait_reach watched w' d'"
| other: "wait_reach watched w d \<Longrightarrow> disp_step False d d' \<Longrightarrow>
     wo_id w \<in> set (dispatcher_ids d') \<Longrightarrow> wait_reach watched (wo_deliver d d' w) d'"

definition waiter_ok :: "zx_signals \<Rightarrow> wait_observer \<Rightarrow> dispatcher \<Rightarrow> bool" where
  "waiter_ok watched w d \<longleftrightarrow>
     (case wo_event w of
        None \<Rightarrow> \<exists>ob \<in> set (observers d). obs_id ob = wo_id w \<and> triggering_signals ob = watched
      | Some st \<Rightarrow> wo_id w \<in> callback_id ` set (callbacks d) \<and>
          (st = ZX_OK \<and> wo_final w AND watched \<noteq> 0 \<or>
           st = ZX_ERR_CANCELED \<and> wo_final w AND ZX_SIGNAL_HANDLE_CLOSED \<noteq> 0))"

lemma wo_callback_id [simp]: "wo_id (wo_callback c w) = wo_id w"
  by (cases c) auto

lemma fold_wo_callback_id [simp]: "wo_id (fold wo_callback cs w) = wo_id w"
  by (induction cs arbitrary: w) auto

lemma wo_callback_other: "callback_id c \<noteq> wo_id w \<Longrightarrow> wo_callback c w = w"
  by (cases c) auto

lemma fold_wo_callback_other:
  "wo_id w \<notin> callback_id ` set cs \<Longrightarrow> fold wo_callback cs w = w"
  by (induction cs) (auto simp: wo_callback_other)

lemma closed_bit: "(s OR ZX_SIGNAL_HANDLE_CLOSED) AND ZX_SIGNAL_HANDLE_CLOSED \<noteq> 0"
  by (simp add: ZX_SIGNAL_HANDLE_CLOSED_def signal_simps bit_simps)

lemma waiter_ok_deliver:
  assumes ok: "waiter_ok watched w d" and calls: "calls_ok d cs d'"
    and dist: "distinct (dispatcher_ids d)" "distinct (dispatcher_ids d')"
    and here: "wo_id w \<in> set (dispatcher_ids d')"
  shows "waiter_ok watched (wo_deliver d d' w) d'"
proof -
  have cb: "callbacks d' = callbacks d @ cs" using calls by (simp add: calls_ok_def)
  then have deliver: "wo_deliver d d' w = fold wo_callback cs w" by (simp add: wo_deliver_def)
  have no_dup: "distinct (map callback_id (callbacks d) @ map callback_id cs)"
    using dist(2) by (simp add: dispatcher_ids_def cb)
  show ?thesis
  proof (cases "wo_event w")
    case (Some st)
    with ok have "wo_id w \<in> callback_id ` set (callbacks d)" by (simp add: waiter_ok_def)
    with no_dup have "wo_id w \<notin> callback_id ` set cs" by auto
    with ok Some show ?thesis
      by (auto simp: deliver fold_wo_callback_other waiter_ok_def cb)
  next
    case None
    with ok obtain ob where ob: "ob \<in> set (observers d)" "obs_id ob = wo_id w"
      "triggering_signals ob = watched" by (auto simp: waiter_ok_def)
    then have id_in: "wo_id w \<in> set (dispatcher_ids d)" by (force simp: dispatcher_ids_def)
    have unique: "ob' = ob" if "ob' \<in> set (observers d)" "obs_id ob' = wo_id w" for ob'
      using that ob dist(1) by (auto simp: dispatcher_ids_def distinct_map inj_on_def)
    show ?thesis
    proof (cases "wo_id w \<in> callback_id ` set cs")
      case False
      with None ob dist(1) here obtain ob' where "ob' \<in> set (observers d')" "obs_id ob' = wo_id w"
        by (force simp: dispatcher_ids_def cb)
      moreover from this calls id_in have "ob' \<in> set (observers d)" by (auto simp: calls_ok_def)
      ultimately show ?thesis
        using unique ob None False by (auto simp: deliver fold_wo_callback_other waiter_ok_def)
    next
      case True
      then obtain c where "c \<in> set cs" and c_id: "callback_id c = wo_id w" by auto
      then obtain xs ys where cs: "cs = xs @ c # ys" by (meson split_list)
      with no_dup c_id have "wo_id w \<notin> callback_id ` set xs" "wo_id w \<notin> callback_id ` set ys"
        by (auto simp: rev_image_eqI)
      then have "wo_deliver d d' w = wo_callback c w"
        by (simp add: deliver cs fold_wo_callback_other)
      moreover have "triggering_signals ob AND s \<noteq> 0" if "c = OnMatch (wo_id w) s" for s
      proof -
        from that cs have "OnMatch (wo_id w) s \<in> set cs" by simp
        with calls id_in obtain ob' where "ob' \<in> set (observers d)" "obs_id ob' = wo_id w"
          "triggering_signals ob' AND s \<noteq> 0" unfolding calls_ok_def by blast
        then show ?thesis using unique by auto
      qed
      ultimately show ?thesis
        using c_id ob(3) closed_bit True
        by (cases c) (auto simp: waiter_ok_def cb and.commute)
    qed
  qed
qed

lemma waiter_ok_begin:
  assumes "wo_begin w d h watched = (ZX_OK, w', d')" and "wo_event w = None"
  shows "waiter_ok watched w' d'"
  using assms
  by (auto simp: wo_begin_def wo_deliver_def AddObserver_def waiter_ok_def split: if_splits)

lemma wo_begin_step:
  assumes "wo_begin w d h watched = (st, w', d')" and "wo_id w \<notin> set (dispatcher_ids d)"
  shows "disp_step False d d'"
proof -
  let ?ob = "\<lparr>obs_id = wo_id w, obs_key = None, triggering_signals = 0, obs_handle = 0\<rparr>"
  have "disp_step False d (snd (AddObserver d ?ob h watched Level))"
    using assms(2) by (intro disp_step.add) auto
  with assms(1) show ?thesis by (auto simp: wo_begin_def split: prod.splits)
qed

lemma reach_ids: "disp_reach edge d \<Longrightarrow> distinct (dispatcher_ids d)"
proof (induction rule: disp_reach.induct)
  case (start ko w s)
  show ?case by (simp add: dispatcher_ids_def Dispatcher_new_def)
next
  case (step d d')
  then show ?case by (auto intro: disp_step_ids)
qed

lemma reach_quiet: "disp_reach False d \<Longrightarrow> observers_quiet d"
proof (induction rule: disp_reach.induct)
  case (start ko w s)
  show ?case by (simp add: observers_quiet_def Dispatcher_new_def)
next
  case (step d d')
  then show ?case by (auto intro: disp_step_quiet)
qed

lemma wait_reach_ok:
  "wait_reach watched w d \<Longrightarrow> disp_reach False d \<and> waiter_ok watched w d"
proof (induction rule: wait_reach.induct)
  case (begun d w h w' d')
  then show ?case
    by (blast intro: disp_reach.step wo_begin_step waiter_ok_begin)
next
  case (other w d d')
  then have reach': "disp_reach False d'" by (blast intro: disp_reach.step)
  moreover obtain cs where "calls_ok d cs d'" using calls_ok_step other.hyps(2) by blast
  ultimately show ?case
    using other waiter_ok_deliver reach_ids by blast
qed

section \<open>Properties\<close>

text \<open>
  C8. In every state a dispatcher can reach by any sequence of its critical sections, with
  any interleaving of lock-free clears and with level-triggered registrations only, no
  registered observer is waiting for a signal that is active: no wake-up is lost.
\<close>

theorem no_lost_wakeup:
  "disp_reach False d \<Longrightarrow> ob \<in> set (observers d) \<Longrightarrow> triggering_signals ob AND signals d = 0"
  using reach_quiet by (simp add: observers_quiet_def)

definition example_observer :: signal_observer where
  "example_observer = \<lparr>obs_id = 7, obs_key = None, triggering_signals = 0, obs_handle = 0\<rparr>"

theorem no_lost_wakeup_witness:
  "\<exists>d ob. disp_reach False d \<and> ob \<in> set (observers d) \<and> triggering_signals ob AND signals d = 0"
proof -
  let ?d = "snd (AddObserver (Dispatcher_new 1 True 4) example_observer 3 1 Level)"
  have "disp_reach False ?d"
    by (rule disp_reach.step [OF disp_reach.start], rule disp_step.add)
      (simp_all add: dispatcher_ids_def Dispatcher_new_def)
  moreover have "hd (observers ?d) \<in> set (observers ?d)"
    by (simp add: AddObserver_def Dispatcher_new_def)
  ultimately show ?thesis using no_lost_wakeup [of ?d "hd (observers ?d)"] by blast
qed

text \<open>
  Whatever the run, with edge-triggered registrations too, an observer is never both
  registered and called back, and is never called back twice: a waiter or a port packet gets
  at most one notification per registration.
\<close>

theorem observer_called_at_most_once:
  "disp_reach edge d \<Longrightarrow> distinct (map obs_id (observers d) @ map callback_id (callbacks d))"
  using reach_ids by (simp add: dispatcher_ids_def)

theorem observer_called_at_most_once_witness:
  "\<exists>d. disp_reach True d \<and> observers d \<noteq> [] \<and> callbacks d \<noteq> [] \<and>
     distinct (map obs_id (observers d) @ map callback_id (callbacks d))"
proof -
  let ?d0 = "Dispatcher_new 1 True 1"
  let ?d1 = "snd (AddObserver ?d0 example_observer 3 1 Level)"
  let ?d2 = "snd (AddObserver ?d1 (example_observer\<lparr>obs_id := 8\<rparr>) 3 1 Edge)"
  have "disp_reach True ?d1"
    by (rule disp_reach.step [OF disp_reach.start], rule disp_step.add)
      (simp_all add: dispatcher_ids_def Dispatcher_new_def)
  moreover have "disp_step True ?d1 ?d2"
    by (rule disp_step.add)
      (simp_all add: dispatcher_ids_def Dispatcher_new_def AddObserver_def example_observer_def)
  ultimately have reach: "disp_reach True ?d2" by (rule disp_reach.step)
  moreover have "observers ?d2 \<noteq> []" and "callbacks ?d2 \<noteq> []"
    by (simp_all add: AddObserver_def Dispatcher_new_def)
  ultimately show ?thesis using observer_called_at_most_once [OF reach] by blast
qed

text \<open>
  A signal that rises is delivered: when an update sets a signal that was not active, then,
  whatever clears race with the update, every observer waiting for it is erased from the list
  and called back with the word that holds the signal, and the signal is active afterwards.
\<close>

theorem rising_signal_notifies:
  assumes "ob \<in> set (observers d)" and "bit (triggering_signals ob) k"
    and "bit s k" and "\<not> bit (signals d) k"
  shows "let d' = UpdateStateLocked_racing races d c s st
         in OnMatch (obs_id ob) (signals d' OR st) \<in> set (callbacks d') \<and>
            ob \<notin> set (observers d') \<and> bit (signals d') k"
proof -
  obtain n where lin: "UpdateStateLocked_racing races d c s st =
      UpdateStateLocked (fold (\<lambda>m d. ClearSignals d m) (take n races) d) c s st"
    using UpdateStateLocked_racing_linear [of races d c s st] by blast
  define p where "p = fold (\<lambda>m x. x AND NOT m) (take n races) (signals d)"
  have "\<not> bit p k" using assms(4) bit_fold_clear unfolding p_def by blast
  with assms(3) have fresh: "s AND NOT p \<noteq> 0"
    using bit_imp_le_length [OF assms(3)] by (auto simp: and_overlap_iff bit_simps)
  have "triggering_signals ob AND (((p AND NOT c) OR s) OR st) \<noteq> 0"
    using assms(2,3) by (auto simp: and_overlap_iff bit_simps)
  with assms fresh show ?thesis
    by (auto simp: Let_def lin fold_ClearSignals p_def [symmetric] UpdateStateLocked_eq
        NotifyObserversLocked_def notify_loop_filter bit_simps)
qed

theorem rising_signal_notifies_witness:
  "let d = (Dispatcher_new 1 True 4)\<lparr>observers := [example_observer\<lparr>triggering_signals := 1\<rparr>]\<rparr>;
       d' = UpdateStateLocked_racing [4] d 0 1 0
   in OnMatch 7 (signals d') \<in> set (callbacks d') \<and> bit (signals d') 0"
  using rising_signal_notifies [of "example_observer\<lparr>triggering_signals := 1\<rparr>"
      "(Dispatcher_new 1 True 4)\<lparr>observers := [example_observer\<lparr>triggering_signals := 1\<rparr>]\<rparr>"
      0 1 "[4]" 0 0]
  by (simp add: Let_def Dispatcher_new_def example_observer_def)


definition example_waiter :: wait_observer where
  "example_waiter = \<lparr>wo_id = 9, wo_event = None, wo_final = 0\<rparr>"


text \<open>
  C19. An edge-triggered registration can be notified with no edge on any of its signals: when
  the observer's signals are already active at the registration and none of them is among the
  signals that rise later, the rise of an unrelated signal still calls the observer, because
  the notification passes the whole active word. The list invariant of C1 does not hold for
  edge-triggered registrations.
\<close>

theorem edge_observer_fires_without_edge:
  assumes "waitable d" and "a AND signals d \<noteq> 0" and "s AND NOT (signals d) \<noteq> 0" and "a AND s = 0"
  shows "let d1 = snd (AddObserver d ob h a Edge)
         in \<not> observers_quiet d1 \<and>
            OnMatch (obs_id ob) (signals d OR s) \<in> set (callbacks (update_state 0 s d1))"
proof -
  have "a AND (signals d OR s) \<noteq> 0"
    using assms(2) by (auto simp: and_overlap_iff bit_simps)
  with assms show ?thesis
    by (auto simp: Let_def AddObserver_def observers_quiet_def update_state_def
        UpdateStateLocked_eq NotifyObserversLocked_def notify_loop_filter)
qed

theorem edge_observer_fires_without_edge_witness:
  "let d = Dispatcher_new 1 True 1; d1 = snd (AddObserver d example_observer 3 1 Edge)
   in \<not> observers_quiet d1 \<and> OnMatch 7 3 \<in> set (callbacks (update_state 0 2 d1))"
  using edge_observer_fires_without_edge [of "Dispatcher_new 1 True 1" 1 2 example_observer 3]
  by (simp add: Let_def Dispatcher_new_def example_observer_def)

end
