(* ===== verification/Peered.thy ===== *)
theory Peered
  imports Dispatcher
begin

text \<open>
  The common part of objects with two endpoints (\<open>PeeredDispatcher\<close> and \<open>PeerHolder\<close> of
  \<^verbatim>\<open>kernel/object/include/object/dispatcher.h\<close>, lines 408 to 512). Both endpoints share one
  lock, so an operation is a function on the pair of them, the endpoint it is called on first.
  \<open>body\<close> is the state of the derived class; \<open>peer_linked\<close> says whether \<open>peer_\<close> is set. The
  theory also models event pairs (\<^verbatim>\<open>event_pair_dispatcher.cc\<close>), whose endpoints have no state
  of their own, and states the contract of the derived classes as a locale.
\<close>

section \<open>Signals\<close>

definition ZX_OBJECT_READABLE :: zx_signals where "ZX_OBJECT_READABLE = 2 ^ 0"
definition ZX_OBJECT_WRITABLE :: zx_signals where "ZX_OBJECT_WRITABLE = 2 ^ 1"
definition ZX_OBJECT_PEER_CLOSED :: zx_signals where "ZX_OBJECT_PEER_CLOSED = 2 ^ 2"
definition ZX_OBJECT_SIGNALED :: zx_signals where "ZX_OBJECT_SIGNALED = 2 ^ 3"

lemmas object_signal_defs =
  ZX_OBJECT_READABLE_def ZX_OBJECT_WRITABLE_def ZX_OBJECT_PEER_CLOSED_def ZX_OBJECT_SIGNALED_def

lemma bit_object_signals [signal_simps]:
  "bit ZX_OBJECT_READABLE n \<longleftrightarrow> n = 0"
  "bit ZX_OBJECT_WRITABLE n \<longleftrightarrow> n = 1"
  "bit ZX_OBJECT_PEER_CLOSED n \<longleftrightarrow> n = 2"
  "bit ZX_OBJECT_SIGNALED n \<longleftrightarrow> n = 3"
  unfolding object_signal_defs bit_exp_u32 by auto

section \<open>Endpoints\<close>

record 'b endpoint =
  disp :: dispatcher
  peer_linked :: bool
  peer_koid :: koid
  body :: 'b

definition PeeredDispatcher_new :: "koid \<Rightarrow> zx_signals \<Rightarrow> 'b \<Rightarrow> 'b endpoint" where
  "PeeredDispatcher_new k s b =
     \<lparr>disp = Dispatcher_new k True s, peer_linked = False, peer_koid = ZX_KOID_INVALID, body = b\<rparr>"

definition InitPeer :: "koid \<Rightarrow> 'b endpoint \<Rightarrow> 'b endpoint" where
  "InitPeer k e = e\<lparr>peer_linked := True, peer_koid := k\<rparr>"

definition ep_update_state :: "zx_signals \<Rightarrow> zx_signals \<Rightarrow> 'b endpoint \<Rightarrow> 'b endpoint" where
  "ep_update_state c s e = e\<lparr>disp := update_state c s (disp e)\<rparr>"

definition PeerHasClosed :: "'b endpoint \<Rightarrow> bool" where
  "PeerHasClosed e \<longleftrightarrow> \<not> peer_linked e"

definition user_signal_self ::
  "zx_signals \<Rightarrow> zx_signals \<Rightarrow> zx_signals \<Rightarrow> 'b endpoint \<Rightarrow> zx_status \<times> 'b endpoint" where
  "user_signal_self extra_signals clear_mask set_mask e =
     (let allowed = ZX_USER_SIGNAL_ALL OR extra_signals
      in if set_mask AND NOT allowed \<noteq> 0 \<or> clear_mask AND NOT allowed \<noteq> 0
         then (ZX_ERR_INVALID_ARGS, e)
         else (ZX_OK, ep_update_state clear_mask set_mask e))"

definition user_signal_peer ::
  "zx_signals \<Rightarrow> zx_signals \<Rightarrow> zx_signals \<Rightarrow> 'b endpoint \<times> 'b endpoint
    \<Rightarrow> zx_status \<times> 'b endpoint \<times> 'b endpoint" where
  "user_signal_peer extra_signals clear_mask set_mask = (\<lambda>(self, peer).
     let allowed = ZX_USER_SIGNAL_ALL OR extra_signals
     in if set_mask AND NOT allowed \<noteq> 0 \<or> clear_mask AND NOT allowed \<noteq> 0
        then (ZX_ERR_INVALID_ARGS, self, peer)
        else if \<not> peer_linked self then (ZX_ERR_PEER_CLOSED, self, peer)
        else (ZX_OK, self, ep_update_state clear_mask set_mask peer))"

text \<open>
  \<open>on_zero_handles\<close> with the two methods of the derived class as arguments: the pointer to the
  peer is moved out, \<open>on_zero_handles_locked\<close> runs, then the peer forgets this endpoint and its
  \<open>OnPeerZeroHandlesLocked\<close> runs.
\<close>

definition on_zero_handles ::
  "('b endpoint \<Rightarrow> 'b endpoint) \<Rightarrow> ('b endpoint \<Rightarrow> 'b endpoint) \<Rightarrow> 'b endpoint \<times> 'b endpoint
    \<Rightarrow> 'b endpoint \<times> 'b endpoint" where
  "on_zero_handles on_zero_handles_locked OnPeerZeroHandlesLocked = (\<lambda>(self, peer).
     let self' = on_zero_handles_locked (self\<lparr>peer_linked := False\<rparr>)
     in if peer_linked self
        then (self', OnPeerZeroHandlesLocked (peer\<lparr>peer_linked := False\<rparr>))
        else (self', peer))"

lemma ep_update_state_frame [simp]:
  "peer_linked (ep_update_state c s e) = peer_linked e"
  "body (ep_update_state c s e) = body e"
  by (simp_all add: ep_update_state_def)

lemma ep_update_state_signals [signal_simps]:
  "bit (signals (disp (ep_update_state c s e))) k \<longleftrightarrow> (bit (signals (disp e)) k \<and> \<not> bit c k) \<or> bit s k"
  unfolding ep_update_state_def by (simp add: update_state_signals bit_clear_set)

text \<open>A mask of user signals does not touch the kernel's signals.\<close>

lemma user_signal_all_mask: "ZX_USER_SIGNAL_ALL = NOT (mask 24)"
  by (simp add: ZX_USER_SIGNAL_ALL_def mask_eq_exp_minus_1)

lemma user_mask_low_bits:
  fixes m :: zx_signals
  assumes "m AND NOT (ZX_USER_SIGNAL_ALL OR extra) = 0" and "k < 24" and "\<not> bit extra k"
  shows "\<not> bit m k"
proof
  assume "bit m k"
  then have "bit (m AND NOT (ZX_USER_SIGNAL_ALL OR extra)) k"
    using assms(2,3) by (simp add: user_signal_all_mask bit_simps)
  with assms(1) show False by simp
qed

section \<open>The contract of a derived class\<close>

text \<open>
  Both endpoints know of each other, or neither does; and an endpoint that has lost its peer
  shows it.
\<close>

definition pair_linked :: "'b endpoint \<times> 'b endpoint \<Rightarrow> bool" where
  "pair_linked = (\<lambda>(a, b). peer_linked a = peer_linked b)"

locale peered_class =
  fixes ozh :: "'b endpoint \<Rightarrow> 'b endpoint" and opzh :: "'b endpoint \<Rightarrow> 'b endpoint"
  assumes ozh_link: "peer_linked (ozh e) = peer_linked e"
    and opzh_link: "peer_linked (opzh e) = peer_linked e"
    and opzh_closed: "bit (signals (disp (opzh e))) 2"
begin

lemma close_unlinks:
  "pair_linked (a, b) \<Longrightarrow> on_zero_handles ozh opzh (a, b) = (a', b') \<Longrightarrow>
   pair_linked (a', b') \<and> PeerHasClosed a' \<and> PeerHasClosed b'"
  by (auto simp: pair_linked_def on_zero_handles_def PeerHasClosed_def ozh_link opzh_link Let_def
      split: if_splits)

lemma close_signals_peer:
  "peer_linked a \<Longrightarrow> on_zero_handles ozh opzh (a, b) = (a', b') \<Longrightarrow> bit (signals (disp b')) 2"
  by (auto simp: on_zero_handles_def opzh_closed Let_def)

text \<open>Once an endpoint is closed, its peer's requests to signal it fail and change nothing.\<close>

lemma closed_rejects_signal:
  assumes "pair_linked (a, b)" and "on_zero_handles ozh opzh (a, b) = (a', b')"
    and "c AND NOT (ZX_USER_SIGNAL_ALL OR extra) = 0" and "s AND NOT (ZX_USER_SIGNAL_ALL OR extra) = 0"
  shows "user_signal_peer extra c s (b', a') = (ZX_ERR_PEER_CLOSED, b', a')"
  using close_unlinks [OF assms(1,2)] assms(3,4)
  by (simp add: user_signal_peer_def PeerHasClosed_def)

text \<open>A second close of the pair, by the other endpoint, does not touch the first one.\<close>

lemma close_other_side:
  assumes "pair_linked (a, b)" and "on_zero_handles ozh opzh (a, b) = (a', b')"
  shows "snd (on_zero_handles ozh opzh (b', a')) = a'"
  using close_unlinks [OF assms] by (simp add: on_zero_handles_def PeerHasClosed_def Let_def)

end

text \<open>Transports also take back the peer's permission to write.\<close>

locale peered_transport = peered_class +
  assumes opzh_writable: "\<not> bit (signals (disp (opzh e))) 1"
begin

lemma close_stops_writer:
  "peer_linked a \<Longrightarrow> on_zero_handles ozh opzh (a, b) = (a', b') \<Longrightarrow>
   bit (signals (disp b')) 2 \<and> \<not> bit (signals (disp b')) 1"
  using opzh_closed opzh_writable by (auto simp: on_zero_handles_def Let_def)

end

section \<open>Event pairs\<close>

text \<open>Three allocations can fail; \<open>alloc k\<close> says whether the \<open>k\<close>-th one succeeds.\<close>

definition EventPairDispatcher_Create ::
  "(nat \<Rightarrow> bool) \<Rightarrow> koid \<Rightarrow> koid \<Rightarrow> zx_status + (unit endpoint \<times> unit endpoint)" where
  "EventPairDispatcher_Create alloc k0 k1 =
     (if \<not> alloc 0 then Inl ZX_ERR_NO_MEMORY
      else if \<not> alloc 1 then Inl ZX_ERR_NO_MEMORY
      else if \<not> alloc 2 then Inl ZX_ERR_NO_MEMORY
      else Inr (InitPeer k1 (PeeredDispatcher_new k0 0 ()), InitPeer k0 (PeeredDispatcher_new k1 0 ())))"

definition EventPair_on_zero_handles_locked :: "unit endpoint \<Rightarrow> unit endpoint" where
  "EventPair_on_zero_handles_locked e = e"

definition EventPair_OnPeerZeroHandlesLocked :: "unit endpoint \<Rightarrow> unit endpoint" where
  "EventPair_OnPeerZeroHandlesLocked e = ep_update_state 0 ZX_OBJECT_PEER_CLOSED e"

interpretation eventpair: peered_class EventPair_on_zero_handles_locked EventPair_OnPeerZeroHandlesLocked
  by unfold_locales
    (simp_all add: EventPair_on_zero_handles_locked_def EventPair_OnPeerZeroHandlesLocked_def
      signal_simps bit_simps)

text \<open>
  Closing one endpoint of an event pair is seen by the other and is final: the peer shows
  \<open>ZX_EVENTPAIR_PEER_CLOSED\<close>, both endpoints are unlinked, any later attempt of the peer to signal
  across with permitted masks is refused with \<open>ZX_ERR_PEER_CLOSED\<close> and changes nothing, and
  closing the peer afterwards leaves the first endpoint as it was.
\<close>

theorem eventpair_close:
  assumes "peer_linked a" and "peer_linked b"
    and "on_zero_handles EventPair_on_zero_handles_locked EventPair_OnPeerZeroHandlesLocked (a, b) = (a', b')"
    and "c AND NOT (ZX_USER_SIGNAL_ALL OR ZX_OBJECT_SIGNALED) = 0"
    and "s AND NOT (ZX_USER_SIGNAL_ALL OR ZX_OBJECT_SIGNALED) = 0"
  shows "signals (disp b') AND ZX_OBJECT_PEER_CLOSED \<noteq> 0 \<and> PeerHasClosed a' \<and> PeerHasClosed b' \<and>
    user_signal_peer ZX_OBJECT_SIGNALED c s (b', a') = (ZX_ERR_PEER_CLOSED, b', a') \<and>
    snd (on_zero_handles EventPair_on_zero_handles_locked EventPair_OnPeerZeroHandlesLocked (b', a')) = a'"
proof -
  have linked: "pair_linked (a, b)" using assms(1,2) by (simp add: pair_linked_def)
  have "bit (signals (disp b')) 2"
    by (rule eventpair.close_signals_peer [OF assms(1,3)])
  then have "signals (disp b') AND ZX_OBJECT_PEER_CLOSED \<noteq> 0"
    unfolding ZX_OBJECT_PEER_CLOSED_def and_exp_nonzero .
  with eventpair.close_unlinks [OF linked assms(3)]
    eventpair.closed_rejects_signal [OF linked assms(3-5)]
    eventpair.close_other_side [OF linked assms(3)]
  show ?thesis by blast
qed

theorem eventpair_close_witness:
  "\<exists>a b a' b'. EventPairDispatcher_Create (\<lambda>_. True) 1 2 = Inr (a, b) \<and>
     on_zero_handles EventPair_on_zero_handles_locked EventPair_OnPeerZeroHandlesLocked (a, b) = (a', b') \<and>
     user_signal_peer ZX_OBJECT_SIGNALED 0 ZX_OBJECT_SIGNALED (b', a') = (ZX_ERR_PEER_CLOSED, b', a')"
proof -
  obtain a b where ab: "EventPairDispatcher_Create (\<lambda>_. True) 1 2 = Inr (a, b)"
    and linked: "peer_linked a" "peer_linked b"
    by (simp add: EventPairDispatcher_Create_def InitPeer_def)
  obtain a' b' where close: "on_zero_handles EventPair_on_zero_handles_locked
      EventPair_OnPeerZeroHandlesLocked (a, b) = (a', b')" by fastforce
  have "ZX_OBJECT_SIGNALED AND NOT (ZX_USER_SIGNAL_ALL OR ZX_OBJECT_SIGNALED) = 0"
    by (simp add: ZX_OBJECT_SIGNALED_def ZX_USER_SIGNAL_ALL_def)
  with eventpair_close [OF linked close, of 0 ZX_OBJECT_SIGNALED] ab close show ?thesis by auto
qed

end
