(* ===== verification/Queue_Interface.thy ===== *)
theory Queue_Interface
  imports Prelude
begin

text \<open>
  The contract shared by the kernel's first-in-first-out transports (fifos, stream sockets,
  channels): what a writer may rely on after \<open>push\<close>, which accepts a prefix of what it is
  offered, and a reader after \<open>pop\<close>, which returns a prefix of what is queued. The clients'
  lemma is that any interleaving of the two delivers the accepted elements in order, none
  lost and none twice. Each transport interprets the locale on its own model.
\<close>

text \<open>A run is a list of pushes (left) and pops (right); it returns what was accepted and read.\<close>

fun queue_run :: "('s \<Rightarrow> 'a list \<Rightarrow> nat \<times> 's) \<Rightarrow> ('s \<Rightarrow> nat \<Rightarrow> 'a list \<times> 's) \<Rightarrow> 's \<Rightarrow>
    ('a list + nat) list \<Rightarrow> 'a list \<times> 'a list \<times> 's" where
  "queue_run push pop s [] = ([], [], s)"
| "queue_run push pop s (Inl xs # ops) =
     (let (n, s1) = push s xs; (i, outp, s2) = queue_run push pop s1 ops in (take n xs @ i, outp, s2))"
| "queue_run push pop s (Inr k # ops) =
     (let (ys, s1) = pop s k; (i, outp, s2) = queue_run push pop s1 ops in (i, ys @ outp, s2))"

locale fifo_queue =
  fixes inv :: "'s \<Rightarrow> bool"
    and contents :: "'s \<Rightarrow> 'a list"
    and valid :: "'k \<Rightarrow> 'a list \<Rightarrow> bool"
    and kind :: "'s \<Rightarrow> 'k"
    and push :: "'s \<Rightarrow> 'a list \<Rightarrow> nat \<times> 's"
    and pop :: "'s \<Rightarrow> nat \<Rightarrow> 'a list \<times> 's"
  assumes push_law: "inv s \<Longrightarrow> valid (kind s) xs \<Longrightarrow> push s xs = (n, s') \<Longrightarrow>
      inv s' \<and> kind s' = kind s \<and> n \<le> length xs \<and> contents s' = contents s @ take n xs"
    and pop_law: "inv s \<Longrightarrow> pop s k = (ys, s') \<Longrightarrow>
      inv s' \<and> kind s' = kind s \<and> length ys \<le> k \<and> contents s = ys @ contents s'"
begin

lemma run_conserves:
  "inv s \<Longrightarrow> (\<And>xs. Inl xs \<in> set ops \<Longrightarrow> valid (kind s) xs) \<Longrightarrow>
   queue_run push pop s ops = (i, outp, s') \<Longrightarrow>
   inv s' \<and> contents s @ i = outp @ contents s'"
proof (induction ops arbitrary: s i outp s')
  case Nil
  then show ?case by simp
next
  case (Cons op ops)
  show ?case
  proof (cases op)
    case (Inl xs)
    obtain n s1 where p: "push s xs = (n, s1)" by fastforce
    obtain i' outp' s2 where r: "queue_run push pop s1 ops = (i', outp', s2)" by (metis prod_cases3)
    from Cons.prems(1,2) p Inl have law: "inv s1" "kind s1 = kind s" "contents s1 = contents s @ take n xs"
      using push_law [of s xs n s1] by auto
    from Cons.IH [OF law(1) _ r] Cons.prems law p r Inl show ?thesis by auto
  next
    case (Inr k)
    obtain ys s1 where p: "pop s k = (ys, s1)" by fastforce
    obtain i' outp' s2 where r: "queue_run push pop s1 ops = (i', outp', s2)" by (metis prod_cases3)
    from Cons.prems(1) p have law: "inv s1" "kind s1 = kind s" "contents s = ys @ contents s1"
      using pop_law [of s k ys s1] by auto
    from Cons.IH [OF law(1) _ r] Cons.prems law p r Inr show ?thesis by auto
  qed
qed

text \<open>From an empty queue, what was read is a prefix of what was accepted.\<close>

lemma run_in_order:
  "inv s \<Longrightarrow> contents s = [] \<Longrightarrow> (\<And>xs. Inl xs \<in> set ops \<Longrightarrow> valid (kind s) xs) \<Longrightarrow>
   queue_run push pop s ops = (i, outp, s') \<Longrightarrow> i = outp @ contents s'"
  using run_conserves [of s ops i outp s'] by simp

end

end
