(* ===== verification/Fifo.thy ===== *)
theory Fifo
  imports Peered Queue_Interface
begin

text \<open>
  Fifos (\<^verbatim>\<open>kernel/object/fifo_dispatcher.cc\<close>): a ring of fixed-size elements in each endpoint,
  written by the peer. \<open>head_\<close> and \<open>tail_\<close> are free-running 32-bit counters that are reduced
  modulo \<open>elem_count_\<close> to find a slot. The copy loops move a contiguous run of slots at a time
  and roll the counter back when a copy fails; the outer loops resolve the page fault and start
  again. The abstract state of an endpoint is the list of its queued elements.
\<close>

section \<open>State and operations\<close>

record fifo =
  elem_count :: u32
  elem_size :: u32
  head :: u32
  tail :: u32
  data :: "byte list"

type_synonym fifo_pair = "fifo endpoint \<times> fifo endpoint"

definition kMaxSizeBytes :: nat where "kMaxSizeBytes = 4096"

definition FifoDispatcher_new :: "koid \<Rightarrow> nat \<Rightarrow> nat \<Rightarrow> byte list \<Rightarrow> fifo endpoint" where
  "FifoDispatcher_new k count elemsize mem = PeeredDispatcher_new k ZX_OBJECT_WRITABLE
     \<lparr>elem_count = of_nat count, elem_size = of_nat elemsize, head = 0, tail = 0, data = mem\<rparr>"

text \<open>
  \<open>alloc k\<close> is the outcome of the \<open>k\<close>-th allocation and \<open>mem0\<close>, \<open>mem1\<close> the uninitialised
  contents of the two arrays.
\<close>

definition FifoDispatcher_Create ::
  "(nat \<Rightarrow> bool) \<Rightarrow> (nat \<Rightarrow> byte) \<Rightarrow> (nat \<Rightarrow> byte) \<Rightarrow> koid \<Rightarrow> koid \<Rightarrow> nat \<Rightarrow> nat
    \<Rightarrow> zx_status + fifo_pair" where
  "FifoDispatcher_Create alloc mem0 mem1 k0 k1 count elemsize =
     (if count = 0 \<or> elemsize = 0 \<or> count > kMaxSizeBytes \<or> elemsize > kMaxSizeBytes \<or>
         count * elemsize > kMaxSizeBytes
      then Inl ZX_ERR_OUT_OF_RANGE
      else if \<not> alloc 0 then Inl ZX_ERR_NO_MEMORY
      else if \<not> alloc 1 then Inl ZX_ERR_NO_MEMORY
      else if \<not> alloc 2 then Inl ZX_ERR_NO_MEMORY
      else if \<not> alloc 3 then Inl ZX_ERR_NO_MEMORY
      else if \<not> alloc 4 then Inl ZX_ERR_NO_MEMORY
      else Inr (InitPeer k1 (FifoDispatcher_new k0 count elemsize (map mem0 [0..<count * elemsize])),
                InitPeer k0 (FifoDispatcher_new k1 count elemsize (map mem1 [0..<count * elemsize]))))"

definition Fifo_on_zero_handles_locked :: "fifo endpoint \<Rightarrow> fifo endpoint" where
  "Fifo_on_zero_handles_locked e = e"

definition Fifo_OnPeerZeroHandlesLocked :: "fifo endpoint \<Rightarrow> fifo endpoint" where
  "Fifo_OnPeerZeroHandlesLocked e = ep_update_state ZX_OBJECT_WRITABLE ZX_OBJECT_PEER_CLOSED e"

text \<open>
  The copy loops. They return the failed copy, if any, and the new state; the read loop also
  returns the bytes that reached the user. \<open>p\<close> is the offset of the user pointer, advanced by
  \<open>byte_offset\<close>. The guard \<open>elem_count f = 0\<close> makes them total; \<open>Create\<close> excludes it.
\<close>

function fifo_write_loop :: "user_in \<Rightarrow> nat \<Rightarrow> nat \<Rightarrow> fifo \<Rightarrow> user_copy option \<times> fifo" where
  "fifo_write_loop ptr p count f =
     (if count = 0 \<or> elem_count f = 0 then (None, f)
      else let offset = unat (head f mod elem_count f);
               n = unat (elem_count f) - offset;
               to_copy = (if count > n then n else count);
               len = to_copy * unat (elem_size f);
               result = ptr p len;
               f1 = f\<lparr>data := overwrite (data f) (offset * unat (elem_size f)) (uc_bytes result)\<rparr>
           in if uc_status result \<noteq> ZX_OK then (Some result, f1)
              else fifo_write_loop ptr (p + len) (count - to_copy)
                     (f1\<lparr>head := head f + of_nat to_copy\<rparr>))"
  by pat_completeness auto

lemma slot_offset_less: "c \<noteq> 0 \<Longrightarrow> unat (h mod c) < unat c" for c h :: u32
  by (simp add: unat_mod unat_gt_0)

lemma slot_run_shrinks:
  "c \<noteq> 0 \<Longrightarrow> unat c - unat (h mod c) < k \<Longrightarrow> k - (unat c - unat (h mod c)) < k" for c h :: u32
  using slot_offset_less [of c h] by linarith

termination fifo_write_loop
  by (relation "measure (\<lambda>(ptr, p, count, f). count)") (auto simp: slot_run_shrinks)

function fifo_read_loop ::
  "user_out \<Rightarrow> nat \<Rightarrow> nat \<Rightarrow> fifo \<Rightarrow> user_copy option \<times> byte list \<times> fifo" where
  "fifo_read_loop ptr p count f =
     (if count = 0 \<or> elem_count f = 0 then (None, [], f)
      else let offset = unat (tail f mod elem_count f);
               n = unat (elem_count f) - offset;
               to_copy = (if count > n then n else count);
               len = to_copy * unat (elem_size f);
               result = ptr p (bytes_at (data f) (offset * unat (elem_size f)) len)
           in if uc_status result \<noteq> ZX_OK then (Some result, uc_bytes result, f)
              else let (r, out, f') = fifo_read_loop ptr (p + len) (count - to_copy)
                                        (f\<lparr>tail := tail f + of_nat to_copy\<rparr>)
                   in (r, uc_bytes result @ out, f'))"
  by pat_completeness auto

termination fifo_read_loop
  by (relation "measure (\<lambda>(ptr, p, count, f). count)") (auto simp: slot_run_shrinks)

declare fifo_write_loop.simps [simp del] fifo_read_loop.simps [simp del]

text \<open>
  The variant the locked operations return: a status, the count on success (\<open>ZX_OK\<close> with
  \<open>*actual\<close>), or the copy that failed.
\<close>

datatype fifo_result =
    Status zx_status
  | Actual nat
  | CopyFailed user_copy

text \<open>\<open>WriteSelfLocked\<close> runs on the peer of the writer: its own \<open>peer()\<close> is the writer.\<close>

definition WriteSelfLocked ::
  "nat \<Rightarrow> user_in \<Rightarrow> nat \<Rightarrow> fifo_pair \<Rightarrow> fifo_result \<times> fifo_pair" where
  "WriteSelfLocked esize ptr count = (\<lambda>(self, writer).
     let f = body self
     in if esize \<noteq> unat (elem_size f) then (Status ZX_ERR_OUT_OF_RANGE, self, writer)
        else if count = 0 then (Status ZX_ERR_OUT_OF_RANGE, self, writer)
        else let old_head = head f;
                 avail = unat (elem_count f - (head f - tail f))
             in if avail = 0 then (Status ZX_ERR_SHOULD_WAIT, self, writer)
                else let was_empty = (avail = unat (elem_count f));
                         count = (if count > avail then avail else count)
                     in case fifo_write_loop ptr 0 count f of
                          (Some result, f') \<Rightarrow>
                            (CopyFailed result, self\<lparr>body := f'\<lparr>head := old_head\<rparr>\<rparr>, writer)
                        | (None, f') \<Rightarrow>
                            let self1 = self\<lparr>body := f'\<rparr>;
                                self2 = (if was_empty then ep_update_state 0 ZX_OBJECT_READABLE self1
                                         else self1);
                                writer' = (if elem_count f' = head f' - tail f'
                                           then ep_update_state ZX_OBJECT_WRITABLE 0 writer else writer)
                            in (Actual (unat (head f' - old_head)), self2, writer'))"

definition ReadToUserLocked ::
  "nat \<Rightarrow> user_out \<Rightarrow> nat \<Rightarrow> fifo_pair \<Rightarrow> fifo_result \<times> byte list \<times> fifo_pair" where
  "ReadToUserLocked esize ptr count = (\<lambda>(self, peer).
     let f = body self
     in if esize \<noteq> unat (elem_size f) then (Status ZX_ERR_OUT_OF_RANGE, [], self, peer)
        else if count = 0 then (Status ZX_ERR_OUT_OF_RANGE, [], self, peer)
        else let old_tail = tail f;
                 avail = unat (head f - tail f)
             in if avail = 0
                then (Status (if peer_linked self then ZX_ERR_SHOULD_WAIT else ZX_ERR_PEER_CLOSED),
                      [], self, peer)
                else let was_full = (avail = unat (elem_count f));
                         count = (if count > avail then avail else count)
                     in case fifo_read_loop ptr 0 count f of
                          (Some result, out, f') \<Rightarrow>
                            (CopyFailed result, out, self\<lparr>body := f'\<lparr>tail := old_tail\<rparr>\<rparr>, peer)
                        | (None, out, f') \<Rightarrow>
                            let self1 = self\<lparr>body := f'\<rparr>;
                                peer' = (if was_full \<and> peer_linked self
                                         then ep_update_state 0 ZX_OBJECT_WRITABLE peer else peer);
                                self2 = (if head f' - tail f' = 0
                                         then ep_update_state ZX_OBJECT_READABLE 0 self1 else self1)
                            in (Actual (unat (tail f' - old_tail)), out, self2, peer'))"

text \<open>
  The outer loops, with fuel. Between two attempts the lock is dropped, so the environment may
  change the pair and the user mapping: \<open>env k\<close> is what happens before attempt \<open>k\<close>, \<open>ptr k\<close> the
  user memory that attempt sees, and \<open>soft_fault k\<close> the outcome of \<open>Thread::Current::SoftFault\<close>
  after it. \<open>None\<close> is running out of fuel. \<open>actual\<close> is the count stored for the caller.
\<close>

fun WriteFromUser ::
  "nat \<Rightarrow> (nat \<Rightarrow> fifo_pair \<Rightarrow> fifo_pair) \<Rightarrow> (nat \<Rightarrow> user_in) \<Rightarrow> (nat \<Rightarrow> zx_status) \<Rightarrow> nat \<Rightarrow> nat \<Rightarrow> nat
    \<Rightarrow> fifo_pair \<Rightarrow> (zx_status \<times> nat option \<times> fifo_pair) option" where
  "WriteFromUser 0 env ptr soft_fault k esize count pair = None"
| "WriteFromUser (Suc fuel) env ptr soft_fault k esize count pair =
     (let (writer, peer) = env k pair
      in if \<not> peer_linked writer then Some (ZX_ERR_PEER_CLOSED, None, writer, peer)
         else case WriteSelfLocked esize (ptr k) count (peer, writer) of
             (Status st, peer', writer') \<Rightarrow> Some (st, None, writer', peer')
           | (Actual n, peer', writer') \<Rightarrow> Some (ZX_OK, Some n, writer', peer')
           | (CopyFailed c, peer', writer') \<Rightarrow>
               (let result = (if uc_fault c then soft_fault k else uc_status c)
                in if result \<noteq> ZX_OK then Some (ZX_ERR_INVALID_ARGS, None, writer', peer')
                   else WriteFromUser fuel env ptr soft_fault (Suc k) esize count (writer', peer')))"

fun ReadToUser ::
  "nat \<Rightarrow> (nat \<Rightarrow> fifo_pair \<Rightarrow> fifo_pair) \<Rightarrow> (nat \<Rightarrow> user_out) \<Rightarrow> (nat \<Rightarrow> zx_status) \<Rightarrow> nat \<Rightarrow> nat \<Rightarrow> nat
    \<Rightarrow> fifo_pair \<Rightarrow> (zx_status \<times> nat option \<times> byte list \<times> fifo_pair) option" where
  "ReadToUser 0 env ptr soft_fault k esize count pair = None"
| "ReadToUser (Suc fuel) env ptr soft_fault k esize count pair =
     (case ReadToUserLocked esize (ptr k) count (env k pair) of
        (Status st, out, pair') \<Rightarrow> Some (st, None, out, pair')
      | (Actual n, out, pair') \<Rightarrow> Some (ZX_OK, Some n, out, pair')
      | (CopyFailed c, out, pair') \<Rightarrow>
          (let result = (if uc_fault c then soft_fault k else uc_status c)
           in if result \<noteq> ZX_OK then Some (ZX_ERR_INVALID_ARGS, None, out, pair')
              else ReadToUser fuel env ptr soft_fault (Suc k) esize count pair'))"

section \<open>Slots of the ring\<close>

text \<open>Slot \<open>j\<close> of an array of \<open>es\<close>-byte slots, and what a copy over a run of slots does to it.\<close>

lemma run_of_slots_inside:
  "o1 + t \<le> ec \<Longrightarrow> length bs \<le> t * es \<Longrightarrow> length xs = ec * es \<Longrightarrow> o1 * es + length bs \<le> length xs"
  for es :: nat
  by (metis add_le_mono1 add_mult_distrib le_trans mult_le_mono1 nat_add_left_cancel_le)

lemma slot_inside: "j < ec \<Longrightarrow> length xs = ec * es \<Longrightarrow> j * es + es \<le> length xs" for es :: nat
  by (metis Suc_leI add.commute mult_Suc mult_le_mono1)

lemma slot_outside_run:
  assumes "j < ec" and "j < o1 \<or> o1 + t \<le> j" and "o1 + t \<le> ec"
    and "length bs \<le> t * es" and "length xs = ec * es"
  shows "bytes_at (overwrite xs (o1 * es) bs) (j * es) es = bytes_at xs (j * es) es"
proof (rule bytes_at_overwrite_disjoint)
  show "o1 * es + length bs \<le> length xs" using assms(3-5) by (rule run_of_slots_inside)
  show "j * es + es \<le> length xs" using assms(1,5) by (rule slot_inside)
  show "j * es + es \<le> o1 * es \<or> o1 * es + length bs \<le> j * es"
    using assms(2)
  proof
    assume "j < o1"
    then have "Suc j * es \<le> o1 * es" by (simp only: mult_le_mono1 Suc_leI)
    then show ?thesis by simp
  next
    assume "o1 + t \<le> j"
    then have "(o1 + t) * es \<le> j * es" by (rule mult_le_mono1)
    then show ?thesis using assms(4) by (simp add: add_mult_distrib)
  qed
qed

lemma slot_in_run:
  assumes "o1 \<le> j" and "j < o1 + t" and "o1 + t \<le> ec"
    and "length bs = t * es" and "length xs = ec * es"
  shows "bytes_at (overwrite xs (o1 * es) bs) (j * es) es = bytes_at bs ((j - o1) * es) es"
proof -
  have "o1 * es + length bs \<le> length xs"
    using assms by (intro run_of_slots_inside [of o1 t ec]) auto
  moreover have "o1 * es \<le> j * es" using assms(1) by simp
  moreover have "Suc j * es \<le> (o1 + t) * es" using assms(2) by (intro mult_le_mono1) simp
  then have "j * es + es \<le> o1 * es + length bs" using assms(4) by (simp add: add_mult_distrib)
  ultimately show ?thesis by (simp add: bytes_at_overwrite_inside diff_mult_distrib)
qed

lemma ring_slots_apart: "i < j \<Longrightarrow> j < n \<Longrightarrow> (b + j) mod n \<noteq> (b + i) mod n" for b i j n :: nat
  using mod_eq_dvd_iff_nat [of "b + i" "b + j" n] nat_dvd_not_less [of "j - i" n] by auto

lemma ring_slots_distinct:
  "i < n \<Longrightarrow> j < n \<Longrightarrow> (b + i) mod n = (b + j) mod n \<longleftrightarrow> i = j" for b i j n :: nat
  using ring_slots_apart [of i j n b] ring_slots_apart [of j i n b] by (metis nat_neq_iff)

text \<open>
  The abstract state: the elements from \<open>tail\<close> to \<open>head\<close>. A fifo is well formed when its geometry
  is one \<open>Create\<close> accepts and it holds at most \<open>elem_count\<close> elements. \<open>no_wrap f k\<close> says that the
  \<open>k\<close> counter values from \<open>tail\<close> on fall into consecutive slots of the ring.
\<close>

definition fifo_used :: "fifo \<Rightarrow> nat" where
  "fifo_used f = unat (head f - tail f)"

definition slot_at :: "u32 \<Rightarrow> byte list \<Rightarrow> nat \<Rightarrow> byte list" where
  "slot_at es d j = bytes_at d (j * unat es) (unat es)"

definition fifo_contents :: "fifo \<Rightarrow> byte list list" where
  "fifo_contents f =
     map (\<lambda>i. slot_at (elem_size f) (data f) (unat (tail f + of_nat i) mod unat (elem_count f))) [0..<fifo_used f]"

definition fifo_shape :: "fifo \<Rightarrow> bool" where
  "fifo_shape f \<longleftrightarrow> elem_count f \<noteq> 0 \<and> elem_size f \<noteq> 0 \<and>
     unat (elem_count f) * unat (elem_size f) \<le> kMaxSizeBytes \<and>
     length (data f) = unat (elem_count f) * unat (elem_size f)"

definition fifo_wf :: "fifo \<Rightarrow> bool" where
  "fifo_wf f \<longleftrightarrow> fifo_shape f \<and> fifo_used f \<le> unat (elem_count f)"

definition no_wrap :: "fifo \<Rightarrow> nat \<Rightarrow> bool" where
  "no_wrap f k \<longleftrightarrow> unat (elem_count f) dvd 2 ^ 32 \<or> unat (tail f) + k \<le> 2 ^ 32"

definition elements_of :: "nat \<Rightarrow> byte list \<Rightarrow> nat \<Rightarrow> byte list list" where
  "elements_of es buf n = map (\<lambda>i. bytes_at buf (i * es) es) [0..<n]"

text \<open>A counter \<open>h\<close> whose next \<open>c\<close> values fall into consecutive slots, counted from \<open>b\<close>.\<close>

definition ring_run :: "nat \<Rightarrow> u32 \<Rightarrow> nat \<Rightarrow> nat \<Rightarrow> bool" where
  "ring_run ec h b c \<longleftrightarrow> (\<forall>i<c. unat (h + of_nat i) mod ec = (b + i) mod ec)"

lemma ring_run_start: "ring_run ec h b c \<Longrightarrow> 0 < c \<Longrightarrow> unat h mod ec = b mod ec"
  unfolding ring_run_def by force

lemma ring_run_shift:
  "ring_run ec h b c \<Longrightarrow> t \<le> c \<Longrightarrow> ring_run ec (h + of_nat t) (b + t) (c - t)"
  unfolding ring_run_def
proof (intro allI impI)
  fix i assume run: "\<forall>i<c. unat (h + of_nat i) mod ec = (b + i) mod ec" and "t \<le> c" "i < c - t"
  then have "t + i < c" by linarith
  with run have "unat (h + of_nat (t + i)) mod ec = (b + (t + i)) mod ec" by blast
  then show "unat (h + of_nat t + of_nat i) mod ec = (b + t + i) mod ec" by (simp add: add.assoc)
qed

lemma no_wrap_run:
  assumes "no_wrap f (u + c)"
  shows "ring_run (unat (elem_count f)) (tail f + of_nat u) (unat (tail f) + u) c"
  unfolding ring_run_def
proof (intro allI impI)
  fix i assume "i < c"
  have "tail f + of_nat u + of_nat i = tail f + of_nat (u + i)" by simp
  then have "unat (tail f + of_nat u + of_nat i) = (unat (tail f) + (u + i)) mod 4294967296"
    by (simp only: unat_add_nat_u32)
  then show "unat (tail f + of_nat u + of_nat i) mod unat (elem_count f) =
      (unat (tail f) + u + i) mod unat (elem_count f)"
    using assms \<open>i < c\<close> by (auto simp: no_wrap_def mod_mod_cancel add.assoc)
qed

section \<open>The copy loops\<close>

text \<open>One iteration of the write loop fills a run of \<open>t\<close> slots and leaves the others alone.\<close>

lemma write_loop_step:
  assumes wf: "user_in_wf ptr" and shape: "fifo_shape f"
    and start: "unat (head f) mod unat (elem_count f) = b mod unat (elem_count f)" and c: "0 < c"
  obtains t d where "0 < t" and "t \<le> c"
    and "fifo_write_loop ptr p c f =
        (if uc_status (ptr p (t * unat (elem_size f))) \<noteq> ZX_OK
         then (Some (ptr p (t * unat (elem_size f))), f\<lparr>data := d\<rparr>)
         else fifo_write_loop ptr (p + t * unat (elem_size f)) (c - t) (f\<lparr>data := d, head := head f + of_nat t\<rparr>))"
    and "length d = length (data f)"
    and "\<And>j. j < unat (elem_count f) \<Longrightarrow> \<forall>i<t. j \<noteq> (b + i) mod unat (elem_count f) \<Longrightarrow>
          slot_at (elem_size f) d j = slot_at (elem_size f) (data f) j"
    and "\<And>i. uc_status (ptr p (t * unat (elem_size f))) = ZX_OK \<Longrightarrow> i < t \<Longrightarrow>
          slot_at (elem_size f) d ((b + i) mod unat (elem_count f)) =
          bytes_at (uc_bytes (ptr p (t * unat (elem_size f)))) (i * unat (elem_size f)) (unat (elem_size f))"
proof -
  define ec es o1 t where "ec = unat (elem_count f)" and "es = unat (elem_size f)"
    and "o1 = unat (head f mod elem_count f)" and "t = (if c > ec - o1 then ec - o1 else c)"
  define res d where "res = ptr p (t * es)"
    and "d = overwrite (data f) (o1 * es) (uc_bytes res)"
  have nz: "elem_count f \<noteq> 0" using shape by (simp add: fifo_shape_def)
  have o1: "o1 = b mod ec" "o1 < ec"
    using start slot_offset_less [OF nz, of "head f"]
    by (simp_all add: o1_def ec_def unat_mod)
  have t: "0 < t" "t \<le> c" "o1 + t \<le> ec" using o1 c by (auto simp: t_def)
  have len: "length (uc_bytes res) \<le> t * es" "length (data f) = ec * es"
    using user_in_wf_le [OF wf] shape by (auto simp: res_def fifo_shape_def ec_def es_def)
  have slot: "(b + i) mod ec = o1 + i" if "i < t" for i
    using that t o1 by (metis add.commute add_less_mono1 less_le_trans mod_add_left_eq mod_less)
  show thesis
  proof (rule that [of t d, folded es_def ec_def, folded res_def])
    show "fifo_write_loop ptr p c f = (if uc_status res \<noteq> ZX_OK then (Some res, f\<lparr>data := d\<rparr>)
       else fifo_write_loop ptr (p + t * es) (c - t) (f\<lparr>data := d, head := head f + of_nat t\<rparr>))"
      using c nz
      by (subst fifo_write_loop.simps) (simp add: Let_def res_def d_def t_def o1_def es_def ec_def)
    show "length d = length (data f)"
      using run_of_slots_inside [OF t(3) len] by (simp add: d_def length_overwrite)
    show "slot_at (elem_size f) d j = slot_at (elem_size f) (data f) j" if "j < ec" "\<forall>i<t. j \<noteq> (b + i) mod ec" for j
    proof -
      have "j < o1 \<or> o1 + t \<le> j"
        using that(2) slot by (metis add_diff_inverse_nat nat_add_left_cancel_less not_le)
      then show ?thesis
        using slot_outside_run [OF that(1) _ t(3) len] by (simp add: d_def slot_at_def es_def)
    qed
    show "slot_at (elem_size f) d ((b + i) mod ec) = bytes_at (uc_bytes res) (i * es) es"
      if "uc_status res = ZX_OK" "i < t" for i
      using slot_in_run [of o1 "o1 + i" t ec "uc_bytes res" es "data f"] that t(3) len(2) slot [OF that(2)]
        user_in_wf_length [OF wf] by (simp add: d_def slot_at_def es_def res_def)
  qed (use t in \<open>simp_all add: d_def\<close>)
qed

lemma write_loop_frame:
  assumes "user_in_wf ptr" and "fifo_shape f" and "ring_run (unat (elem_count f)) (head f) b c"
    and "fifo_write_loop ptr p c f = (r, f')"
  shows "\<exists>h d. f' = f\<lparr>data := d, head := h\<rparr> \<and> length d = length (data f) \<and>
    (r = None \<longrightarrow> h = head f + of_nat c) \<and>
    (\<forall>j<unat (elem_count f). (\<forall>i<c. j \<noteq> (b + i) mod unat (elem_count f)) \<longrightarrow>
       slot_at (elem_size f) d j = slot_at (elem_size f) (data f) j)"
  using assms(2-4)
proof (induction c arbitrary: p f b rule: less_induct)
  case (less c)
  show ?case
  proof (cases "c = 0")
    case True
    with less.prems show ?thesis
      by (intro exI [of _ "head f"] exI [of _ "data f"]) (simp add: fifo_write_loop.simps)
  next
    case False
    then have c0: "0 < c" by simp
    obtain t d where t: "0 < t" "t \<le> c" and step: "fifo_write_loop ptr p c f =
        (if uc_status (ptr p (t * unat (elem_size f))) \<noteq> ZX_OK
         then (Some (ptr p (t * unat (elem_size f))), f\<lparr>data := d\<rparr>)
         else fifo_write_loop ptr (p + t * unat (elem_size f)) (c - t)
                (f\<lparr>data := d, head := head f + of_nat t\<rparr>))"
      and shape: "length d = length (data f)"
      and keep: "\<And>j. j < unat (elem_count f) \<Longrightarrow> \<forall>i<t. j \<noteq> (b + i) mod unat (elem_count f) \<Longrightarrow>
          slot_at (elem_size f) d j = slot_at (elem_size f) (data f) j"
      by (rule write_loop_step [OF assms(1) less.prems(1) ring_run_start [OF less.prems(2) c0] c0]) blast
    show ?thesis
    proof (cases "uc_status (ptr p (t * unat (elem_size f))) = ZX_OK")
      case False
      with step less.prems(3) have "r \<noteq> None" "f' = f\<lparr>data := d, head := head f\<rparr>" by auto
      with shape keep t(2) show ?thesis by (intro exI [of _ "head f"] exI [of _ d]) auto
    next
      case True
      let ?f2 = "f\<lparr>data := d, head := head f + of_nat t\<rparr>"
      have rest: "fifo_write_loop ptr (p + t * unat (elem_size f)) (c - t) ?f2 = (r, f')"
        using step True less.prems(3) by simp
      have run: "ring_run (unat (elem_count ?f2)) (head ?f2) (b + t) (c - t)"
        using ring_run_shift [OF less.prems(2) t(2)] by simp
      have "c - t < c" "fifo_shape ?f2" using t shape less.prems(1) by (auto simp: fifo_shape_def)
      from less.IH [OF this run rest] obtain h d' where f': "f' = f\<lparr>data := d', head := h\<rparr>"
        and len: "length d' = length (data f)" and h: "r = None \<longrightarrow> h = head f + of_nat t + of_nat (c - t)"
        and keep': "\<forall>j<unat (elem_count f). (\<forall>i<c - t. j \<noteq> (b + t + i) mod unat (elem_count f)) \<longrightarrow>
          slot_at (elem_size f) d' j = slot_at (elem_size f) d j"
        using shape by auto
      have "of_nat t + of_nat (c - t) = (of_nat c :: u32)" using t(2) by (metis le_add_diff_inverse of_nat_add)
      with h have "r = None \<longrightarrow> h = head f + of_nat c" by (simp add: add.assoc)
      moreover have "slot_at (elem_size f) d' j = slot_at (elem_size f) (data f) j"
        if "j < unat (elem_count f)" "\<forall>i<c. j \<noteq> (b + i) mod unat (elem_count f)" for j
        using keep' keep [OF that(1)] that t(2) by (auto simp: add.assoc)
      ultimately show ?thesis using f' len by blast
    qed
  qed
qed

lemma of_nat_split_u32: "t \<le> c \<Longrightarrow> w + of_nat t + of_nat (c - t) = w + (of_nat c :: u32)"
  by (metis add.assoc le_add_diff_inverse of_nat_add)

text \<open>From a readable user buffer the loop completes, and each slot gets its element.\<close>

lemma write_loop_data:
  assumes "fifo_shape f" and "ring_run (unat (elem_count f)) (head f) b c"
    and "c \<le> unat (elem_count f)" and "p + c * unat (elem_size f) \<le> length buf"
  shows "\<exists>d. fifo_write_loop (user_buf buf) p c f = (None, f\<lparr>data := d, head := head f + of_nat c\<rparr>) \<and>
    (\<forall>i<c. slot_at (elem_size f) d ((b + i) mod unat (elem_count f)) =
            bytes_at buf (p + i * unat (elem_size f)) (unat (elem_size f)))"
  using assms
proof (induction c arbitrary: p f b rule: less_induct)
  case (less c)
  show ?case
  proof (cases "c = 0")
    case True
    then show ?thesis by (intro exI [of _ "data f"]) (simp add: fifo_write_loop.simps)
  next
    case False
    let ?es = "unat (elem_size f)" and ?ec = "unat (elem_count f)"
    from False have c0: "0 < c" by simp
    obtain t d where t: "0 < t" "t \<le> c" and step: "fifo_write_loop (user_buf buf) p c f =
        (if uc_status (user_buf buf p (t * ?es)) \<noteq> ZX_OK
         then (Some (user_buf buf p (t * ?es)), f\<lparr>data := d\<rparr>)
         else fifo_write_loop (user_buf buf) (p + t * ?es) (c - t)
                (f\<lparr>data := d, head := head f + of_nat t\<rparr>))"
      and len: "length d = length (data f)"
      and fill: "\<And>i. uc_status (user_buf buf p (t * ?es)) = ZX_OK \<Longrightarrow> i < t \<Longrightarrow>
          slot_at (elem_size f) d ((b + i) mod ?ec) =
          bytes_at (uc_bytes (user_buf buf p (t * ?es))) (i * ?es) ?es"
      by (rule write_loop_step [OF user_buf_wf less.prems(1) ring_run_start [OF less.prems(2) c0] c0]) blast
    have sum: "t * ?es + (c - t) * ?es = c * ?es" using t(2) by (metis add_mult_distrib le_add_diff_inverse)
    then have ok: "user_buf buf p (t * ?es) =
        \<lparr>uc_bytes = bytes_at buf p (t * ?es), uc_status = ZX_OK, uc_fault = False\<rparr>"
      using less.prems(4) by (intro user_buf_ok) linarith
    let ?f2 = "f\<lparr>data := d, head := head f + of_nat t\<rparr>"
    have pre: "c - t < c" "fifo_shape ?f2" "c - t \<le> unat (elem_count ?f2)"
      "p + t * ?es + (c - t) * unat (elem_size ?f2) \<le> length buf"
      using t less.prems len sum by (auto simp: fifo_shape_def)
    have run: "ring_run (unat (elem_count ?f2)) (head ?f2) (b + t) (c - t)"
      using ring_run_shift [OF less.prems(2) t(2)] by simp
    from less.IH [OF pre(1,2) run pre(3,4)] obtain d' where
      rest: "fifo_write_loop (user_buf buf) (p + t * ?es) (c - t) ?f2 =
        (None, f\<lparr>data := d', head := head f + of_nat c\<rparr>)"
      and fill': "\<forall>i<c - t. slot_at (elem_size f) d' ((b + t + i) mod ?ec) =
        bytes_at buf (p + t * ?es + i * ?es) ?es"
      by (auto simp: of_nat_split_u32 [OF t(2)] simp del: of_nat_diff)
    have keep: "\<And>j. j < ?ec \<Longrightarrow> \<forall>i<c - t. j \<noteq> (b + t + i) mod ?ec \<Longrightarrow>
        slot_at (elem_size f) d' j = slot_at (elem_size f) d j"
      using write_loop_frame [OF user_buf_wf pre(2) run rest] by (auto dest: arg_cong [where f = data])
    have "slot_at (elem_size f) d' ((b + i) mod ?ec) = bytes_at buf (p + i * ?es) ?es" if i: "i < c" for i
    proof (cases "i < t")
      case True
      have "\<forall>i'<c - t. (b + i) mod ?ec \<noteq> (b + t + i') mod ?ec"
        using True less.prems(3) ring_slots_distinct [of i ?ec "t + i'" b for i'] by (auto simp: add.assoc)
      moreover have "i * ?es + ?es \<le> t * ?es" using True by (metis Suc_leI add.commute mult_Suc mult_le_mono1)
      ultimately show ?thesis
        using keep [of "(b + i) mod ?ec"] fill [OF _ True] ok less.prems(1)
        by (simp add: bytes_at_slice fifo_shape_def unat_gt_0)
    next
      case False
      then show ?thesis using fill' [rule_format, of "i - t"] i
        by (simp add: add.assoc flip: add_mult_distrib)
    qed
    then show ?thesis using step ok rest by auto
  qed
qed

lemma run_of_slots_concat:
  "bytes_at d (o1 * es) (t * es) = concat (map (\<lambda>i. bytes_at d ((o1 + i) * es) es) [0..<t])" for es :: nat
  by (induction t) (simp_all add: bytes_at_append add_mult_distrib add.commute [of es] bytes_at_def [of _ _ 0])

text \<open>The elements in the \<open>c\<close> slots from position \<open>b\<close> of the ring on.\<close>

definition ring_elems :: "fifo \<Rightarrow> nat \<Rightarrow> nat \<Rightarrow> byte list list" where
  "ring_elems f b c =
     map (\<lambda>i. slot_at (elem_size f) (data f) ((b + i) mod unat (elem_count f))) [0..<c]"

lemma ring_elems_split: "t \<le> c \<Longrightarrow> ring_elems f b c = ring_elems f b t @ ring_elems f (b + t) (c - t)"
  unfolding ring_elems_def
  by (intro nth_equalityI) (auto simp: nth_append add.assoc)

lemma ring_elems_tail [simp]: "ring_elems (f\<lparr>tail := t\<rparr>) = ring_elems f"
  by (simp add: ring_elems_def fun_eq_iff)

lemma read_loop_step:
  assumes shape: "fifo_shape f"
    and start: "unat (tail f) mod unat (elem_count f) = b mod unat (elem_count f)" and c: "0 < c"
  obtains t where "0 < t" and "t \<le> c"
    and "fifo_read_loop ptr p c f =
      (let res = ptr p (concat (ring_elems f b t))
       in if uc_status res \<noteq> ZX_OK then (Some res, uc_bytes res, f)
          else let (r, out, f') = fifo_read_loop ptr (p + t * unat (elem_size f)) (c - t)
                                    (f\<lparr>tail := tail f + of_nat t\<rparr>)
               in (r, uc_bytes res @ out, f'))"
proof -
  define ec es o1 t where "ec = unat (elem_count f)" and "es = unat (elem_size f)"
    and "o1 = unat (tail f mod elem_count f)" and "t = (if c > ec - o1 then ec - o1 else c)"
  have nz: "elem_count f \<noteq> 0" using shape by (simp add: fifo_shape_def)
  have o1: "o1 = b mod ec" "o1 < ec"
    using start slot_offset_less [OF nz, of "tail f"]
    by (simp_all add: o1_def ec_def unat_mod)
  have t: "0 < t" "t \<le> c" "o1 + t \<le> ec" using o1 c by (auto simp: t_def)
  have slot: "(b + i) mod ec = o1 + i" if "i < t" for i
    using that t o1 by (metis add.commute add_less_mono1 less_le_trans mod_add_left_eq mod_less)
  have "ring_elems f b t = map (\<lambda>i. bytes_at (data f) ((o1 + i) * es) es) [0..<t]"
    unfolding ring_elems_def using slot by (simp add: slot_at_def flip: ec_def es_def)
  then have bytes: "concat (ring_elems f b t) = bytes_at (data f) (o1 * es) (t * es)"
    by (simp only: run_of_slots_concat)
  show thesis
    by (rule that [OF t(1,2)], unfold bytes, subst fifo_read_loop.simps)
      (use c nz in \<open>simp add: Let_def t_def o1_def es_def ec_def\<close>)
qed

text \<open>The read loop only moves \<open>tail\<close>; when it completes, the user has the elements in order.\<close>

lemma read_loop_frame:
  assumes "fifo_shape f" and "ring_run (unat (elem_count f)) (tail f) b c"
    and "fifo_read_loop ptr p c f = (r, out, f')"
  shows "\<exists>t. f' = f\<lparr>tail := t\<rparr> \<and> (r = None \<longrightarrow> t = tail f + of_nat c \<and>
    (user_out_wf ptr \<longrightarrow> out = concat (ring_elems f b c)))"
  using assms
proof (induction c arbitrary: p f b out f' rule: less_induct)
  case (less c)
  show ?case
  proof (cases "c = 0")
    case True
    with less.prems show ?thesis
      by (auto simp: fifo_read_loop.simps ring_elems_def intro!: exI [of _ "tail f"])
  next
    case False
    then have c0: "0 < c" by simp
    obtain t where t: "0 < t" "t \<le> c" and step: "fifo_read_loop ptr p c f =
      (let res = ptr p (concat (ring_elems f b t))
       in if uc_status res \<noteq> ZX_OK then (Some res, uc_bytes res, f)
          else let (r, out, f') = fifo_read_loop ptr (p + t * unat (elem_size f)) (c - t)
                                    (f\<lparr>tail := tail f + of_nat t\<rparr>)
               in (r, uc_bytes res @ out, f'))"
      by (rule read_loop_step [OF less.prems(1) ring_run_start [OF less.prems(2) c0] c0, where ptr = ptr and p = p])
    let ?f1 = "f\<lparr>tail := tail f + of_nat t\<rparr>" and ?res = "ptr p (concat (ring_elems f b t))"
    show ?thesis
    proof (cases "uc_status ?res = ZX_OK")
      case False
      with step less.prems(3) show ?thesis by (auto simp: Let_def intro!: exI [of _ "tail f"])
    next
      case True
      obtain r1 out1 f1' where rest:
        "fifo_read_loop ptr (p + t * unat (elem_size f)) (c - t) ?f1 = (r1, out1, f1')"
        by (metis prod_cases3)
      with step True less.prems(3) have res: "r1 = r" "out = uc_bytes ?res @ out1" "f1' = f'"
        by (simp_all add: Let_def)
      have "ring_run (unat (elem_count ?f1)) (tail ?f1) (b + t) (c - t)"
        using ring_run_shift [OF less.prems(2) t(2)] by simp
      moreover have "c - t < c" "fifo_shape ?f1" using t less.prems(1) by (auto simp: fifo_shape_def)
      ultimately obtain t' where "f' = f\<lparr>tail := t'\<rparr>"
        "r = None \<longrightarrow> t' = tail f + of_nat t + of_nat (c - t) \<and>
          (user_out_wf ptr \<longrightarrow> out1 = concat (ring_elems f (b + t) (c - t)))"
        using less.IH [of "c - t" ?f1 "b + t" _ out1 f'] rest res(1,3) by auto
      with True show ?thesis
        unfolding res(2) ring_elems_split [OF t(2)] of_nat_split_u32 [OF t(2)]
        by (auto simp: user_out_wf_bytes)
    qed
  qed
qed

lemma ring_elems_length:
  "fifo_shape f \<Longrightarrow> length (concat (ring_elems f b c)) = c * unat (elem_size f)"
proof (induction c)
  case (Suc c)
  have "(b + c) mod unat (elem_count f) < unat (elem_count f)"
    using Suc.prems by (simp add: fifo_shape_def unat_gt_0)
  then have "length (slot_at (elem_size f) (data f) ((b + c) mod unat (elem_count f))) = unat (elem_size f)"
    unfolding slot_at_def using Suc.prems
    by (intro length_bytes_at slot_inside [of _ "unat (elem_count f)"]) (simp_all add: fifo_shape_def)
  with Suc show ?case by (simp add: ring_elems_def)
qed (simp add: ring_elems_def)

lemma read_loop_sink:
  assumes "fifo_shape f" and "ring_run (unat (elem_count f)) (tail f) b c"
    and "p + c * unat (elem_size f) \<le> m"
  shows "fst (fifo_read_loop (user_sink m) p c f) = None"
  using assms
proof (induction c arbitrary: p f b rule: less_induct)
  case (less c)
  show ?case
  proof (cases "c = 0")
    case True
    then show ?thesis by (simp add: fifo_read_loop.simps)
  next
    case False
    then have c0: "0 < c" by simp
    obtain t where t: "0 < t" "t \<le> c" and step: "fifo_read_loop (user_sink m) p c f =
      (let res = user_sink m p (concat (ring_elems f b t))
       in if uc_status res \<noteq> ZX_OK then (Some res, uc_bytes res, f)
          else let (r, out, f') = fifo_read_loop (user_sink m) (p + t * unat (elem_size f)) (c - t)
                                    (f\<lparr>tail := tail f + of_nat t\<rparr>)
               in (r, uc_bytes res @ out, f'))"
      by (rule read_loop_step [OF less.prems(1) ring_run_start [OF less.prems(2) c0] c0, where ptr = "user_sink m" and p = p])
    let ?f1 = "f\<lparr>tail := tail f + of_nat t\<rparr>" and ?es = "unat (elem_size f)"
    have sum: "t * ?es + (c - t) * ?es = c * ?es" using t(2) by (metis add_mult_distrib le_add_diff_inverse)
    then have ok: "uc_status (user_sink m p (concat (ring_elems f b t))) = ZX_OK"
      using less.prems(3) by (subst user_sink_ok) (simp_all add: ring_elems_length [OF less.prems(1)])
    have "ring_run (unat (elem_count ?f1)) (tail ?f1) (b + t) (c - t)"
      using ring_run_shift [OF less.prems(2) t(2)] by simp
    then have "fst (fifo_read_loop (user_sink m) (p + t * ?es) (c - t) ?f1) = None"
      using t less.prems sum by (intro less.IH [of _ ?f1 "b + t"]) (auto simp: fifo_shape_def)
    then show ?thesis unfolding step using ok by (simp add: Let_def split_beta)
  qed
qed

text \<open>
  Without any condition on the counters the loops stay inside the array and move their counter
  by the number of elements copied.
\<close>

lemma write_loop_shape:
  assumes "user_in_wf ptr" and "fifo_shape f" and "fifo_write_loop ptr p c f = (r, f')"
  shows "\<exists>h d. f' = f\<lparr>data := d, head := h\<rparr> \<and> length d = length (data f) \<and>
    (r = None \<longrightarrow> h = head f + of_nat c)"
  using assms(2-3)
proof (induction c arbitrary: p f rule: less_induct)
  case (less c)
  show ?case
  proof (cases "c = 0")
    case True
    with less.prems show ?thesis
      by (intro exI [of _ "head f"] exI [of _ "data f"]) (simp add: fifo_write_loop.simps)
  next
    case False
    then have c0: "0 < c" by simp
    obtain t d where t: "0 < t" "t \<le> c" and step: "fifo_write_loop ptr p c f =
        (if uc_status (ptr p (t * unat (elem_size f))) \<noteq> ZX_OK
         then (Some (ptr p (t * unat (elem_size f))), f\<lparr>data := d\<rparr>)
         else fifo_write_loop ptr (p + t * unat (elem_size f)) (c - t)
                (f\<lparr>data := d, head := head f + of_nat t\<rparr>))"
      and len: "length d = length (data f)"
      by (rule write_loop_step [OF assms(1) less.prems(1) refl c0]) blast
    let ?f2 = "f\<lparr>data := d, head := head f + of_nat t\<rparr>"
    have pre: "c - t < c" "fifo_shape ?f2" using t len less.prems(1) by (auto simp: fifo_shape_def)
    show ?thesis
    proof (cases "uc_status (ptr p (t * unat (elem_size f))) = ZX_OK")
      case True
      with step less.prems(2) have "fifo_write_loop ptr (p + t * unat (elem_size f)) (c - t) ?f2 = (r, f')"
        by simp
      from less.IH [OF pre this] obtain h d' where "f' = f\<lparr>data := d', head := h\<rparr>"
        "length d' = length (data f)" "r = None \<longrightarrow> h = head f + of_nat t + of_nat (c - t)"
        using len by auto
      then show ?thesis unfolding of_nat_split_u32 [OF t(2)] by blast
    next
      case False
      with step less.prems(2) have "r \<noteq> None" "f' = f\<lparr>data := d, head := head f\<rparr>" by auto
      with len show ?thesis by blast
    qed
  qed
qed

lemma read_loop_shape:
  assumes "fifo_shape f" and "fifo_read_loop ptr p c f = (r, out, f')"
  shows "\<exists>t. f' = f\<lparr>tail := t\<rparr> \<and> (r = None \<longrightarrow> t = tail f + of_nat c)"
  using assms
proof (induction c arbitrary: p f out rule: less_induct)
  case (less c)
  show ?case
  proof (cases "c = 0")
    case True
    with less.prems show ?thesis
      by (auto simp: fifo_read_loop.simps intro!: exI [of _ "tail f"])
  next
    case False
    then have c0: "0 < c" by simp
    obtain t b where t: "0 < t" "t \<le> c" and step: "fifo_read_loop ptr p c f =
      (let res = ptr p (concat (ring_elems f b t))
       in if uc_status res \<noteq> ZX_OK then (Some res, uc_bytes res, f)
          else let (r, out, f') = fifo_read_loop ptr (p + t * unat (elem_size f)) (c - t)
                                    (f\<lparr>tail := tail f + of_nat t\<rparr>)
               in (r, uc_bytes res @ out, f'))"
      by (rule read_loop_step [OF less.prems(1) refl c0, where ptr = ptr and p = p])
    obtain r1 out1 f1 where rest: "fifo_read_loop ptr (p + t * unat (elem_size f)) (c - t)
        (f\<lparr>tail := tail f + of_nat t\<rparr>) = (r1, out1, f1)" by (metis prod_cases3)
    have "c - t < c" "fifo_shape (f\<lparr>tail := tail f + of_nat t\<rparr>)"
      using t less.prems(1) by (auto simp: fifo_shape_def)
    from less.IH [OF this, of _ out1] rest step less.prems(2) show ?thesis
      by (auto simp: Let_def of_nat_split_u32 [OF t(2)] simp del: of_nat_diff split: if_splits
          intro!: exI [of _ "tail f"])
  qed
qed

section \<open>Operations on the abstract queue\<close>

lemma fifo_small:
  assumes "fifo_shape f"
  shows "0 < unat (elem_count f)" "0 < unat (elem_size f)" "unat (elem_count f) \<le> 4096"
proof -
  show "0 < unat (elem_count f)" and es: "0 < unat (elem_size f)"
    using assms by (auto simp: fifo_shape_def unat_gt_0)
  have "unat (elem_count f) * 1 \<le> unat (elem_count f) * unat (elem_size f)"
    using es by (intro mult_le_mono2) simp
  then show "unat (elem_count f) \<le> 4096"
    using assms unfolding fifo_shape_def kMaxSizeBytes_def by linarith
qed

lemma head_used: "head f = tail f + of_nat (fifo_used f)"
  by (simp add: fifo_used_def)

lemma fifo_avail:
  "fifo_wf f \<Longrightarrow> unat (elem_count f - (head f - tail f)) = unat (elem_count f) - fifo_used f"
  by (simp add: fifo_wf_def fifo_used_def unat_sub_u32 word_le_nat_alt)

lemma fifo_used_head [simp]:
  assumes "fifo_wf f" and "n \<le> unat (elem_count f) - fifo_used f"
  shows "unat (head f + of_nat n - tail f) = fifo_used f + n"
proof -
  have "fifo_used f + n < 2 ^ 32"
    using assms fifo_small(3) [of f] by (auto simp: fifo_wf_def)
  moreover have "head f + of_nat n - tail f = of_nat (fifo_used f + n)"
    by (simp add: fifo_used_def)
  ultimately show ?thesis by (simp only: unat_of_nat_u32)
qed

lemma fifo_used_tail:
  assumes "n \<le> fifo_used f"
  shows "unat (head f - (tail f + of_nat n)) = fifo_used f - n"
proof -
  have "head f - (tail f + of_nat n) = of_nat (fifo_used f - n)"
    using assms by (simp add: fifo_used_def of_nat_diff)
  moreover have "fifo_used f - n < 2 ^ 32" using unat_less_u32 [of "head f - tail f"] by (simp add: fifo_used_def)
  ultimately show ?thesis by (simp only: unat_of_nat_u32)
qed

lemma no_wrap_le: "no_wrap f k \<Longrightarrow> j \<le> k \<Longrightarrow> no_wrap f j"
  by (auto simp: no_wrap_def)

lemma contents_ring:
  "no_wrap f (fifo_used f) \<Longrightarrow> fifo_contents f = ring_elems f (unat (tail f)) (fifo_used f)"
  using no_wrap_run [of f 0 "fifo_used f"]
  by (simp add: fifo_contents_def ring_elems_def ring_run_def)

lemma ring_elems_kept:
  assumes "\<forall>j<unat (elem_count f). (\<forall>i<c. j \<noteq> (b + u + i) mod unat (elem_count f)) \<longrightarrow>
      slot_at (elem_size f) d j = slot_at (elem_size f) (data f) j"
    and "u + c \<le> unat (elem_count f)"
  shows "ring_elems (f\<lparr>data := d, head := h\<rparr>) b u = ring_elems f b u"
proof -
  have "slot_at (elem_size f) d ((b + k) mod unat (elem_count f)) =
      slot_at (elem_size f) (data f) ((b + k) mod unat (elem_count f))" if "k < u" for k
  proof (rule assms(1) [rule_format])
    show "(b + k) mod unat (elem_count f) < unat (elem_count f)" using that assms(2) by simp
    show "(b + k) mod unat (elem_count f) \<noteq> (b + u + i) mod unat (elem_count f)" if "i < c" for i
      using ring_slots_distinct [of k "unat (elem_count f)" "u + i" b] \<open>k < u\<close> that assms(2)
      by (simp add: add.assoc)
  qed
  then show ?thesis by (simp add: ring_elems_def)
qed

text \<open>A completed write appends the elements; an interrupted one, rolled back, changes nothing.\<close>

lemma write_contents:
  assumes wf: "fifo_wf f" and n: "n \<le> unat (elem_count f) - fifo_used f"
    and nw: "no_wrap f (fifo_used f + n)" and buf: "n * unat (elem_size f) \<le> length buf"
  shows "\<exists>d. fifo_write_loop (user_buf buf) 0 n f = (None, f\<lparr>data := d, head := head f + of_nat n\<rparr>) \<and>
    fifo_wf (f\<lparr>data := d, head := head f + of_nat n\<rparr>) \<and>
    fifo_contents (f\<lparr>data := d, head := head f + of_nat n\<rparr>) =
      fifo_contents f @ elements_of (unat (elem_size f)) buf n"
proof -
  let ?u = "fifo_used f" and ?b = "unat (tail f)"
  have shape: "fifo_shape f" and le: "?u + n \<le> unat (elem_count f)" using wf n by (auto simp: fifo_wf_def)
  have run: "ring_run (unat (elem_count f)) (head f) (?b + ?u) n"
    using no_wrap_run [OF nw] head_used [of f] by simp
  from write_loop_data [OF shape run, of 0 buf] le buf obtain d where
    d: "fifo_write_loop (user_buf buf) 0 n f = (None, f\<lparr>data := d, head := head f + of_nat n\<rparr>)"
    and fill: "\<forall>i<n. slot_at (elem_size f) d ((?b + ?u + i) mod unat (elem_count f)) =
            bytes_at buf (i * unat (elem_size f)) (unat (elem_size f))" by auto
  let ?f = "f\<lparr>data := d, head := head f + of_nat n\<rparr>"
  from write_loop_frame [OF user_buf_wf shape run d] have len: "length d = length (data f)"
    and keep: "\<forall>j<unat (elem_count f). (\<forall>i<n. j \<noteq> (?b + ?u + i) mod unat (elem_count f)) \<longrightarrow>
      slot_at (elem_size f) d j = slot_at (elem_size f) (data f) j"
    by (auto dest: arg_cong [where f = data])
  have used: "fifo_used ?f = ?u + n" using wf n by (simp add: fifo_used_def [of ?f])
  have "no_wrap ?f (fifo_used ?f)" using nw used by (simp add: no_wrap_def)
  then have "fifo_contents ?f = ring_elems ?f ?b ?u @ ring_elems ?f (?b + ?u) n"
    using ring_elems_split [of ?u "?u + n" ?f ?b] by (simp add: contents_ring used)
  also have "ring_elems ?f (?b + ?u) n = elements_of (unat (elem_size f)) buf n"
    using fill by (simp add: ring_elems_def elements_of_def)
  also have "ring_elems ?f ?b ?u = fifo_contents f"
    using ring_elems_kept [OF keep le] no_wrap_le [OF nw] by (simp add: contents_ring)
  finally show ?thesis using d shape len used le by (auto simp: fifo_wf_def fifo_shape_def)
qed

lemma write_rolled_back:
  assumes wf: "fifo_wf f" and n: "n \<le> unat (elem_count f) - fifo_used f" and ptr: "user_in_wf ptr"
    and nw: "no_wrap f (fifo_used f + n)" and loop: "fifo_write_loop ptr 0 n f = (r, f')"
  shows "fifo_wf (f'\<lparr>head := head f\<rparr>) \<and> fifo_contents (f'\<lparr>head := head f\<rparr>) = fifo_contents f \<and>
    fifo_used (f'\<lparr>head := head f\<rparr>) = fifo_used f \<and> elem_count f' = elem_count f \<and>
    elem_size f' = elem_size f \<and> tail f' = tail f"
proof -
  let ?u = "fifo_used f" and ?b = "unat (tail f)"
  have shape: "fifo_shape f" and le: "?u + n \<le> unat (elem_count f)" using wf n by (auto simp: fifo_wf_def)
  have run: "ring_run (unat (elem_count f)) (head f) (?b + ?u) n"
    using no_wrap_run [OF nw] head_used [of f] by simp
  from write_loop_frame [OF ptr shape run loop] obtain h d where f': "f' = f\<lparr>data := d, head := h\<rparr>"
    and len: "length d = length (data f)"
    and keep: "\<forall>j<unat (elem_count f). (\<forall>i<n. j \<noteq> (?b + ?u + i) mod unat (elem_count f)) \<longrightarrow>
      slot_at (elem_size f) d j = slot_at (elem_size f) (data f) j" by blast
  have undo: "f'\<lparr>head := head f\<rparr> = f\<lparr>data := d, head := head f\<rparr>" by (simp add: f')
  have used: "fifo_used (f'\<lparr>head := head f\<rparr>) = ?u" by (simp add: f' fifo_used_def)
  have "no_wrap (f'\<lparr>head := head f\<rparr>) ?u" using no_wrap_le [OF nw, of ?u] by (simp add: no_wrap_def f')
  then have "fifo_contents (f'\<lparr>head := head f\<rparr>) = ring_elems (f\<lparr>data := d, head := head f\<rparr>) ?b ?u"
    using contents_ring [of "f'\<lparr>head := head f\<rparr>"] used undo by (simp add: f')
  also have "\<dots> = fifo_contents f"
    using ring_elems_kept [OF keep le, of "head f"] contents_ring [OF no_wrap_le [OF nw le_add1]] by simp
  finally show ?thesis using used wf len by (simp add: f' fifo_wf_def fifo_shape_def)
qed

lemma read_contents:
  assumes wf: "fifo_wf f" and n: "n \<le> fifo_used f" and ptr: "user_out_wf ptr"
    and nw: "no_wrap f (fifo_used f)" and loop: "fifo_read_loop ptr 0 n f = (None, out, f')"
  shows "f' = f\<lparr>tail := tail f + of_nat n\<rparr> \<and> fifo_wf f' \<and> fifo_used f' = fifo_used f - n \<and>
    out = concat (take n (fifo_contents f)) \<and> fifo_contents f' = drop n (fifo_contents f)"
proof -
  let ?u = "fifo_used f" and ?b = "unat (tail f)"
  have run: "ring_run (unat (elem_count f)) (tail f) ?b n"
    using no_wrap_run [of f 0 n] no_wrap_le [OF nw n] by simp
  from read_loop_frame [OF _ run loop] wf ptr have f': "f' = f\<lparr>tail := tail f + of_nat n\<rparr>"
    and out: "out = concat (ring_elems f ?b n)" by (auto simp: fifo_wf_def)
  have used: "fifo_used f' = ?u - n" using fifo_used_tail [OF n] by (simp add: f' fifo_used_def [of "f\<lparr>tail := _\<rparr>"])
  have split: "fifo_contents f = ring_elems f ?b n @ ring_elems f (?b + n) (?u - n)"
    using ring_elems_split [OF n] by (simp add: contents_ring [OF nw])
  have "ring_run (unat (elem_count f)) (tail f + of_nat n) (?b + n) (?u - n)"
    using no_wrap_run [of f n "?u - n"] nw n by simp
  then have "fifo_contents f' = ring_elems f (?b + n) (?u - n)"
    unfolding fifo_contents_def used by (simp add: f' ring_elems_def ring_run_def)
  moreover have "fifo_wf f'" using wf used by (auto simp: f' fifo_wf_def fifo_shape_def)
  moreover have "length (ring_elems f ?b n) = n" by (simp add: ring_elems_def)
  ultimately show ?thesis using f' used split out by simp
qed

section \<open>The locked operations\<close>

interpretation fifo: peered_transport Fifo_on_zero_handles_locked Fifo_OnPeerZeroHandlesLocked
  by unfold_locales
    (simp_all add: Fifo_on_zero_handles_locked_def Fifo_OnPeerZeroHandlesLocked_def signal_simps)

lemma WriteSelfLocked_status:
  "fifo_wf (body r) \<Longrightarrow>
   esize \<noteq> unat (elem_size (body r)) \<or> count = 0 \<or> fifo_used (body r) = unat (elem_count (body r)) \<Longrightarrow>
   WriteSelfLocked esize ptr count (r, w) =
     (Status (if esize \<noteq> unat (elem_size (body r)) \<or> count = 0 then ZX_ERR_OUT_OF_RANGE
              else ZX_ERR_SHOULD_WAIT), r, w)"
  by (auto simp: WriteSelfLocked_def Let_def fifo_avail)

lemma WriteSelfLocked_copy:
  assumes "fifo_wf (body r)" and "0 < count" and "fifo_used (body r) < unat (elem_count (body r))"
    and "n = min count (unat (elem_count (body r)) - fifo_used (body r))"
  shows "WriteSelfLocked (unat (elem_size (body r))) ptr count (r, w) =
    (case fifo_write_loop ptr 0 n (body r) of
       (Some result, f') \<Rightarrow> (CopyFailed result, r\<lparr>body := f'\<lparr>head := head (body r)\<rparr>\<rparr>, w)
     | (None, f') \<Rightarrow>
         (Actual (unat (head f' - head (body r))),
          (if fifo_used (body r) = 0 then ep_update_state 0 ZX_OBJECT_READABLE (r\<lparr>body := f'\<rparr>)
           else r\<lparr>body := f'\<rparr>),
          (if elem_count f' = head f' - tail f' then ep_update_state ZX_OBJECT_WRITABLE 0 w else w)))"
proof -
  have n: "n = (if count > unat (elem_count (body r)) - fifo_used (body r)
     then unat (elem_count (body r)) - fifo_used (body r) else count)"
    using assms(4) by auto
  have e: "unat (elem_count (body r)) - fifo_used (body r) = unat (elem_count (body r)) \<longleftrightarrow> fifo_used (body r) = 0"
    using assms(3) by linarith
  show ?thesis
    unfolding WriteSelfLocked_def Let_def fifo_avail [OF assms(1)] split_conv n [symmetric] e
    using assms(2,3) by simp
qed

lemma ReadToUserLocked_status:
  "esize \<noteq> unat (elem_size (body r)) \<or> count = 0 \<or> fifo_used (body r) = 0 \<Longrightarrow>
   ReadToUserLocked esize ptr count (r, w) =
     (Status (if esize \<noteq> unat (elem_size (body r)) \<or> count = 0 then ZX_ERR_OUT_OF_RANGE
              else if peer_linked r then ZX_ERR_SHOULD_WAIT else ZX_ERR_PEER_CLOSED), [], r, w)"
  by (auto simp: ReadToUserLocked_def Let_def fifo_used_def)

lemma ReadToUserLocked_copy:
  assumes "0 < count" and "0 < fifo_used (body r)" and "n = min count (fifo_used (body r))"
  shows "ReadToUserLocked (unat (elem_size (body r))) ptr count (r, w) =
    (case fifo_read_loop ptr 0 n (body r) of
       (Some result, out, f') \<Rightarrow> (CopyFailed result, out, r\<lparr>body := f'\<lparr>tail := tail (body r)\<rparr>\<rparr>, w)
     | (None, out, f') \<Rightarrow>
         (Actual (unat (tail f' - tail (body r))), out,
          (if head f' - tail f' = 0 then ep_update_state ZX_OBJECT_READABLE 0 (r\<lparr>body := f'\<rparr>)
           else r\<lparr>body := f'\<rparr>),
          (if fifo_used (body r) = unat (elem_count (body r)) \<and> peer_linked r
           then ep_update_state 0 ZX_OBJECT_WRITABLE w else w)))"
proof -
  have n: "n = (if count > fifo_used (body r) then fifo_used (body r) else count)"
    using assms(3) by auto
  show ?thesis
    unfolding ReadToUserLocked_def Let_def fifo_used_def [symmetric] split_conv n [symmetric]
    using assms(1,2) by simp
qed

text \<open>The outcomes, whatever the user memory does: each says what happens to the occupancy.\<close>

definition fifo_moved :: "fifo \<Rightarrow> nat \<Rightarrow> fifo \<Rightarrow> bool" where
  "fifo_moved f u f' \<longleftrightarrow> fifo_wf f' \<and> fifo_used f' = u \<and>
     elem_count f' = elem_count f \<and> elem_size f' = elem_size f"

lemma write_locked_cases:
  assumes wf: "fifo_wf (body r)" and ptr: "user_in_wf ptr"
    and call: "WriteSelfLocked esize ptr count (r, w) = (res, r', w')"
  obtains (status) st where "res = Status st" "r' = r" "w' = w"
  | (failed) c f' where "res = CopyFailed c" "w' = w" "r' = r\<lparr>body := f'\<rparr>"
      "fifo_moved (body r) (fifo_used (body r)) f'"
  | (moved) n f' where "res = Actual n" "0 < n" "n \<le> count"
      "fifo_used (body r) + n \<le> unat (elem_count (body r))"
      "fifo_moved (body r) (fifo_used (body r) + n) f'"
      "w' = (if fifo_used (body r) + n = unat (elem_count (body r))
             then ep_update_state ZX_OBJECT_WRITABLE 0 w else w)"
      "r' = (if fifo_used (body r) = 0 then ep_update_state 0 ZX_OBJECT_READABLE (r\<lparr>body := f'\<rparr>)
             else r\<lparr>body := f'\<rparr>)"
proof (cases "esize \<noteq> unat (elem_size (body r)) \<or> count = 0 \<or> fifo_used (body r) = unat (elem_count (body r))")
  case True
  from call WriteSelfLocked_status [OF wf this] show thesis by (auto intro: status)
next
  case False
  define f n where "f = body r" and "n = min count (unat (elem_count f) - fifo_used f)"
  have wf': "fifo_wf f" and shape: "fifo_shape f" and le: "fifo_used f < unat (elem_count f)"
    using wf False by (auto simp: f_def fifo_wf_def)
  obtain lr f' where loop: "fifo_write_loop ptr 0 n f = (lr, f')" by fastforce
  from write_loop_shape [OF ptr shape loop] obtain h d where f': "f' = f\<lparr>data := d, head := h\<rparr>"
    and len: "length d = length (data f)" and h: "lr = None \<longrightarrow> h = head f + of_nat n" by blast
  have n: "0 < n" "n \<le> count" "n \<le> unat (elem_count f) - fifo_used f" "n < 2 ^ 32"
    using False le fifo_small(3) [OF shape] by (auto simp: n_def min_def)
  note used = fifo_used_head [OF wf' n(3)]
  have full: "elem_count f = head f + of_nat n - tail f \<longleftrightarrow> fifo_used f + n = unat (elem_count f)"
    using used by (metis unsigned_word_eqI)
  have shapes: "fifo_shape (f\<lparr>data := d, head := x\<rparr>)" for x using shape len by (simp add: fifo_shape_def)
  have call': "(res, r', w') = (case (lr, f') of
       (Some result, f') \<Rightarrow> (CopyFailed result, r\<lparr>body := f'\<lparr>head := head f\<rparr>\<rparr>, w)
     | (None, f') \<Rightarrow> (Actual (unat (head f' - head f)),
          (if fifo_used f = 0 then ep_update_state 0 ZX_OBJECT_READABLE (r\<lparr>body := f'\<rparr>) else r\<lparr>body := f'\<rparr>),
          (if elem_count f' = head f' - tail f' then ep_update_state ZX_OBJECT_WRITABLE 0 w else w)))"
    using call WriteSelfLocked_copy [OF wf, of count n ptr w] False le loop
    unfolding f_def n_def by simp
  show thesis
  proof (cases lr)
    case None
    with call' f' h full n(4) have "res = Actual n"
      "w' = (if fifo_used f + n = unat (elem_count f) then ep_update_state ZX_OBJECT_WRITABLE 0 w else w)"
      "r' = (if fifo_used f = 0 then ep_update_state 0 ZX_OBJECT_READABLE (r\<lparr>body := f'\<rparr>) else r\<lparr>body := f'\<rparr>)"
      by (simp_all add: unat_of_nat_u32)
    moreover have "fifo_moved f (fifo_used f + n) f'"
      using used f' h None shapes n(3) le by (simp add: fifo_moved_def fifo_wf_def fifo_used_def)
    ultimately show thesis using moved [of n f'] n le by (simp add: f_def)
  next
    case (Some c)
    have "fifo_moved f (fifo_used f) (f'\<lparr>head := head f\<rparr>)"
      using f' shapes [of "head f"] wf' by (simp add: fifo_moved_def fifo_wf_def fifo_used_def)
    then show thesis using failed [of c "f'\<lparr>head := head f\<rparr>"] call' Some by (simp add: f_def)
  qed
qed

lemma read_locked_cases:
  assumes wf: "fifo_wf (body r)"
    and call: "ReadToUserLocked esize ptr count (r, w) = (res, out, r', w')"
  obtains (status) st where "res = Status st" "r' = r" "w' = w"
  | (failed) c where "res = CopyFailed c" "w' = w" "r' = r"
  | (moved) n f' where "res = Actual n" "0 < n" "n \<le> count" "n \<le> fifo_used (body r)"
      "fifo_moved (body r) (fifo_used (body r) - n) f'"
      "w' = (if fifo_used (body r) = unat (elem_count (body r)) \<and> peer_linked r
             then ep_update_state 0 ZX_OBJECT_WRITABLE w else w)"
      "r' = (if fifo_used (body r) = n then ep_update_state ZX_OBJECT_READABLE 0 (r\<lparr>body := f'\<rparr>)
             else r\<lparr>body := f'\<rparr>)"
proof (cases "esize \<noteq> unat (elem_size (body r)) \<or> count = 0 \<or> fifo_used (body r) = 0")
  case True
  from call ReadToUserLocked_status [OF this] show thesis by (auto intro: status)
next
  case False
  define f n where "f = body r" and "n = min count (fifo_used f)"
  have shape: "fifo_shape f" and le: "fifo_used f \<le> unat (elem_count f)"
    using wf by (auto simp: f_def fifo_wf_def)
  obtain lr out' f' where loop: "fifo_read_loop ptr 0 n f = (lr, out', f')" by (metis prod_cases3)
  from read_loop_shape [OF shape loop] obtain t where f': "f' = f\<lparr>tail := t\<rparr>"
    and t: "lr = None \<longrightarrow> t = tail f + of_nat n" by blast
  have n: "0 < n" "n \<le> count" "n \<le> fifo_used f" "n < 2 ^ 32"
    using False le fifo_small(3) [OF shape] by (auto simp: n_def f_def min_def)
  note used = fifo_used_tail [OF n(3)]
  have drained: "head f - (tail f + of_nat n) = 0 \<longleftrightarrow> fifo_used f = n"
    unfolding unat_eq_zero [symmetric] used using n(3) by auto
  have call': "(res, out, r', w') = (case (lr, out', f') of
       (Some result, out, f') \<Rightarrow> (CopyFailed result, out, r\<lparr>body := f'\<lparr>tail := tail f\<rparr>\<rparr>, w)
     | (None, out, f') \<Rightarrow> (Actual (unat (tail f' - tail f)), out,
          (if head f' - tail f' = 0 then ep_update_state ZX_OBJECT_READABLE 0 (r\<lparr>body := f'\<rparr>) else r\<lparr>body := f'\<rparr>),
          (if fifo_used f = unat (elem_count f) \<and> peer_linked r
           then ep_update_state 0 ZX_OBJECT_WRITABLE w else w)))"
    using call ReadToUserLocked_copy [of count r n ptr w] False loop
    unfolding f_def n_def by simp
  show thesis
  proof (cases lr)
    case None
    with call' f' t drained n(4) have "res = Actual n"
      "w' = (if fifo_used f = unat (elem_count f) \<and> peer_linked r
             then ep_update_state 0 ZX_OBJECT_WRITABLE w else w)"
      "r' = (if fifo_used f = n then ep_update_state ZX_OBJECT_READABLE 0 (r\<lparr>body := f'\<rparr>) else r\<lparr>body := f'\<rparr>)"
      by (simp_all add: unat_of_nat_u32)
    moreover have "fifo_moved f (fifo_used f - n) f'"
      using used f' t None shape le by (simp add: fifo_moved_def fifo_wf_def fifo_used_def fifo_shape_def)
    ultimately show thesis using moved [of n f'] n by (simp add: f_def)
  next
    case (Some c)
    have "r\<lparr>body := f'\<lparr>tail := tail f\<rparr>\<rparr> = r" by (simp add: f' f_def)
    then show thesis using failed [of c] call' Some by simp
  qed
qed

section \<open>Signals follow the occupancy\<close>

text \<open>
  One step of a pair of endpoints: a locked write or read with any user memory, a signal
  requested by user code, or the last handle of an endpoint going away; by either side.
\<close>

inductive fifo_step :: "fifo_pair \<Rightarrow> fifo_pair \<Rightarrow> bool" where
  step_write: "peer_linked w \<Longrightarrow> user_in_wf ptr \<Longrightarrow>
     WriteSelfLocked esize ptr count (r, w) = (res, r', w') \<Longrightarrow> fifo_step (w, r) (w', r')"
| step_read: "ReadToUserLocked esize out_ptr count (r, w) = (res, out, r', w') \<Longrightarrow> fifo_step (r, w) (r', w')"
| step_signal_self: "user_signal_self 0 c s a = (st, a') \<Longrightarrow> fifo_step (a, b) (a', b)"
| step_signal_peer: "user_signal_peer 0 c s (a, b) = (st, p) \<Longrightarrow> fifo_step (a, b) p"
| step_close: "fifo_step p (on_zero_handles Fifo_on_zero_handles_locked Fifo_OnPeerZeroHandlesLocked p)"
| step_other_side: "fifo_step (b, a) (b', a') \<Longrightarrow> fifo_step (a, b) (a', b')"

definition fifo_side :: "fifo endpoint \<Rightarrow> fifo endpoint \<Rightarrow> bool" where
  "fifo_side self peer \<longleftrightarrow> fifo_wf (body self) \<and>
     (bit (signals (disp self)) 0 \<longleftrightarrow> 0 < fifo_used (body self)) \<and>
     (peer_linked self \<longrightarrow> \<not> bit (signals (disp self)) 2 \<and>
       (bit (signals (disp self)) 1 \<longleftrightarrow> fifo_used (body peer) < unat (elem_count (body peer))))"

definition shows_closed :: "fifo endpoint \<Rightarrow> bool" where
  "shows_closed e \<longleftrightarrow> bit (signals (disp e)) 2 \<and> \<not> bit (signals (disp e)) 1"

definition fifo_inv :: "fifo_pair \<Rightarrow> bool" where
  "fifo_inv = (\<lambda>(a, b). peer_linked a = peer_linked b \<and> fifo_side a b \<and> fifo_side b a \<and>
     (\<not> peer_linked a \<longrightarrow> shows_closed a \<or> shows_closed b))"

lemmas fifo_inv_defs = fifo_inv_def fifo_side_def shows_closed_def

lemma fifo_inv_swap: "fifo_inv (a, b) \<Longrightarrow> fifo_inv (b, a)"
  by (auto simp: fifo_inv_def)

lemma fifo_inv_write:
  assumes inv: "fifo_inv (w, r)" and "peer_linked w" and ptr: "user_in_wf ptr"
    and call: "WriteSelfLocked esize ptr count (r, w) = (res, r', w')"
  shows "fifo_inv (w', r')"
proof -
  have wf: "fifo_wf (body r)" using inv by (simp add: fifo_inv_defs)
  from wf ptr call show ?thesis
  proof (cases rule: write_locked_cases)
    case (status st)
    with inv show ?thesis by simp
  next
    case (failed c f')
    with inv show ?thesis by (auto simp: fifo_inv_defs fifo_moved_def)
  next
    case (moved n f')
    have r': "bit (signals (disp r')) k \<longleftrightarrow> bit (signals (disp r)) k \<or> fifo_used (body r) = 0 \<and> k = 0"
      "body r' = f'" "peer_linked r' = peer_linked r" for k
      using moved(7) by (auto simp: signal_simps)
    have w': "bit (signals (disp w')) k \<longleftrightarrow>
        bit (signals (disp w)) k \<and> \<not> (fifo_used (body r) + n = unat (elem_count (body r)) \<and> k = 1)"
      "body w' = body w" "peer_linked w' = peer_linked w" for k
      using moved(6) by (auto simp: signal_simps)
    show ?thesis
      using inv \<open>peer_linked w\<close> moved(2,4,5) unfolding fifo_inv_defs fifo_moved_def
      by (simp add: r' w') linarith
  qed
qed

lemma fifo_inv_read:
  assumes inv: "fifo_inv (r, w)"
    and call: "ReadToUserLocked esize ptr count (r, w) = (res, out, r', w')"
  shows "fifo_inv (r', w')"
proof -
  have wf: "fifo_wf (body r)" using inv by (simp add: fifo_inv_defs)
  from wf call show ?thesis
  proof (cases rule: read_locked_cases)
    case (moved n f')
    have r': "bit (signals (disp r')) k \<longleftrightarrow> bit (signals (disp r)) k \<and> \<not> (fifo_used (body r) = n \<and> k = 0)"
      "body r' = f'" "peer_linked r' = peer_linked r" for k
      using moved(7) by (auto simp: signal_simps)
    have w': "bit (signals (disp w')) k \<longleftrightarrow> bit (signals (disp w)) k \<or>
        fifo_used (body r) = unat (elem_count (body r)) \<and> peer_linked r \<and> k = 1"
      "body w' = body w" "peer_linked w' = peer_linked w" for k
      using moved(6) by (auto simp: signal_simps)
    have "fifo_used (body r) \<le> unat (elem_count (body r))" using wf by (simp add: fifo_wf_def)
    then show ?thesis
      using inv moved(2,4,5) unfolding fifo_inv_defs fifo_moved_def by (simp add: r' w') auto
  qed (use inv in simp_all)
qed

lemma fifo_inv_signal:
  assumes "fifo_inv (a, b)" and "c AND NOT ZX_USER_SIGNAL_ALL = 0" and "s AND NOT ZX_USER_SIGNAL_ALL = 0"
  shows "fifo_inv (ep_update_state c s a, b)"
  using assms user_mask_low_bits [of c 0] user_mask_low_bits [of s 0]
  by (simp add: fifo_inv_defs signal_simps)

lemma fifo_inv_close:
  "fifo_inv p \<Longrightarrow> fifo_inv (on_zero_handles Fifo_on_zero_handles_locked Fifo_OnPeerZeroHandlesLocked p)"
  by (cases p)
    (auto simp: fifo_inv_defs on_zero_handles_def Let_def Fifo_on_zero_handles_locked_def
      Fifo_OnPeerZeroHandlesLocked_def signal_simps)

lemma fifo_step_inv: "fifo_step p p' \<Longrightarrow> fifo_inv p \<Longrightarrow> fifo_inv p'"
proof (induction rule: fifo_step.induct)
  case (step_signal_self c s a st a' b)
  then show ?case
    by (auto simp: user_signal_self_def Let_def fifo_inv_signal split: if_splits)
next
  case (step_signal_peer c s a b st p)
  then show ?case
    by (auto simp: user_signal_peer_def Let_def dest!: fifo_inv_swap [of a b] intro: fifo_inv_swap
        fifo_inv_signal split: if_splits)
qed (auto intro: fifo_inv_write fifo_inv_read fifo_inv_close fifo_inv_swap)

section \<open>Properties\<close>

text \<open>A write of \<open>xs\<close> and a read of at most \<open>k\<close> elements, as a client of the pair sees them.\<close>

definition fifo_push :: "fifo_pair \<Rightarrow> byte list list \<Rightarrow> nat \<times> fifo_pair" where
  "fifo_push p xs =
     (case WriteSelfLocked (unat (elem_size (body (fst p)))) (user_buf (concat xs)) (length xs) p of
        (Actual n, p') \<Rightarrow> (n, p') | (_, p') \<Rightarrow> (0, p'))"

definition fifo_pop :: "fifo_pair \<Rightarrow> nat \<Rightarrow> byte list list \<times> fifo_pair" where
  "fifo_pop p k =
     (case ReadToUserLocked (unat (elem_size (body (fst p))))
             (user_sink (k * unat (elem_size (body (fst p))))) k p of
        (Actual n, out, p') \<Rightarrow> (elements_of (unat (elem_size (body (fst p)))) out n, p')
      | (_, out, p') \<Rightarrow> ([], p'))"

definition fifo_queue_inv :: "fifo_pair \<Rightarrow> bool" where
  "fifo_queue_inv p \<longleftrightarrow> fifo_wf (body (fst p)) \<and> unat (elem_count (body (fst p))) dvd 2 ^ 32"

lemma elements_of_Suc:
  "elements_of es (x @ buf) (Suc n) = bytes_at (x @ buf) 0 es # elements_of es (drop es (x @ buf)) n"
  by (simp add: elements_of_def bytes_at_def upt_conv_Cons map_Suc_upt [symmetric] add.commute
      del: upt_Suc drop_append)

lemma elements_of_concat:
  "\<forall>x\<in>set xs. length x = es \<Longrightarrow> n \<le> length xs \<Longrightarrow> elements_of es (concat xs) n = take n xs"
proof (induction xs arbitrary: n)
  case (Cons x xs)
  then show ?case
    by (cases n) (simp_all add: elements_of_Suc, simp_all add: elements_of_def bytes_at_def)
qed (simp add: elements_of_def)

lemma contents_elem_size:
  assumes "fifo_wf f" shows "\<forall>x\<in>set (fifo_contents f). length x = unat (elem_size f)"
proof -
  have "length (slot_at (elem_size f) (data f) (k mod unat (elem_count f))) = unat (elem_size f)" for k
    using assms unfolding slot_at_def fifo_wf_def fifo_shape_def
    by (intro length_bytes_at slot_inside [of _ "unat (elem_count f)"]) (auto simp: unat_gt_0)
  then show ?thesis by (auto simp: fifo_contents_def)
qed

lemma length_contents [simp]: "length (fifo_contents f) = fifo_used f"
  by (simp add: fifo_contents_def)

text \<open>What the two operations do to the queue, when the counters do not lose the ring position.\<close>

lemma write_locked_contents:
  assumes wf: "fifo_wf (body r)" and "0 < count" and room: "fifo_used (body r) < unat (elem_count (body r))"
    and n: "n = min count (unat (elem_count (body r)) - fifo_used (body r))"
    and nw: "no_wrap (body r) (fifo_used (body r) + n)"
    and buf: "count * unat (elem_size (body r)) \<le> length buf"
  obtains r' w' where
    "WriteSelfLocked (unat (elem_size (body r))) (user_buf buf) count (r, w) = (Actual n, r', w')"
    "fifo_wf (body r')" "elem_count (body r') = elem_count (body r)" "elem_size (body r') = elem_size (body r)"
    "tail (body r') = tail (body r)"
    "fifo_contents (body r') = fifo_contents (body r) @ elements_of (unat (elem_size (body r))) buf n"
proof -
  have "n * unat (elem_size (body r)) \<le> length buf"
    using buf n by (meson le_trans min.cobounded1 mult_le_mono1)
  from write_contents [OF wf _ nw this] n obtain d where
    d: "fifo_write_loop (user_buf buf) 0 n (body r) = (None, (body r)\<lparr>data := d, head := head (body r) + of_nat n\<rparr>)"
    and res: "fifo_wf ((body r)\<lparr>data := d, head := head (body r) + of_nat n\<rparr>)"
      "fifo_contents ((body r)\<lparr>data := d, head := head (body r) + of_nat n\<rparr>) =
        fifo_contents (body r) @ elements_of (unat (elem_size (body r))) buf n" by auto
  have "n \<le> unat (elem_count (body r))" using n by simp
  then have small: "n < 2 ^ 32"
    using unat_less_u32 [of "elem_count (body r)"] by simp
  obtain re r' w' where
    call: "WriteSelfLocked (unat (elem_size (body r))) (user_buf buf) count (r, w) = (re, r', w')"
    by (metis prod_cases3)
  then have "re = Actual n" "body r' = (body r)\<lparr>data := d, head := head (body r) + of_nat n\<rparr>"
    using small unfolding WriteSelfLocked_copy [OF wf assms(2) room n] d
    by (auto simp: unat_of_nat_u32 split: if_splits)
  with call res show thesis by (intro that [of r' w']) simp_all
qed

lemma read_locked_contents:
  assumes wf: "fifo_wf (body r)" and "0 < count" and some: "0 < fifo_used (body r)"
    and n: "n = min count (fifo_used (body r))" and nw: "no_wrap (body r) (fifo_used (body r))"
    and buf: "count * unat (elem_size (body r)) \<le> m"
  obtains r' w' where
    "ReadToUserLocked (unat (elem_size (body r))) (user_sink m) count (r, w) =
      (Actual n, concat (take n (fifo_contents (body r))), r', w')"
    "fifo_wf (body r')" "elem_count (body r') = elem_count (body r)" "elem_size (body r') = elem_size (body r)"
    "tail (body r') = tail (body r) + of_nat n"
    "fifo_contents (body r') = drop n (fifo_contents (body r))"
proof -
  obtain lr out f' where loop: "fifo_read_loop (user_sink m) 0 n (body r) = (lr, out, f')" by (metis prod_cases3)
  have "n * unat (elem_size (body r)) \<le> m" using buf n by (meson le_trans min.cobounded1 mult_le_mono1)
  then have lr: "lr = None"
    using read_loop_sink [of "body r" _ n 0 m] no_wrap_run [of "body r" 0 n] no_wrap_le [OF nw, of n] n wf loop
    by (auto simp: fifo_wf_def)
  from read_contents [OF wf _ user_sink_wf nw loop [unfolded lr]] n
  have f': "f' = (body r)\<lparr>tail := tail (body r) + of_nat n\<rparr>" "fifo_wf f'"
      "out = concat (take n (fifo_contents (body r)))"
      "fifo_contents f' = drop n (fifo_contents (body r))" by auto
  have "n < 2 ^ 32" using n unat_less_u32 [of "head (body r) - tail (body r)"] by (simp add: fifo_used_def)
  obtain re ou r' w' where
    call: "ReadToUserLocked (unat (elem_size (body r))) (user_sink m) count (r, w) = (re, ou, r', w')"
    by (metis prod_cases4)
  then have "re = Actual n" "ou = out" "body r' = f'"
    using \<open>n < 2 ^ 32\<close> f'(1) loop lr unfolding ReadToUserLocked_copy [OF assms(2) some n]
    by (auto simp: unat_of_nat_u32 split: if_splits)
  with call f' show thesis by (intro that [of r' w']) simp_all
qed

lemma fifo_push_cases:
  assumes "fifo_wf (body r)" and "\<forall>x\<in>set xs. length x = unat (elem_size (body r))"
    and "no_wrap (body r) (fifo_used (body r) + length xs)" and "fifo_push (r, w) xs = (n, r', w')"
  shows "n = min (length xs) (unat (elem_count (body r)) - fifo_used (body r)) \<and> fifo_wf (body r') \<and>
    elem_count (body r') = elem_count (body r) \<and> elem_size (body r') = elem_size (body r) \<and>
    tail (body r') = tail (body r) \<and> fifo_contents (body r') = fifo_contents (body r) @ take n xs"
proof (cases "length xs = 0 \<or> fifo_used (body r) = unat (elem_count (body r))")
  case True
  then have "WriteSelfLocked (unat (elem_size (body r))) ptr (length xs) (r, w) =
      (Status (if length xs = 0 then ZX_ERR_OUT_OF_RANGE else ZX_ERR_SHOULD_WAIT), r, w)" for ptr
    using WriteSelfLocked_status [OF assms(1)] by auto
  with True assms(1,4) show ?thesis by (auto simp: fifo_push_def)
next
  case False
  let ?n = "min (length xs) (unat (elem_count (body r)) - fifo_used (body r))"
  have room: "fifo_used (body r) < unat (elem_count (body r))" using False assms(1) by (simp add: fifo_wf_def)
  have len: "length (concat xs) = length xs * unat (elem_size (body r))"
    using assms(2) by (induction xs) auto
  have nw: "no_wrap (body r) (fifo_used (body r) + ?n)" by (rule no_wrap_le [OF assms(3)]) simp
  obtain r1 w1 where
    "WriteSelfLocked (unat (elem_size (body r))) (user_buf (concat xs)) (length xs) (r, w) = (Actual ?n, r1, w1)"
    "fifo_wf (body r1)" "elem_count (body r1) = elem_count (body r)" "elem_size (body r1) = elem_size (body r)"
    "tail (body r1) = tail (body r)"
    "fifo_contents (body r1) = fifo_contents (body r) @ elements_of (unat (elem_size (body r))) (concat xs) ?n"
    by (rule write_locked_contents [OF assms(1) _ room refl nw]) (use False len in auto)
  with assms(2,4) show ?thesis by (auto simp: fifo_push_def elements_of_concat)
qed

lemma fifo_pop_cases:
  assumes "fifo_wf (body r)" and "no_wrap (body r) (fifo_used (body r))" and "fifo_pop (r, w) k = (ys, r', w')"
  shows "ys = take k (fifo_contents (body r)) \<and> fifo_wf (body r') \<and>
    elem_count (body r') = elem_count (body r) \<and> elem_size (body r') = elem_size (body r) \<and>
    tail (body r') = tail (body r) + of_nat (min k (fifo_used (body r))) \<and>
    fifo_contents (body r') = drop k (fifo_contents (body r))"
proof (cases "k = 0 \<or> fifo_used (body r) = 0")
  case True
  moreover from True have "fifo_contents (body r) = [] \<or> k = 0" by (auto simp: fifo_contents_def)
  ultimately show ?thesis using assms(1,3) ReadToUserLocked_status [of _ r k _ w]
    by (auto simp: fifo_pop_def)
next
  case False
  let ?n = "min k (fifo_used (body r))" and ?es = "unat (elem_size (body r))"
  obtain r1 w1 where call: "ReadToUserLocked ?es (user_sink (k * ?es)) k (r, w) =
      (Actual ?n, concat (take ?n (fifo_contents (body r))), r1, w1)"
    and rest: "fifo_wf (body r1)" "elem_count (body r1) = elem_count (body r)"
    "elem_size (body r1) = elem_size (body r)" "tail (body r1) = tail (body r) + of_nat ?n"
    "fifo_contents (body r1) = drop ?n (fifo_contents (body r))"
    by (rule read_locked_contents [OF assms(1) _ _ refl assms(2) le_refl]) (use False in auto)
  have "elements_of ?es (concat (take ?n (fifo_contents (body r)))) ?n = take ?n (fifo_contents (body r))"
    using contents_elem_size [OF assms(1)] elements_of_concat [of "take ?n (fifo_contents (body r))" ?es ?n]
    by (auto dest: in_set_takeD)
  moreover have "take ?n (fifo_contents (body r)) = take k (fifo_contents (body r))"
    "drop ?n (fifo_contents (body r)) = drop k (fifo_contents (body r))"
    by (simp_all add: min_def)
  ultimately show ?thesis using call rest assms(3) by (auto simp: fifo_pop_def)
qed

interpretation fifo_q: fifo_queue fifo_queue_inv "\<lambda>p. fifo_contents (body (fst p))"
  "\<lambda>es xs. \<forall>x\<in>set xs. length x = es" "\<lambda>p. unat (elem_size (body (fst p)))" fifo_push fifo_pop
proof
  fix p :: fifo_pair and xs n and p' :: fifo_pair
  assume "fifo_queue_inv p" "\<forall>x\<in>set xs. length x = unat (elem_size (body (fst p)))"
    "fifo_push p xs = (n, p')"
  then show "fifo_queue_inv p' \<and> unat (elem_size (body (fst p'))) = unat (elem_size (body (fst p))) \<and>
      n \<le> length xs \<and> fifo_contents (body (fst p')) = fifo_contents (body (fst p)) @ take n xs"
    using fifo_push_cases [of "fst p" xs "snd p" n "fst p'" "snd p'"]
    by (simp add: fifo_queue_inv_def no_wrap_def)
next
  fix p :: fifo_pair and k ys and p' :: fifo_pair
  assume "fifo_queue_inv p" "fifo_pop p k = (ys, p')"
  then show "fifo_queue_inv p' \<and> unat (elem_size (body (fst p'))) = unat (elem_size (body (fst p))) \<and>
      length ys \<le> k \<and> fifo_contents (body (fst p)) = ys @ fifo_contents (body (fst p'))"
    using fifo_pop_cases [of "fst p" "snd p" k ys "fst p'" "snd p'"]
    by (simp add: fifo_queue_inv_def no_wrap_def)
qed

lemma fifo_created:
  assumes "FifoDispatcher_Create alloc mem0 mem1 k0 k1 count elemsize = Inr (a, b)"
  shows "fifo_inv (a, b)" and "fifo_contents (body a) = []" and "fifo_contents (body b) = []"
    and "unat (elem_count (body a)) = count" and "unat (elem_size (body a)) = elemsize"
    and "unat (elem_count (body b)) = count" and "unat (elem_size (body b)) = elemsize"
    and "tail (body a) = 0" and "peer_linked a" and "peer_linked b"
proof -
  have ok: "count \<noteq> 0" "elemsize \<noteq> 0" "count \<le> 4096" "elemsize \<le> 4096" "count * elemsize \<le> 4096"
    and ab: "a = InitPeer k1 (FifoDispatcher_new k0 count elemsize (map mem0 [0..<count * elemsize]))"
      "b = InitPeer k0 (FifoDispatcher_new k1 count elemsize (map mem1 [0..<count * elemsize]))"
    using assms by (auto simp: FifoDispatcher_Create_def kMaxSizeBytes_def split: if_splits)
  have words: "unat (of_nat count :: u32) = count" "unat (of_nat elemsize :: u32) = elemsize"
    "(of_nat count :: u32) \<noteq> 0" "(of_nat elemsize :: u32) \<noteq> 0"
    using ok by (auto simp: unat_of_nat_u32 simp flip: unat_eq_zero)
  note defs = ab InitPeer_def FifoDispatcher_new_def PeeredDispatcher_new_def Dispatcher_new_def
  have used: "fifo_used (body a) = 0" "fifo_used (body b) = 0" by (simp_all add: defs fifo_used_def)
  have wf: "fifo_wf (body a)" "fifo_wf (body b)"
    using used ok words by (simp_all add: defs fifo_wf_def fifo_shape_def kMaxSizeBytes_def)
  show "unat (elem_count (body a)) = count" "unat (elem_size (body a)) = elemsize"
    "unat (elem_count (body b)) = count" "unat (elem_size (body b)) = elemsize"
    "tail (body a) = 0" "peer_linked a" "peer_linked b"
    by (simp_all add: defs words)
  then show "fifo_inv (a, b)"
    using wf used ok(1) by (simp add: fifo_inv_defs) (simp add: defs signal_simps)
  show "fifo_contents (body a) = []" "fifo_contents (body b) = []"
    using used by (simp_all add: fifo_contents_def)
qed

text \<open>
  C16. A fifo whose element count divides \<open>2 ^ 32\<close> (a power of two) is a first-in-first-out queue
  for its whole life: after any sequence of writes of whole elements and reads on a fresh pair,
  however the ring wraps and the counters overflow, the elements accepted are those read so far
  followed by those still queued. Nothing is lost, repeated or reordered.
\<close>

theorem fifo_in_order:
  assumes "FifoDispatcher_Create alloc mem0 mem1 k0 k1 count elemsize = Inr p" and "count dvd 2 ^ 32"
    and "\<And>xs x. Inl xs \<in> set ops \<Longrightarrow> x \<in> set xs \<Longrightarrow> length x = elemsize"
    and "queue_run fifo_push fifo_pop p ops = (accepted, outp, p')"
  shows "accepted = outp @ fifo_contents (body (fst p'))"
proof (rule fifo_q.run_in_order [OF _ _ _ assms(4)])
  obtain a b where p: "p = (a, b)" by fastforce
  note c = fifo_created [OF assms(1) [unfolded p]]
  show "fifo_queue_inv p" using c(1,4) assms(2) by (simp add: p fifo_queue_inv_def fifo_inv_defs)
  show "fifo_contents (body (fst p)) = []" using c(2) by (simp add: p)
  show "\<forall>x\<in>set xs. length x = unat (elem_size (body (fst p)))" if "Inl xs \<in> set ops" for xs
    using assms(3) [OF that] c(5) by (simp add: p)
qed

theorem fifo_in_order_witness:
  "\<exists>p accepted outp p'. FifoDispatcher_Create (\<lambda>_. True) (\<lambda>_. 0) (\<lambda>_. 0) 1 2 4 2 = Inr p \<and>
     queue_run fifo_push fifo_pop p [Inl [[1, 2], [3, 4]], Inr 1, Inl [[5, 6]]] = (accepted, outp, p') \<and>
     accepted = outp @ fifo_contents (body (fst p'))"
proof -
  obtain p where p: "FifoDispatcher_Create (\<lambda>_. True) (\<lambda>_. 0) (\<lambda>_. 0) 1 2 4 2 = Inr p"
    by (simp add: FifoDispatcher_Create_def kMaxSizeBytes_def)
  obtain accepted outp p' where
    run: "queue_run fifo_push fifo_pop p [Inl [[1, 2], [3, 4]], Inr 1, Inl [[5, 6]]] = (accepted, outp, p')"
    by (metis prod_cases3)
  have "accepted = outp @ fifo_contents (body (fst p'))"
    by (rule fifo_in_order [OF p _ _ run]) auto
  with p run show ?thesis by blast
qed

text \<open>
  C20. The signals of a fifo tell the truth in every state that creation and any interleaving of
  writes, reads, user signals and closes of the two sides can reach, whatever the user memory
  does: each side's counters and array stay in bounds, \<open>ZX_FIFO_READABLE\<close> is asserted exactly when
  the side has elements, and while both sides are open \<open>ZX_FIFO_WRITABLE\<close> is asserted exactly when
  the other side has a free slot and \<open>ZX_FIFO_PEER_CLOSED\<close> is not. Once a side is closed the
  survivor shows \<open>ZX_FIFO_PEER_CLOSED\<close> and has lost \<open>ZX_FIFO_WRITABLE\<close>.
\<close>

theorem fifo_signals_truthful:
  assumes "FifoDispatcher_Create alloc mem0 mem1 k0 k1 count elemsize = Inr p"
    and "fifo_step\<^sup>*\<^sup>* p p'"
  shows "fifo_inv p'"
  using assms(2)
proof (induction rule: rtranclp_induct)
  case base
  obtain a b where p: "p = (a, b)" by fastforce
  show ?case using fifo_created(1) [OF assms(1) [unfolded p]] by (simp add: p)
next
  case (step y z)
  then show ?case by (blast intro: fifo_step_inv)
qed

theorem fifo_signals_truthful_witness:
  "\<exists>p p'. FifoDispatcher_Create (\<lambda>_. True) (\<lambda>_. 0) (\<lambda>_. 0) 1 2 1 1 = Inr p \<and>
     fifo_step\<^sup>*\<^sup>* p p' \<and> fifo_inv p' \<and> signals (disp (fst p')) AND ZX_OBJECT_WRITABLE = 0"
proof -
  obtain a b where ab: "FifoDispatcher_Create (\<lambda>_. True) (\<lambda>_. 0) (\<lambda>_. 0) 1 2 1 1 = Inr (a, b)"
    by (simp add: FifoDispatcher_Create_def kMaxSizeBytes_def)
  note c = fifo_created [OF ab]
  have wf: "fifo_wf (body b)" using c(1) by (simp add: fifo_inv_defs)
  have u: "fifo_used (body b) = 0" using c(3) length_contents [of "body b"] by simp
  obtain re b' a' where call: "WriteSelfLocked 1 (user_buf [7]) 1 (b, a) = (re, b', a')"
    by (metis prod_cases3)
  have "no_wrap (body b) 1" using c(6) by (simp add: no_wrap_def)
  then have "re = Actual 1"
    using write_locked_contents [OF wf, of 1 1 "[7]" a "re = Actual 1"] u c(6,7) call by simp
  from wf user_buf_wf call have "a' = ep_update_state ZX_OBJECT_WRITABLE 0 a"
    by (cases rule: write_locked_cases) (use \<open>re = Actual 1\<close> u c(6) in auto)
  then have low: "signals (disp a') AND ZX_OBJECT_WRITABLE = 0"
    unfolding ZX_OBJECT_WRITABLE_def and_exp_zero by (simp add: signal_simps)
  have "fifo_step\<^sup>*\<^sup>* (a, b) (a', b')"
    using step_write [OF c(9) user_buf_wf call] by blast
  with fifo_signals_truthful [OF ab this] ab low show ?thesis by auto
qed

text \<open>
  User memory that holds \<open>buf\<close> but is not fully mapped yet: a copy that succeeds gives the bytes of
  \<open>buf\<close>, and one that does not stops at a page fault.
\<close>

definition faulting_view :: "byte list \<Rightarrow> user_in \<Rightarrow> bool" where
  "faulting_view buf ptr \<longleftrightarrow> (\<forall>p n. length (uc_bytes (ptr p n)) \<le> n \<and>
     (if uc_status (ptr p n) = ZX_OK then ptr p n = user_buf buf p n else uc_fault (ptr p n)))"

lemma faulting_view_wf: "faulting_view buf ptr \<Longrightarrow> user_in_wf ptr"
  unfolding faulting_view_def user_in_wf_def using user_buf_wf [of buf, unfolded user_in_wf_def] by metis

definition copy_run :: "fifo \<Rightarrow> nat \<Rightarrow> nat" where
  "copy_run f c = min c (unat (elem_count f) - unat (head f mod elem_count f))"

definition copied :: "fifo \<Rightarrow> user_copy \<Rightarrow> fifo" where
  "copied f res = f\<lparr>data := overwrite (data f)
     (unat (head f mod elem_count f) * unat (elem_size f)) (uc_bytes res)\<rparr>"

lemma write_loop_eq:
  assumes "c \<noteq> 0" and "elem_count f \<noteq> 0"
  shows "fifo_write_loop ptr p c f =
    (let res = ptr p (copy_run f c * unat (elem_size f))
     in if uc_status res \<noteq> ZX_OK then (Some res, copied f res)
        else fifo_write_loop ptr (p + copy_run f c * unat (elem_size f)) (c - copy_run f c)
               ((copied f res)\<lparr>head := head f + of_nat (copy_run f c)\<rparr>))"
proof -
  have "copy_run f c = (if c > unat (elem_count f) - unat (head f mod elem_count f)
      then unat (elem_count f) - unat (head f mod elem_count f) else c)" by (simp add: copy_run_def)
  then show ?thesis using assms
    by (subst fifo_write_loop.simps) (simp add: Let_def copied_def)
qed

lemma faulting_view_loop:
  assumes "faulting_view buf ptr" and "fifo_write_loop ptr p c f = (r, f')"
  shows "case r of Some x \<Rightarrow> uc_fault x | None \<Rightarrow> fifo_write_loop (user_buf buf) p c f = (None, f')"
  using assms(2)
proof (induction c arbitrary: p f rule: less_induct)
  case (less c)
  show ?case
  proof (cases "c = 0 \<or> elem_count f = 0")
    case True
    with less.prems show ?thesis by (auto simp: fifo_write_loop.simps)
  next
    case False
    let ?len = "copy_run f c * unat (elem_size f)"
    have less_c: "c - copy_run f c < c"
      using False slot_offset_less [of "elem_count f" "head f"] by (simp add: copy_run_def)
    have view: "if uc_status (ptr p ?len) = ZX_OK then ptr p ?len = user_buf buf p ?len else uc_fault (ptr p ?len)"
      using assms(1) unfolding faulting_view_def by blast
    have eq: "fifo_write_loop q p c f =
      (let res = q p ?len
       in if uc_status res \<noteq> ZX_OK then (Some res, copied f res)
          else fifo_write_loop q (p + ?len) (c - copy_run f c)
                 ((copied f res)\<lparr>head := head f + of_nat (copy_run f c)\<rparr>))" for q
      using False by (intro write_loop_eq) auto
    show ?thesis
    proof (cases "uc_status (ptr p ?len) = ZX_OK")
      case True
      then have "user_buf buf p ?len = ptr p ?len" using view by simp
      moreover from True less.prems have "fifo_write_loop ptr (p + ?len) (c - copy_run f c)
          ((copied f (ptr p ?len))\<lparr>head := head f + of_nat (copy_run f c)\<rparr>) = (r, f')"
        unfolding eq [of ptr] by (simp add: Let_def)
      note less.IH [OF less_c this]
      ultimately show ?thesis using True unfolding eq [of "user_buf buf"]
        by (cases r) (simp_all add: Let_def)
    next
      case no: False
      with view less.prems show ?thesis unfolding eq [of ptr] by (auto simp: Let_def)
    qed
  qed
qed

lemma write_attempt:
  assumes wf: "fifo_wf (body r)" and "0 < count" and room: "fifo_used (body r) < unat (elem_count (body r))"
    and n: "n = min count (unat (elem_count (body r)) - fifo_used (body r))"
    and nw: "no_wrap (body r) (fifo_used (body r) + n)" and view: "faulting_view buf ptr"
  shows "WriteSelfLocked (unat (elem_size (body r))) ptr count (r, w) =
      WriteSelfLocked (unat (elem_size (body r))) (user_buf buf) count (r, w) \<or>
    (\<exists>c f'. WriteSelfLocked (unat (elem_size (body r))) ptr count (r, w) = (CopyFailed c, r\<lparr>body := f'\<rparr>, w) \<and>
      uc_fault c \<and> fifo_moved (body r) (fifo_used (body r)) f' \<and> tail f' = tail (body r) \<and>
      fifo_contents f' = fifo_contents (body r))"
proof -
  obtain lr f' where loop: "fifo_write_loop ptr 0 n (body r) = (lr, f')" by fastforce
  note same = faulting_view_loop [OF view loop] and eq = WriteSelfLocked_copy [OF wf assms(2) room n]
  show ?thesis
  proof (cases lr)
    case None
    with same loop show ?thesis by (simp add: eq)
  next
    case (Some c)
    from write_rolled_back [OF wf _ faulting_view_wf [OF view] nw loop] n
    have "fifo_moved (body r) (fifo_used (body r)) (f'\<lparr>head := head (body r)\<rparr>)"
      "tail (f'\<lparr>head := head (body r)\<rparr>) = tail (body r)"
      "fifo_contents (f'\<lparr>head := head (body r)\<rparr>) = fifo_contents (body r)"
      by (auto simp: fifo_moved_def)
    with Some same loop show ?thesis by (auto simp: eq)
  qed
qed

lemma write_retry:
  assumes wf: "fifo_wf f" and "peer_linked w" and "0 < count"
    and room: "fifo_used f < unat (elem_count f)"
    and n: "n = min count (unat (elem_count f) - fifo_used f)"
    and nw: "no_wrap f (fifo_used f + n)" and buf: "count * unat (elem_size f) \<le> length buf"
    and view: "\<And>k. k < m \<Longrightarrow> faulting_view buf (ptr k) \<and> soft_fault k = ZX_OK"
    and last: "ptr m = user_buf buf"
    and "k \<le> m" and "m - k < fuel" and "fifo_moved f (fifo_used f) (body r)"
    and "tail (body r) = tail f" and "fifo_contents (body r) = fifo_contents f"
  shows "\<exists>w' r'. WriteFromUser fuel (\<lambda>_ p. p) ptr soft_fault k (unat (elem_size f)) count (w, r) =
      Some (ZX_OK, Some n, w', r') \<and> fifo_wf (body r') \<and>
    fifo_contents (body r') = fifo_contents f @ elements_of (unat (elem_size f)) buf n"
  using assms(10-14)
proof (induction "m - k" arbitrary: k fuel r rule: less_induct)
  case less
  obtain fuel' where fuel: "fuel = Suc fuel'" using less.prems(2) by (cases fuel) auto
  have same: "fifo_wf (body r)" "fifo_used (body r) = fifo_used f"
    "elem_count (body r) = elem_count f" "elem_size (body r) = elem_size f"
    using less.prems(3) by (auto simp: fifo_moved_def)
  have fits: "fifo_used (body r) < unat (elem_count (body r))"
    "n = min count (unat (elem_count (body r)) - fifo_used (body r))"
    "no_wrap (body r) (fifo_used (body r) + n)" "count * unat (elem_size (body r)) \<le> length buf"
    using room n nw buf less.prems(4) by (simp_all add: same no_wrap_def)
  obtain r' w' where good:
    "WriteSelfLocked (unat (elem_size f)) (user_buf buf) count (r, w) = (Actual n, r', w')"
    "fifo_wf (body r')" "fifo_contents (body r') = fifo_contents f @ elements_of (unat (elem_size f)) buf n"
    by (rule write_locked_contents [OF same(1) assms(3) fits, where w = w, unfolded same(4) less.prems(5)])
  show ?case
  proof (cases "WriteSelfLocked (unat (elem_size f)) (ptr k) count (r, w) =
      WriteSelfLocked (unat (elem_size f)) (user_buf buf) count (r, w)")
    case True
    from trans [OF this good(1)] good(2,3) assms(2) show ?thesis by (simp add: fuel)
  next
    case False
    then have "k \<noteq> m" using last by auto
    then have k: "k < m" using less.prems(1) by simp
    from write_attempt [OF same(1) assms(3) fits(1-3), of buf "ptr k" w] view [OF k] False
    obtain c f' where fail: "WriteSelfLocked (unat (elem_size f)) (ptr k) count (r, w) =
        (CopyFailed c, r\<lparr>body := f'\<rparr>, w)" "uc_fault c"
      "fifo_moved (body r) (fifo_used (body r)) f'" "tail f' = tail (body r)"
      "fifo_contents f' = fifo_contents (body r)" unfolding same(4) by blast
    have "\<exists>w' r'. WriteFromUser fuel' (\<lambda>_ p. p) ptr soft_fault (Suc k) (unat (elem_size f)) count
        (w, r\<lparr>body := f'\<rparr>) = Some (ZX_OK, Some n, w', r') \<and> fifo_wf (body r') \<and>
        fifo_contents (body r') = fifo_contents f @ elements_of (unat (elem_size f)) buf n"
    proof (rule less.hyps)
      show "m - Suc k < m - k" "Suc k \<le> m" "m - Suc k < fuel'" using k less.prems(2) fuel by auto
      show "fifo_moved f (fifo_used f) (body (r\<lparr>body := f'\<rparr>))"
        using fail(3) by (simp add: fifo_moved_def same)
      show "tail (body (r\<lparr>body := f'\<rparr>)) = tail f" "fifo_contents (body (r\<lparr>body := f'\<rparr>)) = fifo_contents f"
        using fail(4,5) less.prems(4,5) by simp_all
    qed
    with fail(1,2) assms(2) view [OF k] show ?thesis by (simp add: fuel)
  qed
qed



text \<open>
  Rounds of one write and one read, each of one byte, keep a fifo empty and move both counters
  by one. After \<open>2 ^ 32 - 1\<close> of them the next two elements get the counter values \<open>2 ^ 32 - 1\<close> and
  \<open>0\<close>, which are the same slot of a ring of three.
\<close>

lemma queue_run_append:
  "queue_run push pop s (ops @ ops') =
     (let (i, outp, s1) = queue_run push pop s ops; (i', outp', s2) = queue_run push pop s1 ops'
      in (i @ i', outp @ outp', s2))"
  by (induction push pop s ops rule: queue_run.induct) (auto simp: Let_def split: prod.splits)

definition bytes3 :: "u32 \<Rightarrow> fifo \<Rightarrow> bool" where
  "bytes3 t f \<longleftrightarrow> fifo_wf f \<and> elem_count f = 3 \<and> elem_size f = 1 \<and> tail f = t \<and> fifo_used f = 0"

lemma bytes3_round:
  assumes "bytes3 t (body (fst p))"
  shows "\<exists>p'. queue_run fifo_push fifo_pop p [Inl [[v]], Inr 1] = ([[v]], [[v]], p') \<and>
    bytes3 (t + 1) (body (fst p'))"
proof -
  obtain r w where p: "p = (r, w)" by fastforce
  have f: "fifo_wf (body r)" "elem_count (body r) = 3" "elem_size (body r) = 1" "tail (body r) = t"
    "fifo_used (body r) = 0" using assms by (auto simp: p bytes3_def)
  have nw: "no_wrap f 1" for f using unat_less_u32 [of "tail f"] by (simp add: no_wrap_def)
  obtain n r1 w1 where push: "fifo_push (r, w) [[v]] = (n, r1, w1)" by (metis prod_cases3)
  from fifo_push_cases [OF f(1) _ _ push] f nw [of "body r"]
  have r1: "n = 1" "fifo_wf (body r1)" "elem_count (body r1) = 3" "elem_size (body r1) = 1"
    "tail (body r1) = t" "fifo_contents (body r1) = [[v]]" by (simp_all add: fifo_contents_def [of "body r"])
  then have u1: "fifo_used (body r1) = 1" using length_contents [of "body r1"] by simp
  obtain ys r2 w2 where pop: "fifo_pop (r1, w1) 1 = (ys, r2, w2)" by (metis prod_cases3)
  from fifo_pop_cases [OF r1(2) _ pop] u1 r1 nw [of "body r1"]
  have r2: "ys = [[v]]" "fifo_wf (body r2)" "elem_count (body r2) = 3" "elem_size (body r2) = 1"
    "tail (body r2) = t + 1" "fifo_contents (body r2) = []" by simp_all
  then have "fifo_used (body r2) = 0" using length_contents [of "body r2"] by simp
  with r2 push pop r1(1) show ?thesis by (simp add: p bytes3_def)
qed

lemma bytes3_rounds:
  "bytes3 t (body (fst p)) \<Longrightarrow>
   \<exists>p'. queue_run fifo_push fifo_pop p (concat (replicate k [Inl [[v]], Inr 1])) =
     (replicate k [v], replicate k [v], p') \<and> bytes3 (t + of_nat k) (body (fst p'))"
proof (induction k arbitrary: t p)
  case (Suc k)
  from bytes3_round [OF Suc.prems] obtain p1 where
    r1: "queue_run fifo_push fifo_pop p [Inl [[v]], Inr 1] = ([[v]], [[v]], p1)"
    and b1: "bytes3 (t + 1) (body (fst p1))" by blast
  from Suc.IH [OF b1] obtain p' where
    "queue_run fifo_push fifo_pop p1 (concat (replicate k [Inl [[v]], Inr 1])) =
     (replicate k [v], replicate k [v], p')" "bytes3 (t + 1 + of_nat k) (body (fst p'))" by blast
  then show ?case
    using queue_run_append [of fifo_push fifo_pop p "[Inl [[v]], Inr 1]"
        "concat (replicate k [Inl [[v]], Inr 1])"] r1 by (simp add: add.assoc)
qed simp

lemma bytes3_collision:
  assumes "bytes3 4294967295 (body (fst p))"
  shows "\<exists>x p'. queue_run fifo_push fifo_pop p [Inl [[1]], Inl [[2]], Inr 2] = ([[1], [2]], [[2], [x]], p')"
proof -
  obtain r w where p: "p = (r, w)" by fastforce
  have f: "fifo_shape (body r)" "elem_count (body r) = 3" "elem_size (body r) = 1" "tail (body r) = 4294967295"
    "fifo_used (body r) = 0" using assms by (auto simp: p bytes3_def fifo_wf_def)
  then have "head (body r) = 4294967295" using head_used [of "body r"] by simp
  moreover have "length (data (body r)) = 3" using f(1-3) by (simp add: fifo_shape_def)
  then obtain x y z where "data (body r) = [x, y, z]" by (auto simp: numeral_3_eq_3 length_Suc_conv)
  ultimately have body: "body r = \<lparr>elem_count = 3, elem_size = 1, head = 4294967295, tail = 4294967295,
      data = [x, y, z]\<rparr>" using f by simp
  have wrap: "(4294967296 :: u32) = 0" by simp
  have push1: "fifo_push (r, w) [[1]] = (1, ep_update_state 0 ZX_OBJECT_READABLE
      (r\<lparr>body := \<lparr>elem_count = 3, elem_size = 1, head = 0, tail = 4294967295, data = [1, y, z]\<rparr>\<rparr>), w)"
    unfolding fifo_push_def WriteSelfLocked_def
    by (simp add: body fifo_write_loop.simps Let_def user_buf_def bytes_at_def overwrite_def wrap)
  let ?r1 = "ep_update_state 0 ZX_OBJECT_READABLE
      (r\<lparr>body := \<lparr>elem_count = 3, elem_size = 1, head = 0, tail = 4294967295, data = [1, y, z]\<rparr>\<rparr>)"
  have push2: "fifo_push (?r1, w) [[2]] = (1, ?r1\<lparr>body := \<lparr>elem_count = 3, elem_size = 1, head = 1,
      tail = 4294967295, data = [2, y, z]\<rparr>\<rparr>, w)"
    unfolding fifo_push_def WriteSelfLocked_def
    by (simp add: fifo_write_loop.simps Let_def user_buf_def bytes_at_def overwrite_def)
  let ?r2 = "?r1\<lparr>body := \<lparr>elem_count = 3, elem_size = 1, head = 1, tail = 4294967295, data = [2, y, z]\<rparr>\<rparr>"
  have used: "fifo_used (body ?r2) = 2"
    by (simp add: fifo_used_def)
  have loop: "fifo_read_loop (user_sink 2) 0 2 (body ?r2) =
      (None, [2, y], \<lparr>elem_count = 3, elem_size = 1, head = 1, tail = 1, data = [2, y, z]\<rparr>)"
    by (simp add: fifo_read_loop.simps Let_def user_sink_def bytes_at_def)
  have "ReadToUserLocked 1 (user_sink 2) 2 (?r2, w) = (Actual 2, [2, y],
      ep_update_state ZX_OBJECT_READABLE 0 (?r2\<lparr>body := \<lparr>elem_count = 3, elem_size = 1, head = 1, tail = 1,
        data = [2, y, z]\<rparr>\<rparr>), w)"
    using ReadToUserLocked_copy [of 2 ?r2 2 "user_sink 2" w] used loop by simp
  then have pop: "fst (fifo_pop (?r2, w) 2) = [[2], [y]]"
    by (simp add: fifo_pop_def elements_of_def bytes_at_def numeral_2_eq_2)
  obtain p3 where "fifo_pop (?r2, w) 2 = ([[2], [y]], p3)" using pop by (metis prod.collapse)
  with push1 push2 show ?thesis by (auto simp: p)
qed


end
