(* ===== verification/MBuf.thy ===== *)
theory MBuf
  imports Queue_Interface
begin

text \<open>
  The buffer chain of sockets (\<open>MBufChain\<close>, \<^verbatim>\<open>kernel/object/mbuf.cc\<close>): a singly linked list of
  fixed-size buffers with a read offset into the first, a pointer to the last, and a list of
  free buffers. A buffer is identified by its address \<open>mb_id\<close>; \<open>heap k\<close> says whether the \<open>k\<close>-th
  heap allocation of the chain succeeds, and its address is then \<open>k\<close>. In stream mode the chain
  holds a sequence of bytes, in datagram mode a sequence of datagrams.
\<close>

section \<open>State and operations\<close>

definition kPayloadSize :: nat where "kPayloadSize = (2048 - 16) - ((8 * 2) + (4 * 2))"
definition kSizeMax :: nat where "kSizeMax = 128 * kPayloadSize"

record mbuf =
  mb_id :: nat
  mb_len :: nat
  mb_pkt_len :: nat
  mb_data :: "byte list"

record mbuf_chain =
  freelist :: "mbuf list"
  buffers :: "mbuf list"
  read_cursor_off :: nat
  write_cursor :: "nat option"
  chain_size :: nat
  allocs :: nat

definition MBufChain_new :: mbuf_chain where
  "MBufChain_new = \<lparr>freelist = [], buffers = [], read_cursor_off = 0, write_cursor = None,
     chain_size = 0, allocs = 0\<rparr>"

definition MBuf_new :: "nat \<Rightarrow> mbuf" where
  "MBuf_new k = \<lparr>mb_id = k, mb_len = 0, mb_pkt_len = 0, mb_data = replicate kPayloadSize 0\<rparr>"

definition mb_rem :: "mbuf \<Rightarrow> nat" where
  "mb_rem b = kPayloadSize - mb_len b"

definition chain_is_full :: "mbuf_chain \<Rightarrow> bool" where
  "chain_is_full c \<longleftrightarrow> chain_size c \<ge> kSizeMax"

definition chain_is_empty :: "mbuf_chain \<Rightarrow> bool" where
  "chain_is_empty c \<longleftrightarrow> chain_size c = 0"

definition chain_size_mode :: "bool \<Rightarrow> mbuf_chain \<Rightarrow> nat" where
  "chain_size_mode datagram c =
     (if datagram \<and> chain_size c \<noteq> 0 then mb_pkt_len (hd (buffers c)) else chain_size c)"

definition AllocMBuf :: "(nat \<Rightarrow> bool) \<Rightarrow> mbuf_chain \<Rightarrow> mbuf option \<times> mbuf_chain" where
  "AllocMBuf heap c = (case freelist c of
       [] \<Rightarrow> (if heap (allocs c) then Some (MBuf_new (allocs c)) else None, c\<lparr>allocs := Suc (allocs c)\<rparr>)
     | b # bs \<Rightarrow> (Some b, c\<lparr>freelist := bs\<rparr>))"

definition FreeMBuf :: "mbuf \<Rightarrow> mbuf_chain \<Rightarrow> mbuf_chain" where
  "FreeMBuf b c = c\<lparr>freelist := b\<lparr>mb_len := 0, mb_pkt_len := 0\<rparr> # freelist c\<rparr>"

text \<open>
  List surgery by address: \<open>insert_after\<close> of the intrusive list, the object a pointer designates,
  and an update of the object in place.
\<close>

fun insert_after :: "nat \<Rightarrow> mbuf \<Rightarrow> mbuf list \<Rightarrow> mbuf list" where
  "insert_after i x [] = []"
| "insert_after i x (b # bs) = (if mb_id b = i then b # x # bs else b # insert_after i x bs)"

definition mbuf_at :: "nat \<Rightarrow> mbuf list \<Rightarrow> mbuf option" where
  "mbuf_at i bs = find (\<lambda>b. mb_id b = i) bs"

definition set_mbuf :: "mbuf \<Rightarrow> mbuf list \<Rightarrow> mbuf list" where
  "set_mbuf b' bs = map (\<lambda>b. if mb_id b = mb_id b' then b' else b) bs"

text \<open>The part of the stream loop that finds a buffer with room: \<open>None\<close> is the \<open>break\<close>.\<close>

definition stream_target :: "(nat \<Rightarrow> bool) \<Rightarrow> mbuf_chain \<Rightarrow> mbuf option \<times> mbuf_chain" where
  "stream_target heap c =
     (case write_cursor c of
        None \<Rightarrow> (None, c)
      | Some i \<Rightarrow> (case mbuf_at i (buffers c) of
          None \<Rightarrow> (None, c)
        | Some b \<Rightarrow>
            if mb_rem b = 0
            then (case AllocMBuf heap c of
                    (None, c1) \<Rightarrow> (None, c1)
                  | (Some x, c1) \<Rightarrow> (Some x, c1\<lparr>buffers := insert_after i x (buffers c1),
                                                write_cursor := Some (mb_id x)\<rparr>))
            else (Some b, c)))"

text \<open>
  The loop of \<open>WriteStream\<close>: the status of the failed copy or \<open>ZX_OK\<close>, the bytes written, and the
  chain. The second test for \<open>copy_len = 0\<close> makes the recursion total; an invariant of the chain
  is that the chosen buffer has room.
\<close>

function write_stream_loop ::
  "(nat \<Rightarrow> bool) \<Rightarrow> user_in \<Rightarrow> nat \<Rightarrow> nat \<Rightarrow> mbuf_chain \<Rightarrow> zx_status \<times> nat \<times> mbuf_chain" where
  "write_stream_loop heap src len pos c =
     (if \<not> pos < len then (ZX_OK, pos, c)
      else case stream_target heap c of
          (None, c1) \<Rightarrow> (ZX_OK, pos, c1)
        | (Some b, c1) \<Rightarrow>
            let copy_len0 = min (mb_rem b) (len - pos);
                copy_len = (if chain_size c1 + copy_len0 > kSizeMax then kSizeMax - chain_size c1
                            else copy_len0)
            in if copy_len = 0 then (ZX_OK, pos, c1)
               else let r = src pos copy_len;
                        b1 = b\<lparr>mb_data := overwrite (mb_data b) (mb_len b) (uc_bytes r)\<rparr>
                    in if uc_status r \<noteq> ZX_OK
                       then (uc_status r, pos, c1\<lparr>buffers := set_mbuf b1 (buffers c1)\<rparr>)
                       else write_stream_loop heap src len (pos + copy_len)
                              (c1\<lparr>buffers := set_mbuf (b1\<lparr>mb_len := mb_len b + copy_len\<rparr>) (buffers c1),
                                  chain_size := chain_size c1 + copy_len\<rparr>))"
  by pat_completeness auto
termination
  by (relation "measure (\<lambda>(heap, src, len, pos, c). len - pos)") auto

definition WriteStream ::
  "(nat \<Rightarrow> bool) \<Rightarrow> user_in \<Rightarrow> nat \<Rightarrow> mbuf_chain \<Rightarrow> zx_status \<times> nat \<times> mbuf_chain" where
  "WriteStream heap src len c =
     (let start = (case write_cursor c of
          Some i \<Rightarrow> (True, c)
        | None \<Rightarrow> (case AllocMBuf heap c of
            (None, c1) \<Rightarrow> (False, c1)
          | (Some b, c1) \<Rightarrow> (True, c1\<lparr>write_cursor := Some (mb_id b), buffers := b # buffers c1\<rparr>)))
      in case start of
          (False, c1) \<Rightarrow> (ZX_ERR_SHOULD_WAIT, 0, c1)
        | (True, c1) \<Rightarrow>
            (case write_stream_loop heap src len 0 c1 of
               (status, pos, c2) \<Rightarrow>
                 if status \<noteq> ZX_OK then (status, pos, c2)
                 else if pos = 0 then (ZX_ERR_SHOULD_WAIT, 0, c2)
                 else (ZX_OK, pos, c2)))"

text \<open>
  \<open>WriteDatagram\<close>: allocate the buffers of the packet, fill them, link them at the end. A failure
  before the last phase returns the buffers to the free list.
\<close>

fun alloc_mbufs :: "(nat \<Rightarrow> bool) \<Rightarrow> nat \<Rightarrow> mbuf list \<Rightarrow> mbuf_chain \<Rightarrow> bool \<times> mbuf list \<times> mbuf_chain" where
  "alloc_mbufs heap 0 bufs c = (True, bufs, c)"
| "alloc_mbufs heap (Suc need) bufs c =
     (case AllocMBuf heap c of
        (None, c1) \<Rightarrow> (False, bufs, c1)
      | (Some b, c1) \<Rightarrow> alloc_mbufs heap need (b # bufs) c1)"

fun free_mbufs :: "mbuf list \<Rightarrow> mbuf_chain \<Rightarrow> mbuf_chain" where
  "free_mbufs [] c = c"
| "free_mbufs (b # bs) c = free_mbufs bs (FreeMBuf b c)"

fun fill_mbufs :: "user_in \<Rightarrow> nat \<Rightarrow> nat \<Rightarrow> mbuf list \<Rightarrow> bool \<times> mbuf list" where
  "fill_mbufs src len pos [] = (True, [])"
| "fill_mbufs src len pos (b # bs) =
     (let copy_len = min kPayloadSize (len - pos);
          r = src pos copy_len;
          b1 = b\<lparr>mb_data := overwrite (mb_data b) 0 (uc_bytes r)\<rparr>
      in if uc_status r \<noteq> ZX_OK then (False, b1 # bs)
         else let (ok, bs') = fill_mbufs src len (pos + copy_len) bs
              in (ok, b1\<lparr>mb_len := mb_len b + copy_len\<rparr> # bs'))"

fun link_mbufs :: "mbuf list \<Rightarrow> mbuf_chain \<Rightarrow> mbuf_chain" where
  "link_mbufs [] c = c"
| "link_mbufs (b # bs) c = link_mbufs bs
     (c\<lparr>buffers := (case write_cursor c of None \<Rightarrow> b # buffers c
                   | Some i \<Rightarrow> insert_after i b (buffers c)),
        write_cursor := Some (mb_id b)\<rparr>)"

definition WriteDatagram ::
  "(nat \<Rightarrow> bool) \<Rightarrow> user_in \<Rightarrow> nat \<Rightarrow> mbuf_chain \<Rightarrow> zx_status \<times> nat \<times> mbuf_chain" where
  "WriteDatagram heap src len c =
     (if len = 0 then (ZX_ERR_INVALID_ARGS, 0, c)
      else if len > kSizeMax then (ZX_ERR_OUT_OF_RANGE, 0, c)
      else if len + chain_size c > kSizeMax then (ZX_ERR_SHOULD_WAIT, 0, c)
      else case alloc_mbufs heap (1 + (len - 1) div kPayloadSize) [] c of
          (False, bufs, c1) \<Rightarrow> (ZX_ERR_SHOULD_WAIT, 0, free_mbufs bufs c1)
        | (True, bufs, c1) \<Rightarrow>
            (case fill_mbufs src len 0 bufs of
               (False, bufs') \<Rightarrow> (ZX_ERR_INVALID_ARGS, 0, free_mbufs bufs' c1)
             | (True, bufs') \<Rightarrow>
                 let c2 = link_mbufs ((hd bufs')\<lparr>mb_pkt_len := len\<rparr> # tl bufs') c1
                 in (ZX_OK, len, c2\<lparr>chain_size := chain_size c2 + len\<rparr>)))"

text \<open>
  \<open>ReadHelper\<close>, consuming. The loop returns the status, the bytes that reached the user, the count
  \<open>pos\<close>, the read offset and the chain. The test \<open>read_off \<le> mb_len\<close> makes it total; that it
  holds is an invariant.
\<close>

definition pop_mbuf :: "mbuf_chain \<Rightarrow> mbuf_chain" where
  "pop_mbuf c = (let b = hd (buffers c);
     c1 = (if write_cursor c = Some (mb_id b) then c\<lparr>write_cursor := None\<rparr> else c)
     in FreeMBuf b (c1\<lparr>buffers := tl (buffers c)\<rparr>))"

text \<open>One iteration: the outcome of the copy, the new position and read offset, and the chain.\<close>

definition read_chunk ::
  "user_out \<Rightarrow> nat \<Rightarrow> bool \<Rightarrow> nat \<Rightarrow> nat \<Rightarrow> mbuf_chain \<Rightarrow> user_copy \<times> nat \<times> nat \<times> mbuf_chain" where
  "read_chunk dst len datagram pos read_off c =
     (let b = hd (buffers c);
          copy_len = min (mb_len b - read_off) (len - pos);
          r = dst pos (bytes_at (mb_data b) read_off copy_len);
          ok = (uc_status r = ZX_OK);
          pos1 = (if ok then pos + copy_len else pos);
          off1 = (if ok then read_off + copy_len else read_off);
          c1 = (if ok then c\<lparr>chain_size := chain_size c - copy_len\<rparr> else c)
      in if off1 = mb_len b \<or> datagram
         then (r, pos1, 0, pop_mbuf (if datagram
                 then c1\<lparr>chain_size := chain_size c1 - (mb_len b - off1)\<rparr> else c1))
         else (r, pos1, off1, c1))"

lemma buffers_pop_mbuf [simp]: "buffers (pop_mbuf c) = tl (buffers c)"
  by (simp add: pop_mbuf_def FreeMBuf_def Let_def)

lemma read_chunk_measure:
  assumes "(r, pos1, off2, c2) = read_chunk dst len datagram pos read_off c" and "uc_status r = ZX_OK"
    and "pos < len" and "buffers c \<noteq> []" and "read_off \<le> mb_len (hd (buffers c))"
  shows "len - pos1 + length (buffers c2) < len + length (buffers c) - pos"
proof -
  define n where "n = min (mb_len (hd (buffers c)) - read_off) (len - pos)"
  have "n = mb_len (hd (buffers c)) - read_off \<or> n = len - pos" by (simp add: n_def min_def)
  moreover have "pos1 = pos + n \<and> (buffers c2 = tl (buffers c) \<or> buffers c2 = buffers c \<and> read_off + n \<noteq> mb_len (hd (buffers c)))"
    using assms(1,2) unfolding read_chunk_def Let_def n_def [symmetric] by (auto split: if_splits)
  ultimately have "pos \<le> pos1 \<and> (buffers c2 = tl (buffers c) \<or> buffers c2 = buffers c \<and> pos1 = len)"
    using assms(3,5) by auto
  then show ?thesis using assms(3,4) by (cases "buffers c") auto
qed

function chain_read_loop ::
  "user_out \<Rightarrow> nat \<Rightarrow> bool \<Rightarrow> nat \<Rightarrow> nat \<Rightarrow> mbuf_chain \<Rightarrow>
    zx_status \<times> byte list \<times> nat \<times> nat \<times> mbuf_chain" where
  "chain_read_loop dst len datagram pos read_off c =
     (if \<not> (pos < len \<and> buffers c \<noteq> [] \<and> read_off \<le> mb_len (hd (buffers c)))
      then (ZX_OK, [], pos, read_off, c)
      else case read_chunk dst len datagram pos read_off c of
          (r, pos1, off2, c2) \<Rightarrow>
            if uc_status r = ZX_OK
            then let (st, out, p, ro, c') = chain_read_loop dst len datagram pos1 off2 c2
                 in (st, uc_bytes r @ out, p, ro, c')
            else (uc_status r, uc_bytes r, pos1, off2, c2))"
  by pat_completeness auto
termination
  by (relation "measure (\<lambda>(dst, len, datagram, pos, read_off, c). (len - pos) + length (buffers c))")
    (auto intro: read_chunk_measure)

function drain_packet :: "nat \<Rightarrow> mbuf_chain \<Rightarrow> nat \<times> mbuf_chain" where
  "drain_packet read_off c =
     (if buffers c \<noteq> [] \<and> mb_pkt_len (hd (buffers c)) = 0
      then drain_packet 0
             (pop_mbuf (c\<lparr>chain_size := chain_size c - (mb_len (hd (buffers c)) - read_off)\<rparr>))
      else (read_off, c))"
  by pat_completeness auto
termination
  by (relation "measure (\<lambda>(read_off, c). length (buffers c))") auto

declare write_stream_loop.simps [simp del] chain_read_loop.simps [simp del] drain_packet.simps [simp del]

definition chain_Read ::
  "user_out \<Rightarrow> nat \<Rightarrow> bool \<Rightarrow> mbuf_chain \<Rightarrow> zx_status \<times> byte list \<times> nat \<times> mbuf_chain" where
  "chain_Read dst len0 datagram c =
     (if chain_size c = 0 then (ZX_OK, [], 0, c)
      else let len = (if datagram \<and> len0 > mb_pkt_len (hd (buffers c)) then mb_pkt_len (hd (buffers c)) else len0);
               (status, out, pos, ro1, c1) = chain_read_loop dst len datagram 0 (read_cursor_off c) c;
               (ro2, c2) = (if datagram then drain_packet ro1 c1 else (ro1, c1))
           in (status, out, pos, c2\<lparr>read_cursor_off := ro2\<rparr>))"

text \<open>\<open>ReadHelper\<close> on a constant chain.\<close>

fun peek_loop :: "user_out \<Rightarrow> nat \<Rightarrow> nat \<Rightarrow> nat \<Rightarrow> mbuf list \<Rightarrow> zx_status \<times> byte list \<times> nat" where
  "peek_loop dst len pos read_off [] = (ZX_OK, [], pos)"
| "peek_loop dst len pos read_off (b # bs) =
     (if \<not> pos < len then (ZX_OK, [], pos)
      else let copy_len = min (mb_len b - read_off) (len - pos);
               r = dst pos (bytes_at (mb_data b) read_off copy_len)
           in if uc_status r = ZX_OK
              then let (st, out, p) = peek_loop dst len (pos + copy_len) 0 bs
                   in (st, uc_bytes r @ out, p)
              else (uc_status r, uc_bytes r, pos))"

definition chain_Peek :: "user_out \<Rightarrow> nat \<Rightarrow> bool \<Rightarrow> mbuf_chain \<Rightarrow> zx_status \<times> byte list \<times> nat" where
  "chain_Peek dst len0 datagram c =
     (if chain_size c = 0 then (ZX_OK, [], 0)
      else let len = (if datagram \<and> len0 > mb_pkt_len (hd (buffers c)) then mb_pkt_len (hd (buffers c)) else len0)
           in peek_loop dst len 0 (read_cursor_off c) (buffers c))"

section \<open>The invariant of a chain\<close>

definition mb_bytes :: "mbuf \<Rightarrow> byte list" where
  "mb_bytes b = take (mb_len b) (mb_data b)"

definition bytes_from :: "nat \<Rightarrow> mbuf list \<Rightarrow> byte list" where
  "bytes_from ro bs = drop ro (concat (map mb_bytes bs))"

definition chain_bytes :: "mbuf_chain \<Rightarrow> byte list" where
  "chain_bytes c = bytes_from (read_cursor_off c) (buffers c)"

definition mbuf_ok :: "mbuf \<Rightarrow> bool" where
  "mbuf_ok b \<longleftrightarrow> length (mb_data b) = kPayloadSize \<and> mb_len b \<le> kPayloadSize"

definition off_ok :: "nat \<Rightarrow> mbuf list \<Rightarrow> bool" where
  "off_ok ro bs \<longleftrightarrow> (case bs of [] \<Rightarrow> ro = 0 | b # _ \<Rightarrow> ro \<le> mb_len b)"

text \<open>
  Addresses are distinct, so no buffer is in the chain twice or both in use and free; free
  buffers are reset; the write cursor is the last buffer.
\<close>

definition chain_shape :: "mbuf_chain \<Rightarrow> bool" where
  "chain_shape c \<longleftrightarrow> distinct (map mb_id (buffers c @ freelist c)) \<and>
     (\<forall>b\<in>set (buffers c @ freelist c). mbuf_ok b \<and> mb_id b < allocs c) \<and>
     (\<forall>b\<in>set (freelist c). mb_len b = 0 \<and> mb_pkt_len b = 0) \<and>
     write_cursor c = (if buffers c = [] then None else Some (mb_id (last (buffers c))))"

definition chain_wf :: "mbuf_chain \<Rightarrow> bool" where
  "chain_wf c \<longleftrightarrow> chain_shape c \<and> off_ok (read_cursor_off c) (buffers c) \<and>
     chain_size c = length (chain_bytes c) \<and> chain_size c \<le> kSizeMax"

lemma kPayloadSize_pos [simp]: "0 < kPayloadSize" by (simp add: kPayloadSize_def)

lemma mb_bytes_length [simp]: "mbuf_ok b \<Longrightarrow> length (mb_bytes b) = mb_len b"
  by (simp add: mb_bytes_def mbuf_ok_def)

lemma off_ok_le: "off_ok ro bs \<Longrightarrow> \<forall>b\<in>set bs. mbuf_ok b \<Longrightarrow> ro \<le> length (concat (map mb_bytes bs))"
  by (cases bs) (auto simp: off_ok_def)

lemma insert_after_last:
  "mb_id l \<notin> mb_id ` set bs \<Longrightarrow> insert_after (mb_id l) x (bs @ [l]) = bs @ [l, x]"
  by (induction bs) auto

lemma mbuf_at_last: "mb_id l \<notin> mb_id ` set bs \<Longrightarrow> mbuf_at (mb_id l) (bs @ [l]) = Some l"
  by (induction bs) (auto simp: mbuf_at_def)

lemma set_mbuf_last:
  "mb_id l \<notin> mb_id ` set bs \<Longrightarrow> mb_id l' = mb_id l \<Longrightarrow> set_mbuf l' (bs @ [l]) = bs @ [l']"
  by (induction bs) (auto simp: set_mbuf_def)

lemma shape_last:
  assumes "chain_shape c" and "buffers c \<noteq> []"
  obtains bs l where "buffers c = bs @ [l]" "write_cursor c = Some (mb_id l)" "mb_id l \<notin> mb_id ` set bs" "mbuf_ok l"
proof -
  obtain bs l where "buffers c = bs @ [l]" using assms(2) by (metis append_butlast_last_id)
  with assms(1) show thesis by (intro that [of bs l]) (auto simp: chain_shape_def)
qed

text \<open>A buffer just allocated is empty and belongs to no list.\<close>

definition fresh_for :: "mbuf \<Rightarrow> mbuf_chain \<Rightarrow> bool" where
  "fresh_for b c \<longleftrightarrow> mbuf_ok b \<and> mb_len b = 0 \<and> mb_pkt_len b = 0 \<and> mb_id b < allocs c \<and>
     mb_id b \<notin> mb_id ` set (buffers c @ freelist c)"

lemma AllocMBuf_shape:
  assumes "chain_shape c" and "AllocMBuf heap c = (r, c1)"
  shows "chain_shape c1 \<and> buffers c1 = buffers c \<and> read_cursor_off c1 = read_cursor_off c \<and>
    write_cursor c1 = write_cursor c \<and> chain_size c1 = chain_size c \<and>
    set (freelist c1) \<subseteq> set (freelist c) \<and> allocs c \<le> allocs c1 \<and>
    (\<forall>b. r = Some b \<longrightarrow> fresh_for b c1)"
proof (cases "freelist c")
  case Nil
  then have c1: "c1 = c\<lparr>allocs := Suc (allocs c)\<rparr>"
    and r: "r = (if heap (allocs c) then Some (MBuf_new (allocs c)) else None)"
    using assms(2) by (simp_all add: AllocMBuf_def)
  have "fresh_for (MBuf_new (allocs c)) c1"
    using assms(1) Nil by (fastforce simp: c1 fresh_for_def MBuf_new_def mbuf_ok_def chain_shape_def)
  moreover have "chain_shape c1"
    using assms(1) Nil unfolding chain_shape_def c1 by (simp add: less_SucI)
  ultimately show ?thesis using r by (simp add: c1)
next
  case (Cons b bs)
  then have c1: "c1 = c\<lparr>freelist := bs\<rparr>" and r: "r = Some b"
    using assms(2) by (simp_all add: AllocMBuf_def)
  have "fresh_for b c1" using assms(1) Cons by (simp add: c1 fresh_for_def chain_shape_def image_iff ball_Un)
  moreover have "chain_shape c1" using assms(1) Cons by (simp add: c1 chain_shape_def)
  ultimately show ?thesis using r Cons by (auto simp: c1)
qed

lemma shape_append:
  "chain_shape c \<Longrightarrow> fresh_for b c \<Longrightarrow>
   chain_shape (c\<lparr>buffers := buffers c @ [b], write_cursor := Some (mb_id b)\<rparr>)"
  by (auto simp: chain_shape_def fresh_for_def)

lemma bytes_from_empty_last [simp]: "mb_len b = 0 \<Longrightarrow> bytes_from ro (bs @ [b]) = bytes_from ro bs"
  by (simp add: bytes_from_def mb_bytes_def)

section \<open>Streams\<close>

lemma stream_target_wf:
  assumes wf: "chain_wf c" and ne: "buffers c \<noteq> []" and call: "stream_target heap c = (r, c1)"
  shows "chain_wf c1 \<and> chain_bytes c1 = chain_bytes c \<and> buffers c1 \<noteq> [] \<and> chain_size c1 = chain_size c \<and>
    (\<forall>b. r = Some b \<longrightarrow> 0 < mb_rem b \<and> (\<exists>bs. buffers c1 = bs @ [b]))"
proof -
  have shape: "chain_shape c" using wf by (simp add: chain_wf_def)
  from shape_last [OF shape ne] obtain bs l where l: "buffers c = bs @ [l]"
    "write_cursor c = Some (mb_id l)" "mb_id l \<notin> mb_id ` set bs" "mbuf_ok l" by blast
  show ?thesis
  proof (cases "mb_rem l = 0")
    case False
    with l wf call show ?thesis by (auto simp: stream_target_def mbuf_at_last)
  next
    case True
    obtain x c2 where alloc: "AllocMBuf heap c = (x, c2)" by fastforce
    note a = AllocMBuf_shape [OF shape alloc]
    show ?thesis
    proof (cases x)
      case None
      with True l alloc call have "r = None" "c1 = c2" by (auto simp: stream_target_def mbuf_at_last)
      with a wf ne show ?thesis by (simp add: chain_wf_def chain_bytes_def)
    next
      case (Some b)
      have c1: "r = Some b" "c1 = c2\<lparr>buffers := buffers c @ [b], write_cursor := Some (mb_id b)\<rparr>"
        using Some True l alloc call a by (auto simp: stream_target_def mbuf_at_last insert_after_last)
      have fresh: "fresh_for b c2" using a Some by blast
      then have "chain_shape c1" using shape_append [of c2 b] a c1 by auto
      moreover have "off_ok (read_cursor_off c) (buffers c @ [b])"
        using wf ne by (cases "buffers c") (auto simp: chain_wf_def off_ok_def)
      moreover have "0 < mb_rem b" using fresh by (simp add: fresh_for_def mb_rem_def)
      ultimately show ?thesis using a c1 wf fresh
        by (simp add: chain_wf_def chain_bytes_def fresh_for_def)
    qed
  qed
qed
lemma chain_wf_fill:
  assumes wf: "chain_wf c" and bs: "buffers c = bs @ [b]"
    and len: "length new = n" and fits: "n \<le> mb_rem b" "chain_size c + n \<le> kSizeMax"
  defines "c' \<equiv> c\<lparr>buffers := set_mbuf (b\<lparr>mb_data := overwrite (mb_data b) (mb_len b) new,
      mb_len := mb_len b + n\<rparr>) (buffers c), chain_size := chain_size c + n\<rparr>"
  shows "chain_wf c' \<and> chain_bytes c' = chain_bytes c @ new"
proof -
  let ?b = "b\<lparr>mb_data := overwrite (mb_data b) (mb_len b) new, mb_len := mb_len b + n\<rparr>"
  have shape: "chain_shape c" and ok: "mbuf_ok b" "mb_id b \<notin> mb_id ` set bs"
    and oks: "\<forall>b\<in>set (buffers c). mbuf_ok b"
    using wf bs by (auto simp: chain_wf_def chain_shape_def)
  have room: "mb_len b + n \<le> kPayloadSize" using ok fits(1) by (auto simp: mb_rem_def mbuf_ok_def)
  have ro': "read_cursor_off c' = read_cursor_off c" by (simp add: c'_def)
  have bufs: "buffers c' = bs @ [?b]" using ok(2) bs by (simp add: c'_def set_mbuf_last)
  have okb: "mbuf_ok ?b" using ok(1) room len by (simp add: mbuf_ok_def length_overwrite)
  have bytes: "mb_bytes ?b = mb_bytes b @ new"
    using ok(1) room len by (simp add: mb_bytes_def mbuf_ok_def overwrite_def)
  have ro: "off_ok (read_cursor_off c) (buffers c)" using wf by (simp add: chain_wf_def)
  have "chain_shape c'"
    using shape okb bs bufs unfolding chain_shape_def by (auto simp: c'_def)
  moreover have "chain_bytes c' = chain_bytes c @ new"
    using off_ok_le [OF ro oks] bytes bs ro' by (simp add: chain_bytes_def bytes_from_def bufs)
  moreover have "off_ok (read_cursor_off c') (buffers c')"
    using ro bs unfolding bufs by (cases bs) (auto simp: off_ok_def c'_def)
  ultimately show ?thesis using wf len fits(2) by (simp add: chain_wf_def c'_def)
qed

lemma chain_wf_garbage:
  assumes wf: "chain_wf c" and bs: "buffers c = bs @ [b]" and len: "length new \<le> mb_rem b"
  defines "c' \<equiv> c\<lparr>buffers := set_mbuf (b\<lparr>mb_data := overwrite (mb_data b) (mb_len b) new\<rparr>) (buffers c)\<rparr>"
  shows "chain_wf c' \<and> chain_bytes c' = chain_bytes c"
proof -
  let ?b = "b\<lparr>mb_data := overwrite (mb_data b) (mb_len b) new\<rparr>"
  have shape: "chain_shape c" and ok: "mbuf_ok b" "mb_id b \<notin> mb_id ` set bs"
    using wf bs by (auto simp: chain_wf_def chain_shape_def)
  have ro': "read_cursor_off c' = read_cursor_off c" by (simp add: c'_def)
  have bufs: "buffers c' = bs @ [?b]" using ok(2) bs by (simp add: c'_def set_mbuf_last)
  have "mb_len b + length new \<le> length (mb_data b)" using ok(1) len by (auto simp: mbuf_ok_def mb_rem_def)
  then have okb: "mbuf_ok ?b" using ok(1) by (simp add: mbuf_ok_def length_overwrite)
  have bytes: "mb_bytes ?b = mb_bytes b"
    using ok(1) by (simp add: mb_bytes_def mbuf_ok_def overwrite_def)
  have "chain_shape c'"
    using shape okb bs bufs unfolding chain_shape_def by (auto simp: c'_def)
  moreover have "chain_bytes c' = chain_bytes c"
    using bytes bs ro' by (simp add: chain_bytes_def bytes_from_def bufs)
  moreover have "off_ok (read_cursor_off c') (buffers c')"
    using wf bs unfolding bufs chain_wf_def by (cases bs) (auto simp: off_ok_def c'_def)
  ultimately show ?thesis using wf by (simp add: chain_wf_def c'_def)
qed

definition stream_copy_len :: "nat \<Rightarrow> nat \<Rightarrow> mbuf \<Rightarrow> mbuf_chain \<Rightarrow> nat" where
  "stream_copy_len len pos b c = min (min (mb_rem b) (len - pos)) (kSizeMax - chain_size c)"

lemma write_stream_loop_eq:
  assumes "pos < len" and "stream_target heap c = (Some b, c1)" and "n = stream_copy_len len pos b c1"
    and "chain_size c1 \<le> kSizeMax"
  shows "write_stream_loop heap src len pos c =
    (if n = 0 then (ZX_OK, pos, c1)
     else let r = src pos n; b1 = b\<lparr>mb_data := overwrite (mb_data b) (mb_len b) (uc_bytes r)\<rparr>
       in if uc_status r \<noteq> ZX_OK then (uc_status r, pos, c1\<lparr>buffers := set_mbuf b1 (buffers c1)\<rparr>)
          else write_stream_loop heap src len (pos + n)
                 (c1\<lparr>buffers := set_mbuf (b1\<lparr>mb_len := mb_len b + n\<rparr>) (buffers c1),
                     chain_size := chain_size c1 + n\<rparr>))"
proof -
  have n: "n = (if chain_size c1 + min (mb_rem b) (len - pos) > kSizeMax then kSizeMax - chain_size c1
                else min (mb_rem b) (len - pos))"
    using assms(3,4) by (auto simp: stream_copy_len_def min_def)
  show ?thesis
    by (subst write_stream_loop.simps) (simp add: assms(1,2) Let_def flip: n)
qed

text \<open>
  The stream loop on any chain with a cursor and any user memory: it appends the bytes it
  counts as written, and nothing else changes the contents.
\<close>

lemma write_stream_loop_appends:
  assumes "view_of buf src"
  shows "chain_wf c \<Longrightarrow> buffers c \<noteq> [] \<Longrightarrow> pos \<le> len \<Longrightarrow>
    write_stream_loop heap src len pos c = (st, w, c') \<Longrightarrow>
    chain_wf c' \<and> buffers c' \<noteq> [] \<and> pos \<le> w \<and> w \<le> len \<and> (pos < w \<longrightarrow> w \<le> length buf) \<and>
    chain_bytes c' = chain_bytes c @ bytes_at buf pos (w - pos)"
proof (induction "len - pos" arbitrary: pos c rule: less_induct)
  case less
  obtain r c1 where target: "stream_target heap c = (r, c1)" by fastforce
  note t = stream_target_wf [OF less.prems(1,2) target]
  consider "pos = len" | "pos < len" "r = None" | b where "pos < len" "r = Some b"
    using less.prems(3) by (cases r) (auto simp: le_less)
  then show ?case
  proof cases
    case 1
    with less.prems show ?thesis by (auto simp: write_stream_loop.simps bytes_at_def)
  next
    case 2
    with less.prems(4) target t show ?thesis by (auto simp: write_stream_loop.simps bytes_at_def)
  next
    case (3 b)
    then obtain bs where b: "0 < mb_rem b" "buffers c1 = bs @ [b]" using t by blast
    define n where "n = stream_copy_len len pos b c1"
    have n: "n \<le> mb_rem b" "n \<le> len - pos" "chain_size c1 + n \<le> kSizeMax"
      using t by (auto simp: n_def stream_copy_len_def chain_wf_def)
    let ?r = "src pos n"
    let ?b1 = "b\<lparr>mb_data := overwrite (mb_data b) (mb_len b) (uc_bytes ?r)\<rparr>"
    let ?c2 = "c1\<lparr>buffers := set_mbuf (?b1\<lparr>mb_len := mb_len b + n\<rparr>) (buffers c1),
        chain_size := chain_size c1 + n\<rparr>"
    have eq: "write_stream_loop heap src len pos c =
      (if n = 0 then (ZX_OK, pos, c1)
       else if uc_status ?r \<noteq> ZX_OK then (uc_status ?r, pos, c1\<lparr>buffers := set_mbuf ?b1 (buffers c1)\<rparr>)
       else write_stream_loop heap src len (pos + n) ?c2)"
      using write_stream_loop_eq [OF 3(1) target [unfolded 3(2)] n_def] t
      by (simp add: Let_def chain_wf_def)
    consider "n = 0" | "0 < n" "uc_status ?r \<noteq> ZX_OK" | "0 < n" "uc_status ?r = ZX_OK" by blast
    then show ?thesis
    proof cases
      case 1
      with eq less.prems t show ?thesis by (auto simp: bytes_at_def)
    next
      case 2
      have "length (uc_bytes ?r) \<le> mb_rem b" using view_of_le [OF assms, of pos n] n(1) by linarith
      from chain_wf_garbage [OF _ b(2) this] 2 eq less.prems t show ?thesis
        by (auto simp: bytes_at_def b(2) set_mbuf_def)
    next
      case 3
      from view_of_ok [OF assms 3(2)] have r: "pos + n \<le> length buf" "uc_bytes ?r = bytes_at buf pos n" by auto
      then have "length (uc_bytes ?r) = n" by (simp add: length_bytes_at)
      from chain_wf_fill [OF _ b(2) this n(1,3)] t
      have c2: "chain_wf ?c2" "chain_bytes ?c2 = chain_bytes c @ bytes_at buf pos n" using r by auto
      have "buffers ?c2 \<noteq> []" using b(2) by (simp add: set_mbuf_def)
      moreover have "len - (pos + n) < len - pos" "pos + n \<le> len" using 3 n(2) less.prems(3) by auto
      moreover have "write_stream_loop heap src len (pos + n) ?c2 = (st, w, c')"
        using eq 3 less.prems(4) by simp
      ultimately have IH: "chain_wf c' \<and> buffers c' \<noteq> [] \<and> pos + n \<le> w \<and> w \<le> len \<and>
          (pos + n < w \<longrightarrow> w \<le> length buf) \<and>
          chain_bytes c' = chain_bytes ?c2 @ bytes_at buf (pos + n) (w - (pos + n))"
        using less.hyps c2(1) by blast
      then have "bytes_at buf pos (w - pos) = bytes_at buf pos n @ bytes_at buf (pos + n) (w - (pos + n))"
        using bytes_at_append [of buf pos n "w - (pos + n)"] by simp
      with IH c2(2) r(1) show ?thesis by auto
    qed
  qed
qed

lemma chain_new_wf: "chain_wf MBufChain_new" "chain_bytes MBufChain_new = []"
  by (simp_all add: MBufChain_new_def chain_wf_def chain_shape_def off_ok_def chain_bytes_def bytes_from_def)

text \<open>\<open>WriteStream\<close> fails to get a first buffer, or runs the loop on a chain with the same contents.\<close>

definition stream_finish :: "zx_status \<times> nat \<times> mbuf_chain \<Rightarrow> zx_status \<times> nat \<times> mbuf_chain" where
  "stream_finish = (\<lambda>(status, pos, c). if status \<noteq> ZX_OK then (status, pos, c)
     else if pos = 0 then (ZX_ERR_SHOULD_WAIT, 0, c) else (ZX_OK, pos, c))"

lemma WriteStream_start:
  assumes wf: "chain_wf c"
  obtains (full) c1 where "fst (AllocMBuf heap c) = None" "WriteStream heap src len c = (ZX_ERR_SHOULD_WAIT, 0, c1)"
    "chain_wf c1" "chain_bytes c1 = chain_bytes c"
  | (loop) c1 where "WriteStream heap src len c = stream_finish (write_stream_loop heap src len 0 c1)"
    "chain_wf c1" "buffers c1 \<noteq> []" "chain_bytes c1 = chain_bytes c" "chain_size c1 = chain_size c"
proof (cases "write_cursor c")
  case (Some i)
  have "buffers c \<noteq> []" using wf Some by (auto simp: chain_wf_def chain_shape_def)
  with Some wf show thesis by (intro loop [of c]) (auto simp: WriteStream_def stream_finish_def)
next
  case None
  have empty: "buffers c = []" "read_cursor_off c = 0" and shape: "chain_shape c"
    using wf None by (auto simp: chain_wf_def chain_shape_def off_ok_def split: if_splits)
  obtain r c1 where alloc: "AllocMBuf heap c = (r, c1)" by fastforce
  note a = AllocMBuf_shape [OF shape alloc]
  show thesis
  proof (cases r)
    case no: None
    with None alloc a wf show thesis
      by (intro full [of c1]) (auto simp: WriteStream_def chain_wf_def chain_bytes_def)
  next
    case (Some b)
    let ?c = "c1\<lparr>write_cursor := Some (mb_id b), buffers := b # buffers c1\<rparr>"
    have fresh: "fresh_for b c1" using a Some by blast
    have shape': "chain_shape ?c" using fresh a empty by (auto simp: chain_shape_def fresh_for_def)
    have bytes: "chain_bytes ?c = []" "chain_bytes c = []"
      using fresh a empty by (auto simp: chain_bytes_def bytes_from_def fresh_for_def mb_bytes_def)
    have wf1: "chain_wf ?c"
      using wf shape' bytes a empty unfolding chain_wf_def by (simp add: off_ok_def)
    with None Some alloc a bytes show thesis
      by (intro loop [of ?c]) (auto simp: WriteStream_def stream_finish_def)
  qed
qed

lemma WriteStream_appends:
  assumes view: "view_of buf src" and wf: "chain_wf c" and call: "WriteStream heap src len c = (st, w, c')"
  shows "chain_wf c' \<and> w \<le> len \<and> w \<le> length buf \<and> chain_bytes c' = chain_bytes c @ take w buf"
  using wf
proof (cases rule: WriteStream_start [where heap = heap and src = src and len = len])
  case (full c1)
  with call show ?thesis by simp
next
  case (loop c1)
  obtain st1 w1 c2 where l: "write_stream_loop heap src len 0 c1 = (st1, w1, c2)" by (metis prod_cases3)
  with loop(1) call have "w = w1" "c' = c2" by (auto simp: stream_finish_def split: if_splits)
  with write_stream_loop_appends [OF view loop(2,3) _ l] loop(4) show ?thesis
    by (cases "w1 = 0") (auto simp: bytes_at_def)
qed

section \<open>Reading a stream\<close>

definition read_inv :: "nat \<Rightarrow> mbuf_chain \<Rightarrow> bool" where
  "read_inv ro c \<longleftrightarrow> chain_shape c \<and> off_ok ro (buffers c) \<and> chain_size c = length (bytes_from ro (buffers c))"

lemma pop_mbuf_shape:
  assumes "chain_shape c" and "buffers c = b # bs"
  shows "chain_shape (pop_mbuf c)"
proof -
  let ?b = "b\<lparr>mb_len := 0, mb_pkt_len := 0\<rparr>"
  have pop: "pop_mbuf c = c\<lparr>buffers := bs, freelist := ?b # freelist c,
      write_cursor := (if bs = [] then None else write_cursor c)\<rparr>"
  proof (cases "bs = []")
    case True
    then have "write_cursor c = Some (mb_id b)" using assms by (simp add: chain_shape_def)
    with True assms(2) show ?thesis by (simp add: pop_mbuf_def FreeMBuf_def)
  next
    case False
    then have "last bs \<in> set bs" by simp
    then have "write_cursor c \<noteq> Some (mb_id b)" using assms False by (force simp: chain_shape_def)
    with False assms(2) show ?thesis by (simp add: pop_mbuf_def FreeMBuf_def)
  qed
  have "mbuf_ok ?b" using assms by (simp add: chain_shape_def mbuf_ok_def)
  then show ?thesis using assms unfolding pop chain_shape_def by simp
qed

lemma pop_mbuf_frame [simp]:
  "read_cursor_off (pop_mbuf c) = read_cursor_off c" "chain_size (pop_mbuf c) = chain_size c"
  by (simp_all add: pop_mbuf_def FreeMBuf_def Let_def)

lemma chain_shape_size [simp]: "chain_shape (c\<lparr>chain_size := n\<rparr>) = chain_shape c"
  by (simp add: chain_shape_def)

lemma shape_mbuf_ok: "chain_shape c \<Longrightarrow> b \<in> set (buffers c) \<Longrightarrow> mbuf_ok b"
  by (simp add: chain_shape_def)

lemma bytes_from_Cons:
  "mbuf_ok b \<Longrightarrow> ro \<le> mb_len b \<Longrightarrow>
   bytes_from ro (b # bs) = bytes_at (mb_data b) ro (mb_len b - ro) @ bytes_from 0 bs"
  by (simp add: bytes_from_def mb_bytes_def bytes_at_def mbuf_ok_def drop_take)

lemma bytes_at_split: "m \<le> n \<Longrightarrow> bytes_at xs p n = bytes_at xs p m @ bytes_at xs (p + m) (n - m)"
  using bytes_at_append [of xs p m "n - m"] by simp

text \<open>One iteration of a stream read takes a prefix of the bytes, or fails and takes nothing.\<close>

lemma read_chunk_stream:
  assumes inv: "read_inv ro c" and "pos < len" and bufs: "buffers c = b # bs"
    and call: "read_chunk dst len False pos ro c = (r, pos1, off2, c2)"
  defines "bytes \<equiv> bytes_from ro (buffers c)"
  shows "read_inv off2 c2 \<and> read_cursor_off c2 = read_cursor_off c \<and> pos \<le> pos1 \<and> pos1 \<le> len \<and>
    r = dst pos (take (min (mb_len b - ro) (len - pos)) bytes) \<and>
    pos1 = (if uc_status r = ZX_OK then pos + min (mb_len b - ro) (len - pos) else pos) \<and>
    bytes_from off2 (buffers c2) = drop (pos1 - pos) bytes \<and> min (mb_len b - ro) (len - pos) \<le> length bytes"
proof -
  define n where "n = min (mb_len b - ro) (len - pos)"
  define r' where "r' = dst pos (take n bytes)"
  have shape: "chain_shape c" and ro: "ro \<le> mb_len b" and size: "chain_size c = length bytes"
    using inv bufs by (auto simp: read_inv_def off_ok_def bytes_def)
  have ok: "mbuf_ok b" using shape bufs by (simp add: chain_shape_def)
  have bytes: "bytes = bytes_at (mb_data b) ro (mb_len b - ro) @ bytes_from 0 bs"
    unfolding bytes_def bufs by (rule bytes_from_Cons [OF ok ro])
  have len: "length (bytes_at (mb_data b) ro (mb_len b - ro)) = mb_len b - ro"
    using ok ro by (intro length_bytes_at) (simp add: mbuf_ok_def)
  have n: "n \<le> mb_len b - ro" "n \<le> len - pos" "n \<le> length bytes" unfolding bytes using len by (auto simp: n_def)
  have head: "bytes_at (mb_data b) ro n = take n bytes"
    unfolding bytes using n(1) len by (simp add: bytes_at_def)
  have eq: "read_chunk dst len False pos ro c =
    (if (if uc_status r' = ZX_OK then ro + n else ro) = mb_len b
     then (r', if uc_status r' = ZX_OK then pos + n else pos, 0,
           pop_mbuf (if uc_status r' = ZX_OK then c\<lparr>chain_size := chain_size c - n\<rparr> else c))
     else (r', if uc_status r' = ZX_OK then pos + n else pos, if uc_status r' = ZX_OK then ro + n else ro,
           if uc_status r' = ZX_OK then c\<lparr>chain_size := chain_size c - n\<rparr> else c))"
    unfolding read_chunk_def Let_def bufs list.sel n_def [symmetric] head r'_def [symmetric] by simp
  have lens: "length (bytes_from 0 bs) = length bytes - (mb_len b - ro)" unfolding bytes using len by simp
  have "read_inv off2 c2 \<and> read_cursor_off c2 = read_cursor_off c \<and> r = r' \<and>
    pos1 = (if uc_status r' = ZX_OK then pos + n else pos) \<and>
    bytes_from off2 (buffers c2) = drop (pos1 - pos) bytes"
  proof (cases "(if uc_status r' = ZX_OK then ro + n else ro) = mb_len b")
    case True
    define k where "k = (if uc_status r' = ZX_OK then n else 0)"
    have k: "mb_len b = ro + k" using True by (auto simp: k_def)
    have "(r, pos1, off2, c2) = (r', pos + k, 0, pop_mbuf (c\<lparr>chain_size := chain_size c - k\<rparr>))"
      using call eq True by (auto simp: k_def)
    moreover have "drop k bytes = bytes_from 0 bs" using k bytes len by simp
    moreover have "off_ok 0 bs" by (cases bs) (auto simp: off_ok_def)
    ultimately show ?thesis
      using pop_mbuf_shape [of "c\<lparr>chain_size := chain_size c - k\<rparr>" b bs] shape size bufs lens k
      by (auto simp: read_inv_def k_def)
  next
    case False
    define k where "k = (if uc_status r' = ZX_OK then n else 0)"
    have "(r, pos1, off2, c2) = (r', pos + k, ro + k, c\<lparr>chain_size := chain_size c - k\<rparr>)"
      using call eq False by (auto simp: k_def)
    moreover have "bytes_from (ro + k) (b # bs) = drop k bytes"
      by (simp only: bytes_def bufs bytes_from_def drop_drop add.commute)
    moreover have "ro + k \<le> mb_len b" using n(1) ro by (auto simp: k_def)
    ultimately show ?thesis using size bufs shape by (auto simp: read_inv_def off_ok_def k_def)
  qed
  moreover have "pos \<le> (if uc_status r' = ZX_OK then pos + n else pos)"
    "(if uc_status r' = ZX_OK then pos + n else pos) \<le> len" using n(2) \<open>pos < len\<close> by auto
  ultimately show ?thesis using n(3) unfolding n_def [symmetric] r'_def by simp
qed

lemma read_loop_stream:
  assumes "user_out_wf dst"
  shows "read_inv ro c \<Longrightarrow> pos \<le> len \<Longrightarrow> bytes = bytes_from ro (buffers c) \<Longrightarrow>
    chain_read_loop dst len False pos ro c = (st, outp, p, ro', c') \<Longrightarrow>
    read_inv ro' c' \<and> read_cursor_off c' = read_cursor_off c \<and> pos \<le> p \<and> p \<le> len \<and>
    p - pos \<le> length bytes \<and> bytes_from ro' (buffers c') = drop (p - pos) bytes \<and>
    take (p - pos) outp = take (p - pos) bytes \<and>
    (st = ZX_OK \<longrightarrow> outp = take (len - pos) bytes \<and> p - pos = min (len - pos) (length bytes))"
proof (induction "len + length (buffers c) - pos" arbitrary: pos ro c st outp p ro' c' bytes rule: less_induct)
  case less
  show ?case
  proof (cases "pos < len \<and> buffers c \<noteq> []")
    case False
    then have "chain_read_loop dst len False pos ro c = (ZX_OK, [], pos, ro, c)"
      by (subst chain_read_loop.simps) auto
    moreover have "buffers c = [] \<longrightarrow> bytes = []" using less.prems(3) by (simp add: bytes_from_def)
    ultimately show ?thesis using False less.prems by auto
  next
    case True
    then obtain b bs where bufs: "buffers c = b # bs" by (cases "buffers c") auto
    have off: "ro \<le> mb_len (hd (buffers c))" using less.prems(1) bufs by (simp add: read_inv_def off_ok_def)
    obtain r pos1 off2 c2 where ch: "read_chunk dst len False pos ro c = (r, pos1, off2, c2)" by (metis prod_cases4)
    define n where "n = min (mb_len b - ro) (len - pos)"
    note chunk = read_chunk_stream [OF less.prems(1) _ bufs ch, folded less.prems(3) n_def]
    obtain st1 out1 p1 ro1 c1 where rest: "chain_read_loop dst len False pos1 off2 c2 = (st1, out1, p1, ro1, c1)"
      by (metis prod_cases5)
    have eq: "chain_read_loop dst len False pos ro c =
        (if uc_status r = ZX_OK then (st1, uc_bytes r @ out1, p1, ro1, c1)
         else (uc_status r, uc_bytes r, pos1, off2, c2))"
      using True off ch rest by (subst chain_read_loop.simps) simp
    show ?thesis
    proof (cases "uc_status r = ZX_OK")
      case False
      with chunk True eq less.prems(4) show ?thesis by auto
    next
      case ok: True
      with chunk True have pos1: "pos1 = pos + n" "pos1 \<le> len" "read_inv off2 c2" "n \<le> length bytes"
        "bytes_from off2 (buffers c2) = drop n bytes" "uc_bytes r = take n bytes"
        "read_cursor_off c2 = read_cursor_off c"
        using user_out_wf_bytes [OF assms] by auto
      have res: "(st, outp, p, ro', c') = (st1, take n bytes @ out1, p1, ro1, c1)"
        using eq less.prems(4) ok pos1(6) by simp
      have "len + length (buffers c2) - pos1 < len + length (buffers c) - pos"
        using read_chunk_measure [OF ch [symmetric] ok _ _ off] True pos1(2) by simp
      note IH = less.hyps [OF this pos1(3,2) pos1(5) [symmetric] rest]
      define q where "q = p1 - pos1"
      have q: "p1 - pos = n + q" "len - pos = n + (len - pos1)" using IH pos1(1,2) by (auto simp: q_def)
      have eqs: "st = st1" "outp = take n bytes @ out1" "p = p1" "ro' = ro1" "c' = c1" using res by auto
      have "take (n + q) (take n bytes @ out1) = take n bytes @ take q out1"
        using pos1(4) by (simp add: min_absorb2)
      also have "take q out1 = take q (drop n bytes)" using IH by (simp add: q_def)
      finally have "take (n + q) (take n bytes @ out1) = take (n + q) bytes" by (simp add: take_add)
      moreover have "read_inv ro1 c1" "read_cursor_off c1 = read_cursor_off c" "p1 \<le> len"
        and full: "st1 = ZX_OK \<longrightarrow> out1 = take (len - pos1) (drop n bytes) \<and> q = min (len - pos1) (length bytes - n)"
        using IH pos1(7) unfolding q_def by simp_all
      moreover have "bytes_from ro1 (buffers c1) = drop (n + q) bytes" using IH by (simp add: q_def add.commute)
      moreover have "pos \<le> p1" "n + q \<le> length bytes" using IH pos1(1,4) unfolding q_def by auto
      moreover have "st1 = ZX_OK \<longrightarrow> take n bytes @ out1 = take (n + (len - pos1)) bytes \<and>
          n + q = min (n + (len - pos1)) (length bytes)"
        using full pos1(4) by (auto simp: min_def take_add)
      ultimately show ?thesis unfolding eqs q by blast
    qed
  qed
qed

lemma chain_shape_off [simp]: "chain_shape (c\<lparr>read_cursor_off := k\<rparr>) = chain_shape c"
  by (simp add: chain_shape_def)

lemma Read_stream:
  assumes "user_out_wf dst" and wf: "chain_wf c" and call: "chain_Read dst len False c = (st, outp, n, c')"
  shows "chain_wf c' \<and> n \<le> len \<and> n \<le> length (chain_bytes c) \<and> chain_bytes c' = drop n (chain_bytes c) \<and>
    take n outp = take n (chain_bytes c) \<and>
    (st = ZX_OK \<longrightarrow> outp = take len (chain_bytes c) \<and> n = min len (length (chain_bytes c)))"
proof (cases "chain_size c = 0")
  case True
  then have "chain_bytes c = []" using wf by (simp add: chain_wf_def)
  with True call wf show ?thesis by (auto simp: chain_Read_def)
next
  case False
  obtain st1 out1 p1 ro1 c1 where
    loop: "chain_read_loop dst len False 0 (read_cursor_off c) c = (st1, out1, p1, ro1, c1)" by (metis prod_cases5)
  have res: "(st, outp, n, c') = (st1, out1, p1, c1\<lparr>read_cursor_off := ro1\<rparr>)"
    using call False loop by (simp add: chain_Read_def)
  have inv: "read_inv (read_cursor_off c) c" using wf by (simp add: chain_wf_def read_inv_def chain_bytes_def)
  note r = read_loop_stream [OF assms(1) inv _ refl loop]
  have "chain_wf (c1\<lparr>read_cursor_off := ro1\<rparr>)"
    using r wf unfolding chain_wf_def read_inv_def chain_bytes_def by auto
  with r res show ?thesis by (auto simp: chain_bytes_def)
qed

text \<open>Peeking runs the same copies as reading, without taking the buffers off the chain.\<close>

lemma peek_loop_read_loop:
  "off_ok ro (buffers c) \<Longrightarrow>
   peek_loop dst len pos ro (buffers c) =
     (case chain_read_loop dst len dg pos ro c of (st, outp, p, ro', c') \<Rightarrow> (st, outp, p))"
proof (induction "len + length (buffers c) - pos" arbitrary: pos ro c rule: less_induct)
  case less
  show ?case
  proof (cases "pos < len \<and> buffers c \<noteq> []")
    case False
    then show ?thesis by (cases "buffers c") (simp_all add: chain_read_loop.simps)
  next
    case True
    then obtain b bs where bufs: "buffers c = b # bs" by (cases "buffers c") auto
    have off: "ro \<le> mb_len b" using less.prems bufs by (simp add: off_ok_def)
    define n where "n = min (mb_len b - ro) (len - pos)"
    define r where "r = dst pos (bytes_at (mb_data b) ro n)"
    obtain r' pos1 off2 c2 where ch: "read_chunk dst len dg pos ro c = (r', pos1, off2, c2)" by (metis prod_cases4)
    have n: "n = mb_len b - ro \<or> n = len - pos" by (auto simp: n_def min_def)
    have chunk: "r' = r" "pos1 = (if uc_status r = ZX_OK then pos + n else pos)"
      "uc_status r = ZX_OK \<longrightarrow> off2 = 0 \<and> buffers c2 = bs \<or> ro + n \<noteq> mb_len b"
      using ch unfolding read_chunk_def Let_def bufs list.sel n_def [symmetric] r_def [symmetric]
      by (auto simp: bufs split: if_splits)
    have peek: "peek_loop dst len pos ro (buffers c) = (if uc_status r = ZX_OK
        then (case peek_loop dst len (pos + n) 0 bs of (st, outp, p) \<Rightarrow> (st, uc_bytes r @ outp, p))
        else (uc_status r, uc_bytes r, pos))"
      using True by (simp add: bufs Let_def r_def n_def)
    have read: "chain_read_loop dst len dg pos ro c = (if uc_status r = ZX_OK
        then (case chain_read_loop dst len dg pos1 off2 c2 of (st, outp, p, ro', c') \<Rightarrow> (st, uc_bytes r @ outp, p, ro', c'))
        else (uc_status r, uc_bytes r, pos1, off2, c2))"
      using True off ch chunk(1) bufs by (subst chain_read_loop.simps) simp
    show ?thesis
    proof (cases "uc_status r = ZX_OK")
      case False
      then show ?thesis using chunk(2) unfolding peek read by simp
    next
      case ok: True
      then have pos1: "pos1 = pos + n" using chunk(2) by simp
      show ?thesis
      proof (cases "ro + n = mb_len b")
        case True
        with chunk(3) ok have c2: "off2 = 0" "buffers c2 = bs" by auto
        have "len + length (buffers c2) - pos1 < len + length (buffers c) - pos"
          using c2 bufs \<open>pos < len \<and> _\<close> pos1 by simp
        moreover have "off_ok 0 (buffers c2)" by (cases "buffers c2") (auto simp: off_ok_def)
        ultimately have "peek_loop dst len pos1 0 (buffers c2) =
            (case chain_read_loop dst len dg pos1 0 c2 of (st, outp, p, ro', c') \<Rightarrow> (st, outp, p))"
          by (rule less.hyps)
        with ok c2 pos1 show ?thesis unfolding peek read by (simp add: split_beta)
      next
        case False
        with n off have "pos + n = len" using \<open>pos < len \<and> _\<close> by auto
        then have "peek_loop dst len (pos + n) 0 bs = (ZX_OK, [], len)" by (cases bs) auto
        moreover have "chain_read_loop dst len dg pos1 off2 c2 = (ZX_OK, [], len, off2, c2)"
          using \<open>pos + n = len\<close> pos1 by (subst chain_read_loop.simps) simp
        ultimately show ?thesis using ok unfolding peek read by simp
      qed
    qed
  qed
qed

lemma peek_loop_sink_ok: "len \<le> m \<Longrightarrow> fst (peek_loop (user_sink m) len pos ro bs) = ZX_OK"
proof (induction bs arbitrary: pos ro)
  case (Cons b bs)
  let ?n = "min (mb_len b - ro) (len - pos)"
  have "length (bytes_at (mb_data b) ro ?n) \<le> ?n" unfolding bytes_at_def length_take by linarith
  then have "pos < len \<Longrightarrow> pos + length (bytes_at (mb_data b) ro ?n) \<le> m" using Cons.prems by linarith
  then show ?case using Cons by (auto simp: Let_def user_sink_ok split_beta)
qed simp

lemma Read_sink_ok:
  assumes "chain_wf c" and "len \<le> m"
  shows "fst (chain_Read (user_sink m) len dg c) = ZX_OK"
proof -
  let ?len = "if dg \<and> len > mb_pkt_len (hd (buffers c)) then mb_pkt_len (hd (buffers c)) else len"
  have "fst (peek_loop (user_sink m) ?len 0 (read_cursor_off c) (buffers c)) = ZX_OK"
    using assms(2) by (intro peek_loop_sink_ok) auto
  moreover have "off_ok (read_cursor_off c) (buffers c)" using assms(1) by (simp add: chain_wf_def)
  ultimately have "fst (chain_read_loop (user_sink m) ?len dg 0 (read_cursor_off c) c) = ZX_OK"
    using peek_loop_read_loop [of "read_cursor_off c" c "user_sink m" ?len 0 dg] by (simp add: split_beta)
  then show ?thesis by (simp only: chain_Read_def Let_def split_beta fst_conv) simp
qed

lemma Read_stream_sink:
  assumes "chain_wf c" and "len \<le> m"
  obtains c' where "chain_Read (user_sink m) len False c =
      (ZX_OK, take len (chain_bytes c), min len (length (chain_bytes c)), c')"
    "chain_wf c'" "chain_bytes c' = drop len (chain_bytes c)"
proof -
  obtain st outp n c' where call: "chain_Read (user_sink m) len False c = (st, outp, n, c')" by (metis prod_cases4)
  have "st = ZX_OK" using Read_sink_ok [OF assms] call by (metis fst_conv)
  with Read_stream [OF user_sink_wf assms(1) call] call that [of c'] show thesis
    by (auto simp: min_def split: if_splits)
qed

text \<open>With memory and a readable buffer, a stream write takes everything that fits.\<close>

lemma stream_target_total:
  assumes "chain_wf c" and "buffers c \<noteq> []"
  shows "fst (stream_target (\<lambda>_. True) c) \<noteq> None"
proof -
  have "chain_shape c" using assms(1) by (simp add: chain_wf_def)
  then obtain bs l where "buffers c = bs @ [l]" "write_cursor c = Some (mb_id l)" "mb_id l \<notin> mb_id ` set bs"
    using shape_last [OF _ assms(2)] by metis
  then show ?thesis
    by (auto simp: stream_target_def mbuf_at_last AllocMBuf_def split: list.splits)
qed

lemma write_stream_loop_total:
  "chain_wf c \<Longrightarrow> buffers c \<noteq> [] \<Longrightarrow> pos \<le> len \<Longrightarrow> len \<le> length buf \<Longrightarrow>
   write_stream_loop (\<lambda>_. True) (user_buf buf) len pos c = (st, w, c') \<Longrightarrow>
   st = ZX_OK \<and> w = min len (pos + (kSizeMax - chain_size c))"
proof (induction "len - pos" arbitrary: pos c rule: less_induct)
  case less
  show ?case
  proof (cases "pos < len")
    case False
    with less.prems show ?thesis by (auto simp: write_stream_loop.simps)
  next
    case True
    obtain b c1 where target: "stream_target (\<lambda>_. True) c = (Some b, c1)"
      using stream_target_total [OF less.prems(1,2)] by (cases "stream_target (\<lambda>_. True) c") auto
    note t = stream_target_wf [OF less.prems(1,2) target]
    then obtain bs where b: "0 < mb_rem b" "buffers c1 = bs @ [b]" by blast
    define n where "n = stream_copy_len len pos b c1"
    have n: "n \<le> mb_rem b" "n \<le> len - pos" "chain_size c1 + n \<le> kSizeMax" "chain_size c1 = chain_size c"
      using t by (auto simp: n_def stream_copy_len_def chain_wf_def)
    let ?r = "user_buf buf pos n"
    have r: "uc_status ?r = ZX_OK" "uc_bytes ?r = bytes_at buf pos n" "length (uc_bytes ?r) = n"
      using n(2) less.prems(3,4) True by (simp_all add: user_buf_ok length_bytes_at)
    let ?c2 = "c1\<lparr>buffers := set_mbuf (b\<lparr>mb_data := overwrite (mb_data b) (mb_len b) (uc_bytes ?r),
        mb_len := mb_len b + n\<rparr>) (buffers c1), chain_size := chain_size c1 + n\<rparr>"
    have eq: "write_stream_loop (\<lambda>_. True) (user_buf buf) len pos c =
      (if n = 0 then (ZX_OK, pos, c1) else write_stream_loop (\<lambda>_. True) (user_buf buf) len (pos + n) ?c2)"
      using write_stream_loop_eq [OF True target n_def] t r(1) by (simp add: Let_def chain_wf_def)
    show ?thesis
    proof (cases "n = 0")
      case zero: True
      then have "kSizeMax \<le> chain_size c" using b(1) True n(3,4) by (auto simp: n_def stream_copy_len_def)
      with zero eq less.prems(5) True show ?thesis by auto
    next
      case False
      have c2: "chain_wf ?c2" "buffers ?c2 \<noteq> []"
        using chain_wf_fill [OF _ b(2) r(3) n(1,3)] t b(2) by (auto simp: set_mbuf_def)
      have "len - (pos + n) < len - pos" "pos + n \<le> len" using False n(2) True by auto
      moreover have "write_stream_loop (\<lambda>_. True) (user_buf buf) len (pos + n) ?c2 = (st, w, c')"
        using eq False less.prems(5) by simp
      ultimately have "st = ZX_OK \<and> w = min len (pos + n + (kSizeMax - chain_size ?c2))"
        using less.hyps c2 less.prems(4) by blast
      then show ?thesis using n(3,4) by auto
    qed
  qed
qed

lemma WriteStream_total:
  assumes wf: "chain_wf c" and call: "WriteStream (\<lambda>_. True) (user_buf buf) (length buf) c = (st, w, c')"
  shows "w = min (length buf) (kSizeMax - chain_size c) \<and> st = (if w = 0 then ZX_ERR_SHOULD_WAIT else ZX_OK)"
  using wf
proof (cases rule: WriteStream_start [where heap = "\<lambda>_. True" and src = "user_buf buf" and len = "length buf"])
  case (full c1)
  then show ?thesis by (auto simp: AllocMBuf_def split: list.splits)
next
  case (loop c1)
  obtain st1 w1 c2 where l: "write_stream_loop (\<lambda>_. True) (user_buf buf) (length buf) 0 c1 = (st1, w1, c2)"
    by (metis prod_cases3)
  from write_stream_loop_total [OF loop(2,3) _ _ l] have "st1 = ZX_OK" "w1 = min (length buf) (kSizeMax - chain_size c)"
    using loop(5) by auto
  with loop(1) l call show ?thesis by (auto simp: stream_finish_def split: if_splits)
qed

section \<open>Datagrams\<close>

text \<open>
  A packet is a buffer with its length in \<open>mb_pkt_len\<close> followed by the buffers where that field
  is zero; a chain in datagram mode is a sequence of packets.
\<close>

function dgrams_of :: "mbuf list \<Rightarrow> byte list list" where
  "dgrams_of [] = []"
| "dgrams_of (b # bs) =
     (mb_bytes b @ concat (map mb_bytes (takeWhile (\<lambda>x. mb_pkt_len x = 0) bs))) #
     dgrams_of (dropWhile (\<lambda>x. mb_pkt_len x = 0) bs)"
  by pat_completeness auto
termination
  by (relation "measure length") (auto simp: le_imp_less_Suc length_dropWhile_le)

function dgrams_ok :: "mbuf list \<Rightarrow> bool" where
  "dgrams_ok [] = True"
| "dgrams_ok (b # bs) =
     (0 < mb_pkt_len b \<and>
      mb_pkt_len b = length (mb_bytes b @ concat (map mb_bytes (takeWhile (\<lambda>x. mb_pkt_len x = 0) bs))) \<and>
      dgrams_ok (dropWhile (\<lambda>x. mb_pkt_len x = 0) bs))"
  by pat_completeness auto
termination
  by (relation "measure length") (auto simp: le_imp_less_Suc length_dropWhile_le)

definition chain_dgrams :: "mbuf_chain \<Rightarrow> byte list list" where
  "chain_dgrams c = dgrams_of (buffers c)"

definition dgram_wf :: "mbuf_chain \<Rightarrow> bool" where
  "dgram_wf c \<longleftrightarrow> chain_wf c \<and> dgrams_ok (buffers c) \<and> read_cursor_off c = 0"

lemma concat_dgrams: "concat (dgrams_of bs) = concat (map mb_bytes bs)"
proof (induction bs rule: dgrams_of.induct)
  case (2 b bs)
  have "concat (map mb_bytes bs) = concat (map mb_bytes (takeWhile (\<lambda>x. mb_pkt_len x = 0) bs)) @
      concat (map mb_bytes (dropWhile (\<lambda>x. mb_pkt_len x = 0) bs))"
    by (metis concat_append map_append takeWhile_dropWhile_id)
  with 2 show ?case by simp
qed simp

lemma dgrams_append:
  assumes "np = h # t" and "mb_pkt_len h \<noteq> 0"
  shows "dgrams_of (bs @ np) = dgrams_of bs @ dgrams_of np" and "dgrams_ok (bs @ np) = (dgrams_ok bs \<and> dgrams_ok np)"
proof -
  have split: "takeWhile (\<lambda>x. mb_pkt_len x = 0) (xs @ np) = takeWhile (\<lambda>x. mb_pkt_len x = 0) xs"
    "dropWhile (\<lambda>x. mb_pkt_len x = 0) (xs @ np) = dropWhile (\<lambda>x. mb_pkt_len x = 0) xs @ np" for xs
    using assms by (induction xs) auto
  show "dgrams_of (bs @ np) = dgrams_of bs @ dgrams_of np"
    by (induction bs rule: dgrams_of.induct) (simp_all add: split)
  show "dgrams_ok (bs @ np) = (dgrams_ok bs \<and> dgrams_ok np)"
    by (induction bs rule: dgrams_ok.induct) (simp_all add: split)
qed

text \<open>The invariant while \<open>WriteDatagram\<close> holds buffers that are in no list.\<close>

definition shape_with :: "mbuf list \<Rightarrow> mbuf_chain \<Rightarrow> bool" where
  "shape_with ls c \<longleftrightarrow> chain_shape c \<and> distinct (map mb_id ls) \<and>
     mb_id ` set ls \<inter> mb_id ` (set (buffers c) \<union> set (freelist c)) = {} \<and>
     (\<forall>l\<in>set ls. mbuf_ok l) \<and> (\<forall>i\<in>mb_id ` set ls. i < allocs c)"

lemma shape_withD:
  assumes "shape_with ls c"
  shows "chain_shape c" and "distinct (map mb_id ls)" and "\<forall>l\<in>set ls. mbuf_ok l"
    and "mb_id ` set ls \<inter> mb_id ` (set (buffers c) \<union> set (freelist c)) = {}"
    and "\<forall>i\<in>mb_id ` set ls. i < allocs c"
  using assms unfolding shape_with_def by blast+

definition same_contents :: "mbuf_chain \<Rightarrow> mbuf_chain \<Rightarrow> bool" where
  "same_contents c c' \<longleftrightarrow> buffers c' = buffers c \<and> read_cursor_off c' = read_cursor_off c \<and>
     chain_size c' = chain_size c \<and> write_cursor c' = write_cursor c"

lemma same_contents_trans: "same_contents a b \<Longrightarrow> same_contents b c \<Longrightarrow> same_contents a c"
  by (simp add: same_contents_def)

lemma same_contents_wf: "same_contents c c' \<Longrightarrow> chain_shape c' \<Longrightarrow> dgram_wf c \<Longrightarrow>
    dgram_wf c' \<and> chain_dgrams c' = chain_dgrams c"
  by (auto simp: same_contents_def dgram_wf_def chain_wf_def chain_bytes_def chain_dgrams_def)

lemma shape_with_ids:
  assumes "shape_with ls c" and "map mb_id ls' = map mb_id ls" and "\<forall>l\<in>set ls'. mbuf_ok l"
  shows "shape_with ls' c"
proof -
  have "mb_id ` set ls' = mb_id ` set ls" using assms(2) by (metis list.set_map)
  with assms show ?thesis by (simp add: shape_with_def)
qed

lemma disjoint_subset: "A \<inter> X = {} \<Longrightarrow> Y \<subseteq> X \<Longrightarrow> A \<inter> Y = {}"
  by blast

lemma AllocMBuf_with:
  assumes "shape_with ls c" and "AllocMBuf heap c = (r, c1)"
  shows "same_contents c c1 \<and>
    (case r of None \<Rightarrow> shape_with ls c1
     | Some b \<Rightarrow> shape_with (b # ls) c1 \<and> mb_len b = 0 \<and> mb_pkt_len b = 0)"
proof -
  note s = shape_withD [OF assms(1)]
  note a = AllocMBuf_shape [OF s(1) assms(2)]
  have "mb_id ` (set (buffers c1) \<union> set (freelist c1)) \<subseteq> mb_id ` (set (buffers c) \<union> set (freelist c))"
    using a by auto
  from disjoint_subset [OF s(4) this]
  have apart: "mb_id ` set ls \<inter> mb_id ` (set (buffers c1) \<union> set (freelist c1)) = {}" .
  have small: "\<forall>i\<in>mb_id ` set ls. i < allocs c1" using s(5) a by (auto intro: less_le_trans)
  have ls: "shape_with ls c1" using s a apart small by (simp add: shape_with_def)
  show ?thesis
  proof (cases r)
    case None
    with a ls show ?thesis by (simp add: same_contents_def)
  next
    case (Some b)
    then have fresh: "fresh_for b c1" using a by blast
    have "mb_id b \<notin> mb_id ` set ls"
    proof (cases "freelist c")
      case Nil
      then have "mb_id b = allocs c" using assms(2) Some by (auto simp: AllocMBuf_def MBuf_new_def split: if_splits)
      then show ?thesis using s(5) by fastforce
    next
      case (Cons x xs)
      then have "b \<in> set (freelist c)" using assms(2) Some by (auto simp: AllocMBuf_def)
      then have "mb_id b \<in> mb_id ` (set (buffers c) \<union> set (freelist c))" by simp
      with s(4) show ?thesis by (simp only: disjoint_iff) metis
    qed
    moreover have "mb_id b \<notin> mb_id ` (set (buffers c1) \<union> set (freelist c1))"
      using fresh by (simp add: fresh_for_def)
    ultimately have "shape_with (b # ls) c1"
      using s(2,3) a apart small fresh unfolding shape_with_def by (simp add: fresh_for_def)
    with Some a fresh show ?thesis by (simp add: same_contents_def fresh_for_def)
  qed
qed

lemma alloc_mbufs_with:
  "shape_with ls c \<Longrightarrow> \<forall>l\<in>set ls. mb_len l = 0 \<and> mb_pkt_len l = 0 \<Longrightarrow>
   alloc_mbufs heap n ls c = (ok, ls', c') \<Longrightarrow>
   same_contents c c' \<and> shape_with ls' c' \<and> (\<forall>l\<in>set ls'. mb_len l = 0 \<and> mb_pkt_len l = 0) \<and>
   (ok \<longrightarrow> length ls' = length ls + n)"
proof (induction n arbitrary: ls c)
  case 0
  then show ?case by (auto simp: same_contents_def)
next
  case (Suc n)
  obtain r c1 where alloc: "AllocMBuf heap c = (r, c1)" by fastforce
  note w = AllocMBuf_with [OF Suc.prems(1) alloc]
  show ?case
  proof (cases r)
    case None
    with Suc.prems alloc w show ?thesis by auto
  next
    case (Some b)
    with Suc.prems alloc have rest: "alloc_mbufs heap n (b # ls) c1 = (ok, ls', c')" by simp
    from Suc.IH [OF _ _ rest] w Some Suc.prems(2) show ?thesis by (auto intro: same_contents_trans)
  qed
qed

lemma free_mbufs_with:
  "shape_with ls c \<Longrightarrow> chain_shape (free_mbufs ls c) \<and> same_contents c (free_mbufs ls c)"
proof (induction ls arbitrary: c)
  case Nil
  then show ?case by (simp add: shape_with_def same_contents_def)
next
  case (Cons l ls)
  have "shape_with ls (FreeMBuf l c)"
    using Cons.prems by (auto simp: shape_with_def FreeMBuf_def chain_shape_def mbuf_ok_def)
  moreover have "same_contents c (FreeMBuf l c)" by (simp add: same_contents_def FreeMBuf_def)
  ultimately show ?case using Cons.IH by (auto intro: same_contents_trans)
qed

lemma fill_mbufs_bytes:
  assumes "view_of buf src"
  shows "\<forall>l\<in>set ls. mbuf_ok l \<and> mb_len l = 0 \<and> mb_pkt_len l = 0 \<Longrightarrow>
    fill_mbufs src len pos ls = (ok, ls') \<Longrightarrow> pos \<le> len \<Longrightarrow> len \<le> pos + length ls * kPayloadSize \<Longrightarrow>
    (\<forall>l\<in>set ls'. mbuf_ok l \<and> mb_pkt_len l = 0) \<and> map mb_id ls' = map mb_id ls \<and>
    (ok \<longrightarrow> concat (map mb_bytes ls') = bytes_at buf pos (len - pos) \<and> (pos < len \<longrightarrow> len \<le> length buf))"
proof (induction ls arbitrary: pos ls' ok)
  case Nil
  then show ?case by (auto simp: bytes_at_def)
next
  case (Cons l ls)
  define n where "n = min kPayloadSize (len - pos)"
  define l1 where "l1 = l\<lparr>mb_data := overwrite (mb_data l) 0 (uc_bytes (src pos n))\<rparr>"
  have l: "mbuf_ok l" "mb_len l = 0" "mb_pkt_len l = 0" using Cons.prems(1) by auto
  have le: "length (uc_bytes (src pos n)) \<le> n" by (rule view_of_le [OF assms])
  have l1: "mbuf_ok l1" "mb_len l1 = 0" "mb_pkt_len l1 = 0" "mb_id l1 = mb_id l"
    using l le by (auto simp: l1_def mbuf_ok_def n_def length_overwrite)
  have step: "fill_mbufs src len pos (l # ls) = (if uc_status (src pos n) \<noteq> ZX_OK then (False, l1 # ls)
      else (case fill_mbufs src len (pos + n) ls of (ok, bs') \<Rightarrow> (ok, l1\<lparr>mb_len := mb_len l + n\<rparr> # bs')))"
    unfolding fill_mbufs.simps Let_def n_def [symmetric] l1_def [symmetric] ..
  show ?case
  proof (cases "uc_status (src pos n) = ZX_OK")
    case False
    with Cons.prems step l1 show ?thesis by auto
  next
    case True
    from view_of_ok [OF assms True] have r: "pos + n \<le> length buf" "uc_bytes (src pos n) = bytes_at buf pos n" by auto
    obtain ok1 ls1 where rest: "fill_mbufs src len (pos + n) ls = (ok1, ls1)" by fastforce
    have res: "ok = ok1" "ls' = l1\<lparr>mb_len := mb_len l + n\<rparr> # ls1" using step True rest Cons.prems(2) by auto
    have "pos + n \<le> len" "len \<le> pos + n + length ls * kPayloadSize"
      using Cons.prems(3,4) by (auto simp: n_def min_def)
    note IH = Cons.IH [OF _ rest this]
    have bytes: "mb_bytes (l1\<lparr>mb_len := mb_len l + n\<rparr>) = bytes_at buf pos n"
      using l r length_bytes_at [OF r(1)] by (simp add: mb_bytes_def l1_def overwrite_def)
    have okl: "mbuf_ok (l1\<lparr>mb_len := mb_len l + n\<rparr>)" using l1(1) l(2) by (simp add: mbuf_ok_def n_def)
    have split: "bytes_at buf pos n @ bytes_at buf (pos + n) (len - (pos + n)) = bytes_at buf pos (len - pos)"
      using bytes_at_append [of buf pos n "len - (pos + n)"] \<open>pos + n \<le> len\<close> by simp
    have tail: "(\<forall>l\<in>set ls1. mbuf_ok l \<and> mb_pkt_len l = 0) \<and> map mb_id ls1 = map mb_id ls \<and>
        (ok \<longrightarrow> concat (map mb_bytes ls1) = bytes_at buf (pos + n) (len - (pos + n)) \<and>
          (pos + n < len \<longrightarrow> len \<le> length buf))"
      unfolding res(1) by (rule IH) (use Cons.prems(1) in simp)
    have "concat (map mb_bytes ls') = bytes_at buf pos (len - pos)" if ok
      using tail that unfolding res(2) by (simp add: bytes split)
    moreover have "len \<le> length buf" if ok
      using tail that r(1) \<open>pos + n \<le> len\<close> by (cases "pos + n = len") auto
    ultimately show ?thesis using tail okl l1(3,4) unfolding res(2) by simp
  qed
qed

lemma link_mbufs_with:
  "shape_with ls c \<Longrightarrow> chain_shape (link_mbufs ls c) \<and> buffers (link_mbufs ls c) = buffers c @ ls \<and>
   read_cursor_off (link_mbufs ls c) = read_cursor_off c \<and> chain_size (link_mbufs ls c) = chain_size c"
proof (induction ls arbitrary: c)
  case Nil
  then show ?case by (simp add: shape_with_def)
next
  case (Cons l ls)
  let ?c = "c\<lparr>buffers := (case write_cursor c of None \<Rightarrow> l # buffers c
                   | Some i \<Rightarrow> insert_after i l (buffers c)), write_cursor := Some (mb_id l)\<rparr>"
  have shape: "chain_shape c" using Cons.prems by (simp add: shape_with_def)
  have bufs: "buffers ?c = buffers c @ [l]"
  proof (cases "buffers c = []")
    case True
    then show ?thesis using shape by (simp add: chain_shape_def)
  next
    case False
    with shape obtain bs x where "buffers c = bs @ [x]" "write_cursor c = Some (mb_id x)" "mb_id x \<notin> mb_id ` set bs"
      using shape_last by metis
    then show ?thesis by (simp add: insert_after_last)
  qed
  then have c: "?c = c\<lparr>buffers := buffers c @ [l], write_cursor := Some (mb_id l)\<rparr>" by simp
  have "shape_with ls ?c"
    unfolding c using Cons.prems by (auto simp: shape_with_def chain_shape_def)
  from Cons.IH [OF this] bufs show ?case by simp
qed

lemma packet_buffers_enough: "0 < len \<Longrightarrow> len \<le> (1 + (len - 1) div kPayloadSize) * kPayloadSize"
  using dividend_less_div_times [OF kPayloadSize_pos, of "len - 1"] by simp

lemma dgrams_single:
  assumes "\<forall>l\<in>set t. mb_pkt_len l = 0"
  shows "dgrams_of (h # t) = [concat (map mb_bytes (h # t))]"
    and "dgrams_ok (h # t) \<longleftrightarrow> 0 < mb_pkt_len h \<and> mb_pkt_len h = length (concat (map mb_bytes (h # t)))"
proof -
  have split: "takeWhile (\<lambda>x. mb_pkt_len x = 0) t = t" "dropWhile (\<lambda>x. mb_pkt_len x = 0) t = []"
    using assms by (simp_all add: takeWhile_eq_all_conv dropWhile_eq_Nil_conv)
  show "dgrams_of (h # t) = [concat (map mb_bytes (h # t))]"
    "dgrams_ok (h # t) \<longleftrightarrow> 0 < mb_pkt_len h \<and> mb_pkt_len h = length (concat (map mb_bytes (h # t)))"
    by (simp_all add: split)
qed

lemma link_packet:
  assumes wf: "dgram_wf c" and same: "same_contents c c1" and sh: "shape_with (h # t) c1"
    and t: "\<forall>l\<in>set t. mb_pkt_len l = 0" and bytes: "concat (map mb_bytes (h # t)) = d"
    and d: "0 < length d" "length d + chain_size c \<le> kSizeMax"
  defines "c2 \<equiv> link_mbufs (h\<lparr>mb_pkt_len := length d\<rparr> # t) c1"
  defines "c' \<equiv> c2\<lparr>chain_size := chain_size c2 + length d\<rparr>"
  shows "dgram_wf c' \<and> chain_dgrams c' = chain_dgrams c @ [d]"
proof -
  let ?np = "h\<lparr>mb_pkt_len := length d\<rparr> # t"
  have b: "concat (map mb_bytes ?np) = d" using bytes by (simp add: mb_bytes_def)
  have "shape_with ?np c1"
    by (rule shape_with_ids [OF sh]) (use shape_withD(3) [OF sh] in \<open>auto simp: mbuf_ok_def\<close>)
  note l = link_mbufs_with [OF this, folded c2_def]
  have wfc: "chain_wf c" "dgrams_ok (buffers c)" "read_cursor_off c = 0" using wf by (auto simp: dgram_wf_def)
  have bufs: "buffers c' = buffers c @ ?np" and ro: "read_cursor_off c' = 0"
    using l same wfc(3) by (auto simp: c'_def same_contents_def)
  have size: "chain_size c' = chain_size c + length d" using l same by (simp add: c'_def same_contents_def)
  have dg: "dgrams_of (buffers c') = dgrams_of (buffers c) @ [d]" "dgrams_ok (buffers c')"
  proof -
    note app = dgrams_append [of ?np "h\<lparr>mb_pkt_len := length d\<rparr>" t "buffers c", OF refl]
    note single = dgrams_single [OF t, of "h\<lparr>mb_pkt_len := length d\<rparr>", unfolded b]
    show "dgrams_of (buffers c') = dgrams_of (buffers c) @ [d]" using app(1) d(1) by (simp only: bufs single) simp
    have "dgrams_ok ?np" unfolding single(2) using d(1) by simp
    then show "dgrams_ok (buffers c')" using app(2) d(1) wfc(2) by (simp add: bufs del: dgrams_ok.simps)
  qed
  have "chain_bytes c' = chain_bytes c @ d"
    using b wfc(3) by (simp add: chain_bytes_def bytes_from_def bufs ro)
  moreover have "off_ok 0 (buffers c')" by (cases "buffers c'") (auto simp: off_ok_def)
  moreover have "chain_shape c'" using l by (simp add: c'_def)
  ultimately have "chain_wf c'" using wfc(1) size d(2) ro by (simp add: chain_wf_def)
  with dg ro show ?thesis by (simp add: dgram_wf_def chain_dgrams_def)
qed

lemma WriteDatagram_atomic:
  assumes view: "view_of buf src" and wf: "dgram_wf c" and call: "WriteDatagram heap src len c = (st, w, c')"
  shows "dgram_wf c' \<and> (if st = ZX_OK then w = len \<and> 0 < len \<and> len \<le> length buf \<and>
      chain_dgrams c' = chain_dgrams c @ [take len buf]
    else w = 0 \<and> chain_dgrams c' = chain_dgrams c)"
proof (cases "len = 0 \<or> len > kSizeMax \<or> len + chain_size c > kSizeMax")
  case True
  with call wf show ?thesis by (auto simp: WriteDatagram_def split: if_splits)
next
  case False
  let ?need = "1 + (len - 1) div kPayloadSize"
  obtain ok ls c1 where alloc: "alloc_mbufs heap ?need [] c = (ok, ls, c1)" by (metis prod_cases3)
  have "shape_with [] c" using wf by (simp add: shape_with_def dgram_wf_def chain_wf_def)
  from alloc_mbufs_with [OF this _ alloc] have a: "same_contents c c1" "shape_with ls c1"
    "\<forall>l\<in>set ls. mb_len l = 0 \<and> mb_pkt_len l = 0" "ok \<longrightarrow> length ls = ?need" by auto
  have undo: "dgram_wf (free_mbufs ls' c1) \<and> chain_dgrams (free_mbufs ls' c1) = chain_dgrams c"
    if "shape_with ls' c1" for ls'
    using free_mbufs_with [OF that] same_contents_wf [OF same_contents_trans [OF a(1)]] wf by blast
  show ?thesis
  proof (cases ok)
    case no: False
    with False call alloc undo [OF a(2)] show ?thesis by (auto simp: WriteDatagram_def)
  next
    case True
    obtain ok2 ls' where fill: "fill_mbufs src len 0 ls = (ok2, ls')" by fastforce
    have "len \<le> 0 + length ls * kPayloadSize" using packet_buffers_enough [of len] a(4) True False by simp
    moreover have "\<forall>l\<in>set ls. mbuf_ok l \<and> mb_len l = 0 \<and> mb_pkt_len l = 0"
      using a(3) shape_withD(3) [OF a(2)] by blast
    moreover have le0: "0 \<le> len" by simp
    ultimately have f: "\<forall>l\<in>set ls'. mbuf_ok l \<and> mb_pkt_len l = 0" "map mb_id ls' = map mb_id ls"
      "ok2 \<longrightarrow> concat (map mb_bytes ls') = bytes_at buf 0 len \<and> len \<le> length buf"
      using fill_mbufs_bytes [OF view _ fill le0] False unfolding diff_zero by blast+
    have sh: "shape_with ls' c1" by (rule shape_with_ids [OF a(2) f(2)]) (use f(1) in blast)
    show ?thesis
    proof (cases ok2)
      case no: False
      with False True call alloc fill undo [OF sh] show ?thesis by (auto simp: WriteDatagram_def)
    next
      case ok2: True
      have "length ls' = ?need" using f(2) a(4) True by (metis length_map)
      then obtain h t where ls': "ls' = h # t" by (cases ls') auto
      have d: "concat (map mb_bytes (h # t)) = take len buf" "len \<le> length buf"
        using f(3) ok2 by (simp_all add: ls' bytes_at_def)
      have t: "\<forall>l\<in>set t. mb_pkt_len l = 0" using f(1) ls' by simp
      have "0 < length (take len buf)" "length (take len buf) + chain_size c \<le> kSizeMax" using False d(2) by auto
      note link = link_packet [OF wf a(1) sh [unfolded ls'] t d(1) this]
      have len: "length (take len buf) = len" using d(2) by simp
      have "(st, w, c') = (ZX_OK, len, (link_mbufs (h\<lparr>mb_pkt_len := len\<rparr> # t) c1)
          \<lparr>chain_size := chain_size (link_mbufs (h\<lparr>mb_pkt_len := len\<rparr> # t) c1) + len\<rparr>)"
        using False True ok2 call alloc fill ls' by (auto simp: WriteDatagram_def Let_def simp del: link_mbufs.simps)
      with link [unfolded len] d(2) False show ?thesis by (simp del: link_mbufs.simps)
    qed
  qed
qed
text \<open>Reading a datagram: the copy loop pops buffers of the packet, the drain pops the rest.\<close>

lemma read_loop_dgram:
  assumes "user_out_wf dst"
  shows "chain_shape c \<Longrightarrow> buffers c = p @ rest \<Longrightarrow> pos \<le> len \<Longrightarrow>
    len - pos \<le> length (concat (map mb_bytes p)) \<Longrightarrow>
    chain_read_loop dst len True pos 0 c = (st, outp, q, ro', c') \<Longrightarrow>
    ro' = 0 \<and> chain_shape c' \<and> read_cursor_off c' = read_cursor_off c \<and> q \<le> len \<and>
    (\<exists>p1 p2. p = p1 @ p2 \<and> buffers c' = p2 @ rest \<and> (pos < len \<longrightarrow> p1 \<noteq> []) \<and>
      chain_size c' = chain_size c - length (concat (map mb_bytes p1))) \<and>
    (st = ZX_OK \<longrightarrow> outp = take (len - pos) (concat (map mb_bytes p)) \<and> q = len)"
proof (induction p arbitrary: c pos st outp q ro' c')
  case Nil
  then show ?case by (auto simp: chain_read_loop.simps)
next
  case (Cons b p)
  show ?case
  proof (cases "pos < len")
    case False
    then have "chain_read_loop dst len True pos 0 c = (ZX_OK, [], pos, 0, c)"
      by (subst chain_read_loop.simps) simp
    with False Cons.prems show ?thesis by auto
  next
    case True
    have ok: "mbuf_ok b" using Cons.prems(1,2) by (simp add: chain_shape_def)
    define n where "n = min (mb_len b) (len - pos)"
    define r where "r = dst pos (take n (mb_bytes b))"
    have bytes: "bytes_at (mb_data b) 0 n = take n (mb_bytes b)"
      by (simp add: bytes_at_def mb_bytes_def n_def min_def)
    define k where "k = (if uc_status r = ZX_OK then n else 0)"
    let ?c = "pop_mbuf (c\<lparr>chain_size := chain_size c - k - (mb_len b - k)\<rparr>)"
    have chunk: "read_chunk dst len True pos 0 c = (r, pos + k, 0, ?c)"
      unfolding read_chunk_def Let_def Cons.prems(2) append_Cons list.sel diff_zero n_def [symmetric] bytes
        r_def [symmetric] by (simp add: k_def)
    have c: "chain_shape ?c" "buffers ?c = p @ rest" "read_cursor_off ?c = read_cursor_off c"
      "chain_size ?c = chain_size c - mb_len b"
      using pop_mbuf_shape [of "c\<lparr>chain_size := chain_size c - k - (mb_len b - k)\<rparr>" b "p @ rest"] Cons.prems(1,2)
      by (auto simp: k_def n_def)
    obtain st1 out1 q1 ro1 c1 where tail: "chain_read_loop dst len True (pos + k) 0 ?c = (st1, out1, q1, ro1, c1)"
      by (metis prod_cases5)
    have eq: "chain_read_loop dst len True pos 0 c = (if uc_status r = ZX_OK then (st1, uc_bytes r @ out1, q1, ro1, c1)
        else (uc_status r, uc_bytes r, pos + k, 0, ?c))"
      using True Cons.prems(2) chunk tail by (subst chain_read_loop.simps) simp
    show ?thesis
    proof (cases "uc_status r = ZX_OK")
      case False
      then have "(st, outp, q, ro', c') = (uc_status r, uc_bytes r, pos, 0, ?c)" "k = 0"
        using eq Cons.prems(5) by (auto simp: k_def)
      moreover have "\<exists>p1 p2. b # p = p1 @ p2 \<and> buffers ?c = p2 @ rest \<and> (pos < len \<longrightarrow> p1 \<noteq> []) \<and>
          chain_size ?c = chain_size c - length (concat (map mb_bytes p1))"
        using c ok by (intro exI [of _ "[b]"] exI [of _ p]) simp
      ultimately show ?thesis using c False True by auto
    next
      case good: True
      then have k: "k = n" by (simp add: k_def)
      have rb: "uc_bytes r = take n (mb_bytes b)" using user_out_wf_bytes [OF assms] good unfolding r_def by blast
      have n: "pos + k \<le> len" "len - (pos + k) \<le> length (concat (map mb_bytes p))"
        using True Cons.prems(4) ok unfolding k by (auto simp: n_def min_def)
      note IH = Cons.IH [OF c(1,2) n tail]
      have res: "(st, outp, q, ro', c') = (st1, take n (mb_bytes b) @ out1, q1, ro1, c1)"
        using eq Cons.prems(5) good rb by simp
      have take: "take (len - pos) (concat (map mb_bytes (b # p))) =
          take n (mb_bytes b) @ take (len - (pos + k)) (concat (map mb_bytes p))"
        using ok True unfolding k by (auto simp: n_def min_def)
      from IH obtain p1 p2 where p: "p = p1 @ p2" "buffers c1 = p2 @ rest"
        "chain_size c1 = chain_size ?c - length (concat (map mb_bytes p1))" by blast
      have "\<exists>p1 p2. b # p = p1 @ p2 \<and> buffers c1 = p2 @ rest \<and> (pos < len \<longrightarrow> p1 \<noteq> []) \<and>
          chain_size c1 = chain_size c - length (concat (map mb_bytes p1))"
        using p c(4) ok by (intro exI [of _ "b # p1"] exI [of _ p2]) simp
      with IH res c(3) take show ?thesis by simp
    qed
  qed
qed

lemma drain_packet_rest:
  "chain_shape c \<Longrightarrow> buffers c = p @ rest \<Longrightarrow> \<forall>b\<in>set p. mb_pkt_len b = 0 \<Longrightarrow>
   rest = [] \<or> mb_pkt_len (hd rest) \<noteq> 0 \<Longrightarrow> drain_packet 0 c = (ro', c') \<Longrightarrow>
   ro' = 0 \<and> chain_shape c' \<and> buffers c' = rest \<and> read_cursor_off c' = read_cursor_off c \<and>
   chain_size c' = chain_size c - length (concat (map mb_bytes p))"
proof (induction p arbitrary: c)
  case Nil
  then show ?case by (auto simp: drain_packet.simps)
next
  case (Cons b p)
  let ?c = "pop_mbuf (c\<lparr>chain_size := chain_size c - mb_len b\<rparr>)"
  have ok: "mbuf_ok b" using Cons.prems(1,2) by (simp add: chain_shape_def)
  have "chain_shape ?c"
    using pop_mbuf_shape [of "c\<lparr>chain_size := chain_size c - mb_len b\<rparr>" b "p @ rest"] Cons.prems(1,2) by simp
  moreover have "drain_packet 0 ?c = (ro', c')"
    using Cons.prems by (simp add: drain_packet.simps [of 0 c])
  ultimately show ?case using Cons.IH [of ?c] Cons.prems ok by simp
qed

lemma Read_dgram:
  assumes dst: "user_out_wf dst" and wf: "dgram_wf c" and len: "0 < len"
    and call: "chain_Read dst len True c = (st, outp, n, c')"
  shows "dgram_wf c' \<and> chain_dgrams c' = tl (chain_dgrams c) \<and>
    (st = ZX_OK \<longrightarrow> outp = (case chain_dgrams c of [] \<Rightarrow> [] | d # _ \<Rightarrow> take len d) \<and> n = length outp)"
proof (cases "buffers c")
  case Nil
  then have "chain_size c = 0" using wf by (simp add: dgram_wf_def chain_wf_def chain_bytes_def bytes_from_def)
  with Nil call wf show ?thesis by (auto simp: chain_Read_def chain_dgrams_def)
next
  case (Cons h bs)
  define t where "t = takeWhile (\<lambda>x. mb_pkt_len x = 0) bs"
  define rest where "rest = dropWhile (\<lambda>x. mb_pkt_len x = 0) bs"
  define d where "d = concat (map mb_bytes (h # t))"
  have bufs: "buffers c = (h # t) @ rest" by (simp add: Cons t_def rest_def)
  have dg: "chain_dgrams c = d # dgrams_of rest" by (simp add: chain_dgrams_def Cons d_def t_def rest_def)
  have "dgrams_ok (h # bs)" using wf Cons by (simp add: dgram_wf_def del: dgrams_ok.simps)
  then have h: "0 < mb_pkt_len h" "mb_pkt_len h = length d" "dgrams_ok rest"
    unfolding dgrams_ok.simps t_def [symmetric] rest_def [symmetric] d_def by auto
  have t: "\<forall>b\<in>set t. mb_pkt_len b = 0" by (auto simp: t_def dest: set_takeWhileD)
  have r: "rest = [] \<or> mb_pkt_len (hd rest) \<noteq> 0" unfolding rest_def
    using hd_dropWhile [of "\<lambda>x. mb_pkt_len x = 0" bs] by blast
  have cw: "chain_shape c" "read_cursor_off c = 0" "chain_size c = length (d @ concat (map mb_bytes rest))"
      "chain_size c \<le> kSizeMax"
    using wf by (auto simp: dgram_wf_def chain_wf_def chain_bytes_def bytes_from_def bufs d_def)
  let ?len = "min len (length d)"
  obtain st1 out1 q ro1 c1 where loop: "chain_read_loop dst ?len True 0 0 c = (st1, out1, q, ro1, c1)"
    by (metis prod_cases5)
  have "?len - 0 \<le> length (concat (map mb_bytes (h # t)))" by (simp add: d_def)
  note l = read_loop_dgram [OF dst cw(1) bufs _ this loop]
  have pos: "0 < ?len" using len h by simp
  then obtain p1 p2 where p: "h # t = p1 @ p2" "buffers c1 = p2 @ rest" "p1 \<noteq> []"
    "chain_size c1 = chain_size c - length (concat (map mb_bytes p1))" "ro1 = 0" "chain_shape c1"
    "read_cursor_off c1 = 0" using l cw(2) by auto
  have p2: "\<forall>b\<in>set p2. mb_pkt_len b = 0" using p(1,3) t by (cases p1) auto
  obtain ro2 c2 where drain: "drain_packet 0 c1 = (ro2, c2)" by fastforce
  note e = drain_packet_rest [OF p(6,2) p2 r drain]
  have split: "d = concat (map mb_bytes p1) @ concat (map mb_bytes p2)" unfolding d_def p(1) by simp
  have size: "chain_size c2 = length (concat (map mb_bytes rest))" using e p(4) cw(3) split by simp
  have "(if len > mb_pkt_len h then mb_pkt_len h else len) = ?len" using h(2) by auto
  moreover have "chain_size c \<noteq> 0" using cw(3) h by simp
  ultimately have res: "(st, outp, n, c') = (st1, out1, q, c2\<lparr>read_cursor_off := ro2\<rparr>)"
    using call loop drain p(5) cw(2) unfolding chain_Read_def Let_def Cons list.sel by simp
  have "off_ok 0 rest" by (cases rest) (auto simp: off_ok_def)
  then have "dgram_wf c'"
    using res e size h(3) cw(3,4) by (simp add: dgram_wf_def chain_wf_def chain_bytes_def bytes_from_def)
  moreover have "chain_dgrams c' = dgrams_of rest" using res e by (simp add: chain_dgrams_def)
  moreover have "st1 = ZX_OK \<longrightarrow> out1 = take ?len d \<and> q = ?len" using l unfolding d_def diff_zero by blast
  then have "st1 = ZX_OK \<longrightarrow> out1 = take len d \<and> q = length out1" by (auto simp: min_def)
  ultimately show ?thesis using res dg by simp
qed

section \<open>Properties\<close>

text \<open>A stream write and a stream read as the two sides of a socket see them.\<close>

definition stream_push :: "(nat \<Rightarrow> bool) \<Rightarrow> mbuf_chain \<Rightarrow> byte list \<Rightarrow> nat \<times> mbuf_chain" where
  "stream_push heap c xs = (case WriteStream heap (user_buf xs) (length xs) c of (st, w, c') \<Rightarrow> (w, c'))"

definition stream_pop :: "mbuf_chain \<Rightarrow> nat \<Rightarrow> byte list \<times> mbuf_chain" where
  "stream_pop c k = (case chain_Read (user_sink k) k False c of (st, out, n, c') \<Rightarrow> (out, c'))"

interpretation stream_q: fifo_queue chain_wf chain_bytes "\<lambda>_ _. True" "\<lambda>_. ()" "stream_push heap" stream_pop
  for heap
proof
  fix c xs n c'
  assume "chain_wf c" "stream_push heap c xs = (n, c')"
  then show "chain_wf c' \<and> () = () \<and> n \<le> length xs \<and> chain_bytes c' = chain_bytes c @ take n xs"
    using WriteStream_appends [OF user_buf_view, of c heap xs "length xs"]
    by (auto simp: stream_push_def split: prod.splits)
next
  fix c k ys c'
  assume wf: "chain_wf c" and pop: "stream_pop c k = (ys, c')"
  obtain c1 where "chain_Read (user_sink k) k False c =
      (ZX_OK, take k (chain_bytes c), min k (length (chain_bytes c)), c1)" "chain_wf c1"
    "chain_bytes c1 = drop k (chain_bytes c)" by (rule Read_stream_sink [OF wf le_refl])
  with pop show "chain_wf c' \<and> () = () \<and> length ys \<le> k \<and> chain_bytes c = ys @ chain_bytes c'"
    by (auto simp: stream_pop_def)
qed

text \<open>One datagram is written, or read, at a time.\<close>

definition dgram_push :: "(nat \<Rightarrow> bool) \<Rightarrow> mbuf_chain \<Rightarrow> byte list list \<Rightarrow> nat \<times> mbuf_chain" where
  "dgram_push heap c ds = (case ds of [] \<Rightarrow> (0, c)
     | d # _ \<Rightarrow> (case WriteDatagram heap (user_buf d) (length d) c of
         (st, w, c') \<Rightarrow> (if st = ZX_OK then 1 else 0, c')))"

definition dgram_pop :: "mbuf_chain \<Rightarrow> nat \<Rightarrow> byte list list \<times> mbuf_chain" where
  "dgram_pop c k = (if k = 0 \<or> chain_size c = 0 then ([], c)
     else case chain_Read (user_sink kSizeMax) kSizeMax True c of (st, out, n, c') \<Rightarrow> ([out], c'))"

lemma dgram_size: "dgram_wf c \<Longrightarrow> chain_size c = length (concat (chain_dgrams c))"
  by (simp add: dgram_wf_def chain_wf_def chain_bytes_def chain_dgrams_def bytes_from_def concat_dgrams)

lemma dgram_pop_law:
  assumes wf: "dgram_wf c" and pop: "dgram_pop c k = (ys, c')"
  shows "dgram_wf c' \<and> length ys \<le> k \<and> chain_dgrams c = ys @ chain_dgrams c'"
proof (cases "k = 0 \<or> chain_size c = 0")
  case True
  with assms show ?thesis by (simp add: dgram_pop_def)
next
  case False
  obtain st outp n c1 where call: "chain_Read (user_sink kSizeMax) kSizeMax True c = (st, outp, n, c1)"
    by (metis prod_cases4)
  have ok: "st = ZX_OK" using Read_sink_ok [of c kSizeMax kSizeMax True] wf call by (simp add: dgram_wf_def)
  have len: "0 < kSizeMax" by (simp add: kSizeMax_def)
  note r = Read_dgram [OF user_sink_wf wf len call]
  obtain d ds where dg: "chain_dgrams c = d # ds" using False dgram_size [OF wf] by (cases "chain_dgrams c") auto
  have "length d \<le> kSizeMax" using dgram_size [OF wf] wf dg by (simp add: dgram_wf_def chain_wf_def)
  with r ok dg False call pop show ?thesis by (auto simp: dgram_pop_def)
qed

interpretation dgram_q: fifo_queue dgram_wf chain_dgrams "\<lambda>_ _. True" "\<lambda>_. ()" "dgram_push heap" dgram_pop
  for heap
proof
  fix c ds n c'
  assume "dgram_wf c" "dgram_push heap c ds = (n, c')"
  then show "dgram_wf c' \<and> () = () \<and> n \<le> length ds \<and> chain_dgrams c' = chain_dgrams c @ take n ds"
    using WriteDatagram_atomic [OF user_buf_view, of c heap "hd ds" "length (hd ds)"]
    by (cases ds) (auto simp: dgram_push_def split: prod.splits if_splits)
next
  fix c k ys c'
  assume "dgram_wf c" "dgram_pop c k = (ys, c')"
  then show "dgram_wf c' \<and> () = () \<and> length ys \<le> k \<and> chain_dgrams c = ys @ chain_dgrams c'"
    using dgram_pop_law by blast
qed

lemma chain_new_dgram: "dgram_wf MBufChain_new" "chain_dgrams MBufChain_new = []"
  using chain_new_wf(1) by (simp_all add: dgram_wf_def chain_dgrams_def MBufChain_new_def)

text \<open>
  A buffer chain used as a stream delivers its bytes in order. After any sequence of stream
  writes and reads on a new chain, and whichever allocations of buffers fail, the bytes accepted
  are those read so far followed by those still in the chain.
\<close>

theorem stream_in_order:
  assumes "queue_run (stream_push heap) stream_pop MBufChain_new ops = (accepted, outp, c')"
  shows "accepted = outp @ chain_bytes c'"
  using stream_q.run_in_order [OF chain_new_wf _ assms] by simp

theorem stream_in_order_witness:
  "\<exists>c'. queue_run (stream_push (\<lambda>_. True)) stream_pop MBufChain_new [Inl [1, 2, 3], Inr 2] =
     ([1, 2, 3], [1, 2], c') \<and> [1, 2, 3] = [1, 2] @ chain_bytes c'"
proof -
  obtain st w c1 where w: "WriteStream (\<lambda>_. True) (user_buf [1, 2, 3]) 3 MBufChain_new = (st, w, c1)"
    by (metis prod_cases3)
  have len: "length [1, 2, 3 :: byte] = 3" and big: "3 \<le> kSizeMax" "chain_size MBufChain_new = 0"
    by (simp_all add: MBufChain_new_def kSizeMax_def kPayloadSize_def)
  have n: "w = 3" using WriteStream_total [OF chain_new_wf(1), of "[1, 2, 3]"] w big unfolding len by auto
  have wf: "chain_wf c1" "chain_bytes c1 = [1, 2, 3]"
    using WriteStream_appends [OF user_buf_view chain_new_wf(1) w] chain_new_wf(2) n by auto
  obtain c2 where r: "chain_Read (user_sink 2) 2 False c1 =
      (ZX_OK, take 2 (chain_bytes c1), min 2 (length (chain_bytes c1)), c2)"
    by (rule Read_stream_sink [OF wf(1) le_refl, of 2])
  have run: "queue_run (stream_push (\<lambda>_. True)) stream_pop MBufChain_new [Inl [1, 2, 3], Inr 2] =
     ([1, 2, 3], [1, 2], c2)"
    using w n r wf by (simp add: stream_push_def stream_pop_def eval_nat_numeral)
  from stream_in_order [OF run] run show ?thesis by blast
qed

text \<open>
  C23. A buffer chain used for datagrams keeps their boundaries and order. After any sequence of
  datagram writes and whole-datagram reads on a new chain, whichever allocations fail, the
  datagrams accepted are those read so far followed by those still queued.
\<close>

theorem datagrams_in_order:
  assumes "queue_run (dgram_push heap) dgram_pop MBufChain_new ops = (accepted, outp, c')"
  shows "accepted = outp @ chain_dgrams c'"
  using dgram_q.run_in_order [OF chain_new_dgram _ assms] by simp

theorem datagrams_in_order_witness:
  "\<exists>accepted outp c'. queue_run (dgram_push (\<lambda>_. True)) dgram_pop MBufChain_new [Inl [[1, 2], [3]], Inr 1] =
     (accepted, outp, c') \<and> accepted = outp @ chain_dgrams c'"
  using datagrams_in_order [where heap = "\<lambda>_. True"] by (metis prod_cases3)

text \<open>
  A datagram is written whole or not at all, whatever the user memory and the allocator do.
  If \<open>WriteDatagram\<close> returns \<open>ZX_OK\<close>, the chain has gained exactly the datagram; on every
  error no datagram changed, the count is zero, and the invariant of the chain (distinct buffers,
  reset free buffers, cursor at the end, recorded size equal to the bytes held and at most the
  maximum) still holds. A later read of at least one byte gives a prefix of the first datagram
  and removes all of it, even when the copy to the user fails.
\<close>

theorem datagram_atomic:
  assumes "dgram_wf c" and "view_of buf src" and "WriteDatagram heap src len c = (st, w, c1)"
    and "user_out_wf dst" and "0 < n" and "chain_Read dst n True c1 = (st', outp, actual, c2)"
  shows "dgram_wf c1 \<and> dgram_wf c2 \<and>
    (if st = ZX_OK then w = len \<and> chain_dgrams c1 = chain_dgrams c @ [take len buf]
     else w = 0 \<and> chain_dgrams c1 = chain_dgrams c) \<and>
    chain_dgrams c2 = tl (chain_dgrams c1) \<and>
    (st' = ZX_OK \<and> chain_dgrams c1 \<noteq> [] \<longrightarrow> outp = take n (hd (chain_dgrams c1)) \<and> actual = length outp)"
proof -
  note w = WriteDatagram_atomic [OF assms(2,1,3)]
  then have wf: "dgram_wf c1" by blast
  note r = Read_dgram [OF assms(4) wf assms(5,6)]
  show ?thesis using w r by (cases "chain_dgrams c1") auto
qed

theorem datagram_atomic_witness:
  "\<exists>st w c1 st' outp actual c2.
     WriteDatagram (\<lambda>_. True) (user_buf [1, 2, 3]) 3 MBufChain_new = (st, w, c1) \<and>
     chain_Read (user_sink 2) 2 True c1 = (st', outp, actual, c2) \<and> chain_dgrams c2 = tl (chain_dgrams c1)"
proof -
  obtain st w c1 where w: "WriteDatagram (\<lambda>_. True) (user_buf [1, 2, 3]) 3 MBufChain_new = (st, w, c1)"
    by (metis prod_cases3)
  obtain st' outp actual c2 where r: "chain_Read (user_sink 2) 2 True c1 = (st', outp, actual, c2)"
    by (metis prod_cases4)
  have "chain_dgrams c2 = tl (chain_dgrams c1)"
    using datagram_atomic [OF chain_new_dgram(1) user_buf_view w user_sink_wf _ r] by simp
  with w r show ?thesis by blast
qed

text \<open>
  C24. Peeking is reading without consuming: on any well-formed chain, in stream and in datagram
  mode and for any user memory, \<open>Peek\<close> returns the status, the bytes and the count that \<open>Read\<close>
  would return.
\<close>

theorem peek_same_as_read:
  assumes "chain_wf c"
  shows "chain_Peek dst len datagram c =
    (case chain_Read dst len datagram c of (st, outp, n, c') \<Rightarrow> (st, outp, n))"
proof -
  have "off_ok (read_cursor_off c) (buffers c)" using assms by (simp add: chain_wf_def)
  note peek_loop_read_loop [OF this, of dst _ 0 datagram]
  then show ?thesis by (simp add: chain_Peek_def chain_Read_def Let_def split_beta)
qed

theorem peek_same_as_read_witness:
  "chain_Peek (user_sink 1) 1 False MBufChain_new = (ZX_OK, [], 0)"
  unfolding peek_same_as_read [OF chain_new_wf(1)] by (simp add: chain_Read_def MBufChain_new_def)

text \<open>
  A stream write into memory-backed buffers takes everything that fits: with a readable
  user buffer and successful allocations, \<open>WriteStream\<close> accepts exactly the smaller of the length
  offered and the free space, and reports \<open>ZX_ERR_SHOULD_WAIT\<close> only when that is nothing.
\<close>

theorem stream_write_fills:
  assumes "chain_wf c"
  shows "\<exists>c'. WriteStream (\<lambda>_. True) (user_buf buf) (length buf) c =
      (if buf = [] \<or> chain_size c = kSizeMax then ZX_ERR_SHOULD_WAIT else ZX_OK,
       min (length buf) (kSizeMax - chain_size c), c') \<and>
    chain_bytes c' = chain_bytes c @ take (kSizeMax - chain_size c) buf"
proof -
  obtain st w c' where call: "WriteStream (\<lambda>_. True) (user_buf buf) (length buf) c = (st, w, c')"
    by (metis prod_cases3)
  have le: "chain_size c \<le> kSizeMax" using assms by (simp add: chain_wf_def)
  from WriteStream_total [OF assms call] WriteStream_appends [OF user_buf_view assms call] call le
  show ?thesis by (auto simp: min_def)
qed

theorem stream_write_fills_witness:
  "\<exists>c'. WriteStream (\<lambda>_. True) (user_buf [7]) 1 MBufChain_new = (ZX_OK, 1, c') \<and> chain_bytes c' = [7]"
proof -
  have "chain_size MBufChain_new = 0" "0 < kSizeMax" "kSizeMax \<noteq> 0"
    by (simp_all add: MBufChain_new_def kSizeMax_def kPayloadSize_def)
  then show ?thesis using stream_write_fills [OF chain_new_wf(1), of "[7]"] chain_new_wf(2)
    by (auto simp: min_def)
qed

end
