(* ===== verification/Socket.thy ===== *)
theory Socket
  imports Peered MBuf
begin

text \<open>
  Sockets (\<^verbatim>\<open>kernel/object/socket_dispatcher.cc\<close>): each endpoint owns the chain of buffers its
  peer writes into, the thresholds of its own signals and the flag that reading is disabled. An
  operation is a function on the pair of endpoints, the one it is called on first. Allocation
  failures of the chain are the argument \<open>heap\<close>; an output parameter that is left untouched on an
  error is \<open>None\<close>.
\<close>

section \<open>State and operations\<close>

definition ZX_SOCKET_PEER_WRITE_DISABLED :: zx_signals where "ZX_SOCKET_PEER_WRITE_DISABLED = 2 ^ 4"
definition ZX_SOCKET_WRITE_DISABLED :: zx_signals where "ZX_SOCKET_WRITE_DISABLED = 2 ^ 5"
definition ZX_SOCKET_READ_THRESHOLD :: zx_signals where "ZX_SOCKET_READ_THRESHOLD = 2 ^ 10"
definition ZX_SOCKET_WRITE_THRESHOLD :: zx_signals where "ZX_SOCKET_WRITE_THRESHOLD = 2 ^ 11"

definition ZX_SOCKET_DATAGRAM :: u32 where "ZX_SOCKET_DATAGRAM = 1"
definition ZX_SOCKET_CREATE_MASK :: u32 where "ZX_SOCKET_CREATE_MASK = ZX_SOCKET_DATAGRAM"

definition ZX_SOCKET_DISPOSITION_WRITE_DISABLED :: u32 where "ZX_SOCKET_DISPOSITION_WRITE_DISABLED = 1"
definition ZX_SOCKET_DISPOSITION_WRITE_ENABLED :: u32 where "ZX_SOCKET_DISPOSITION_WRITE_ENABLED = 2"

datatype disposition = kNone | kWriteDisabled | kWriteEnabled

datatype read_type = kConsume | kPeek

record socket =
  sk_flags :: u32
  sk_data :: mbuf_chain
  read_threshold :: nat
  write_threshold :: nat
  read_disabled :: bool

type_synonym socket_pair = "socket endpoint \<times> socket endpoint"

definition Disposition_TryFrom :: "u32 \<Rightarrow> zx_status + disposition" where
  "Disposition_TryFrom d =
     (if d = 0 then Inr kNone
      else if d = ZX_SOCKET_DISPOSITION_WRITE_DISABLED then Inr kWriteDisabled
      else if d = ZX_SOCKET_DISPOSITION_WRITE_ENABLED then Inr kWriteEnabled
      else Inl ZX_ERR_INVALID_ARGS)"

definition SocketDispatcher_new :: "koid \<Rightarrow> zx_signals \<Rightarrow> u32 \<Rightarrow> socket endpoint" where
  "SocketDispatcher_new k starting_signals flags = PeeredDispatcher_new k starting_signals
     \<lparr>sk_flags = flags, sk_data = MBufChain_new, read_threshold = 0, write_threshold = 0,
      read_disabled = False\<rparr>"

definition SocketDispatcher_Create ::
  "(nat \<Rightarrow> bool) \<Rightarrow> koid \<Rightarrow> koid \<Rightarrow> u32 \<Rightarrow> zx_status + socket_pair" where
  "SocketDispatcher_Create alloc k0 k1 flags =
     (if flags AND NOT ZX_SOCKET_CREATE_MASK \<noteq> 0 then Inl ZX_ERR_INVALID_ARGS
      else let starting_signals = ZX_OBJECT_WRITABLE
      in if \<not> alloc 0 then Inl ZX_ERR_NO_MEMORY
         else if \<not> alloc 1 then Inl ZX_ERR_NO_MEMORY
         else if \<not> alloc 2 then Inl ZX_ERR_NO_MEMORY
         else Inr (InitPeer k1 (SocketDispatcher_new k0 starting_signals flags),
                   InitPeer k0 (SocketDispatcher_new k1 starting_signals flags)))"

definition Socket_on_zero_handles_locked :: "socket endpoint \<Rightarrow> socket endpoint" where
  "Socket_on_zero_handles_locked e = e"

definition Socket_OnPeerZeroHandlesLocked :: "socket endpoint \<Rightarrow> socket endpoint" where
  "Socket_OnPeerZeroHandlesLocked e = ep_update_state ZX_OBJECT_WRITABLE ZX_OBJECT_PEER_CLOSED e"

text \<open>The four masks are \<open>clear\<close>, \<open>set\<close>, and the same for the peer.\<close>

definition ExtendMasksFromDisposition ::
  "disposition \<Rightarrow> zx_signals \<times> zx_signals \<times> zx_signals \<times> zx_signals
    \<Rightarrow> zx_signals \<times> zx_signals \<times> zx_signals \<times> zx_signals" where
  "ExtendMasksFromDisposition d = (\<lambda>(clear_mask, set_mask, clear_mask_peer, set_mask_peer).
     case d of
       kWriteDisabled \<Rightarrow> (clear_mask OR ZX_OBJECT_WRITABLE, set_mask OR ZX_SOCKET_WRITE_DISABLED,
                          clear_mask_peer, set_mask_peer OR ZX_SOCKET_PEER_WRITE_DISABLED)
     | kWriteEnabled \<Rightarrow> (clear_mask OR ZX_SOCKET_WRITE_DISABLED, set_mask OR ZX_OBJECT_WRITABLE,
                         clear_mask_peer OR ZX_SOCKET_PEER_WRITE_DISABLED, set_mask_peer)
     | kNone \<Rightarrow> (clear_mask, set_mask, clear_mask_peer, set_mask_peer))"

definition set_body :: "('b \<Rightarrow> 'b) \<Rightarrow> 'b endpoint \<Rightarrow> 'b endpoint" where
  "set_body f e = e\<lparr>body := f (body e)\<rparr>"

definition UpdateReadStatus :: "disposition \<Rightarrow> socket endpoint \<Rightarrow> socket endpoint" where
  "UpdateReadStatus disposition_peer e =
     (case disposition_peer of
        kWriteDisabled \<Rightarrow> set_body (read_disabled_update (\<lambda>_. True)) e
      | kWriteEnabled \<Rightarrow> set_body (read_disabled_update (\<lambda>_. False)) e
      | kNone \<Rightarrow> e)"

definition socket_is_full :: "socket endpoint \<Rightarrow> bool" where
  "socket_is_full e = chain_is_full (sk_data (body e))"

definition socket_is_empty :: "socket endpoint \<Rightarrow> bool" where
  "socket_is_empty e = chain_is_empty (sk_data (body e))"

definition IsDispositionStateValid :: "disposition \<Rightarrow> socket endpoint \<Rightarrow> bool" where
  "IsDispositionStateValid disposition_peer e \<longleftrightarrow>
     \<not> (disposition_peer = kWriteEnabled \<and> \<not> socket_is_empty e \<and>
        signals (disp e) AND ZX_SOCKET_PEER_WRITE_DISABLED \<noteq> 0)"

definition SetDisposition ::
  "disposition \<Rightarrow> disposition \<Rightarrow> socket_pair \<Rightarrow> zx_status \<times> socket_pair" where
  "SetDisposition disposition disposition_peer = (\<lambda>(self, peer).
     if disposition = kNone \<and> disposition_peer = kNone then (ZX_OK, self, peer)
     else
       let (clear_mask, set_mask, clear_mask_peer, set_mask_peer) =
             ExtendMasksFromDisposition disposition (0, 0, 0, 0)
       in if \<not> IsDispositionStateValid disposition_peer self then (ZX_ERR_BAD_STATE, self, peer)
          else if peer_linked self \<and> \<not> IsDispositionStateValid disposition peer
          then (ZX_ERR_BAD_STATE, self, peer)
          else if peer_linked self then
            let (clear_mask_peer, set_mask_peer, clear_mask, set_mask) =
                  ExtendMasksFromDisposition disposition_peer
                    (clear_mask_peer, set_mask_peer, clear_mask, set_mask);
                peer1 = ep_update_state clear_mask_peer set_mask_peer (UpdateReadStatus disposition peer)
            in (ZX_OK, ep_update_state clear_mask set_mask (UpdateReadStatus disposition_peer self), peer1)
          else (ZX_OK, ep_update_state clear_mask set_mask (UpdateReadStatus disposition_peer self), peer))"

text \<open>
  \<open>or_if P m acc\<close> is the statement \<open>if (P) acc |= m\<close>; \<open>ep_update_if P\<close> is an update guarded by
  \<open>P\<close> and by a mask being nonzero.
\<close>

definition or_if :: "bool \<Rightarrow> zx_signals \<Rightarrow> zx_signals \<Rightarrow> zx_signals" where
  "or_if P m acc = (if P then acc OR m else acc)"

definition ep_update_if :: "bool \<Rightarrow> zx_signals \<Rightarrow> zx_signals \<Rightarrow> 'b endpoint \<Rightarrow> 'b endpoint" where
  "ep_update_if P c s e = (if P \<and> (c \<noteq> 0 \<or> s \<noteq> 0) then ep_update_state c s e else e)"

text \<open>\<open>WriteSelfLocked\<close> runs on the endpoint that receives the data; its peer is the writer.\<close>

definition socket_datagram :: "socket \<Rightarrow> bool" where
  "socket_datagram s \<longleftrightarrow> sk_flags s AND ZX_SOCKET_DATAGRAM \<noteq> 0"

definition Socket_WriteSelfLocked ::
  "(nat \<Rightarrow> bool) \<Rightarrow> user_in \<Rightarrow> nat \<Rightarrow> socket_pair \<Rightarrow> zx_status \<times> nat option \<times> socket_pair" where
  "Socket_WriteSelfLocked heap src len = (\<lambda>(self, peer).
     if socket_is_full self then (ZX_ERR_SHOULD_WAIT, None, self, peer)
     else
       let was_empty = socket_is_empty self;
           (status, st, data') =
             (if socket_datagram (body self) then WriteDatagram heap src len (sk_data (body self))
              else WriteStream heap src len (sk_data (body self)));
           self1 = set_body (sk_data_update (\<lambda>_. data')) self;
           set = or_if (st > 0 \<and> read_threshold (body self) > 0 \<and>
                          chain_size data' \<ge> read_threshold (body self)) ZX_SOCKET_READ_THRESHOLD
                   (or_if (st > 0 \<and> was_empty) ZX_OBJECT_READABLE 0);
           self2 = ep_update_if (st > 0) 0 set self1;
           clear = or_if (peer_linked self \<and> chain_is_full data') ZX_OBJECT_WRITABLE
                     (or_if (st > 0 \<and> peer_linked self \<and> write_threshold (body peer) > 0 \<and>
                             kSizeMax - chain_size data' < write_threshold (body peer))
                        ZX_SOCKET_WRITE_THRESHOLD 0);
           peer1 = ep_update_if True clear 0 peer
       in (status, if status = ZX_OK then Some st else None, self2, peer1))"

definition Socket_Write ::
  "(nat \<Rightarrow> bool) \<Rightarrow> user_in \<Rightarrow> nat \<Rightarrow> socket_pair \<Rightarrow> zx_status \<times> nat option \<times> socket_pair" where
  "Socket_Write heap src len = (\<lambda>(self, peer).
     if \<not> peer_linked self then (ZX_ERR_PEER_CLOSED, None, self, peer)
     else if signals (disp self) AND ZX_SOCKET_WRITE_DISABLED \<noteq> 0
     then (ZX_ERR_BAD_STATE, None, self, peer)
     else if len = 0 then (ZX_OK, Some 0, self, peer)
     else if len \<noteq> len mod 2 ^ 32 then (ZX_ERR_INVALID_ARGS, None, self, peer)
     else let (status, n, peer', self') = Socket_WriteSelfLocked heap src len (peer, self)
          in (status, n, self', peer'))"

definition Socket_Read ::
  "read_type \<Rightarrow> user_out \<Rightarrow> nat \<Rightarrow> socket_pair \<Rightarrow> zx_status \<times> byte list \<times> nat option \<times> socket_pair" where
  "Socket_Read type dst len = (\<lambda>(self, peer).
     if len \<noteq> len mod 2 ^ 32 then (ZX_ERR_INVALID_ARGS, [], None, self, peer)
     else if socket_is_empty self then
       (if \<not> peer_linked self then ZX_ERR_PEER_CLOSED
        else if read_disabled (body self) then ZX_ERR_BAD_STATE
        else ZX_ERR_SHOULD_WAIT, [], None, self, peer)
     else if type = kPeek then
       (let (status, outp, actual) = chain_Peek dst len (socket_datagram (body self)) (sk_data (body self))
        in (status, outp, if status = ZX_OK then Some actual else None, self, peer))
     else
       let was_full = socket_is_full self;
           (status, outp, actual, data') =
             chain_Read dst len (socket_datagram (body self)) (sk_data (body self));
           self1 = set_body (sk_data_update (\<lambda>_. data')) self;
           clear = or_if (chain_is_empty data') ZX_OBJECT_READABLE
                     (or_if (read_threshold (body self) > 0 \<and> chain_size data' < read_threshold (body self))
                        ZX_SOCKET_READ_THRESHOLD 0);
           self2 = ep_update_if True clear 0 self1;
           set = or_if (was_full \<and> actual > 0) ZX_OBJECT_WRITABLE
                   (or_if (write_threshold (body peer) > 0 \<and>
                           kSizeMax - chain_size data' \<ge> write_threshold (body peer))
                      ZX_SOCKET_WRITE_THRESHOLD 0);
           peer1 = ep_update_if (peer_linked self) 0 set peer
       in (status, outp, if status = ZX_OK then Some actual else None, self2, peer1))"

record socket_info =
  si_options :: u32
  rx_buf_max :: nat
  rx_buf_size :: nat
  rx_buf_available :: nat
  tx_buf_max :: nat
  tx_buf_size :: nat

definition Socket_GetInfo :: "socket_pair \<Rightarrow> socket_info" where
  "Socket_GetInfo = (\<lambda>(self, peer).
     \<lparr>si_options = sk_flags (body self), rx_buf_max = kSizeMax,
      rx_buf_size = chain_size (sk_data (body self)),
      rx_buf_available = chain_size_mode (socket_datagram (body self)) (sk_data (body self)),
      tx_buf_max = (if peer_linked self then kSizeMax else 0),
      tx_buf_size = (if peer_linked self then chain_size (sk_data (body peer)) else 0)\<rparr>)"

definition GetReadThreshold :: "socket_pair \<Rightarrow> nat" where
  "GetReadThreshold = (\<lambda>(self, peer). read_threshold (body self))"

definition GetWriteThreshold :: "socket_pair \<Rightarrow> nat" where
  "GetWriteThreshold = (\<lambda>(self, peer). write_threshold (body self))"

definition SetReadThreshold :: "nat \<Rightarrow> socket_pair \<Rightarrow> zx_status \<times> socket_pair" where
  "SetReadThreshold value = (\<lambda>(self, peer).
     if value > kSizeMax then (ZX_ERR_INVALID_ARGS, self, peer)
     else
       let self1 = set_body (read_threshold_update (\<lambda>_. value)) self
       in (ZX_OK,
           if value = 0 then ep_update_state ZX_SOCKET_READ_THRESHOLD 0 self1
           else if chain_size (sk_data (body self1)) \<ge> read_threshold (body self1)
           then ep_update_state 0 ZX_SOCKET_READ_THRESHOLD self1
           else ep_update_state ZX_SOCKET_READ_THRESHOLD 0 self1, peer))"

definition SetWriteThreshold :: "nat \<Rightarrow> socket_pair \<Rightarrow> zx_status \<times> socket_pair" where
  "SetWriteThreshold value = (\<lambda>(self, peer).
     if \<not> peer_linked self then (ZX_ERR_PEER_CLOSED, self, peer)
     else if value > kSizeMax then (ZX_ERR_INVALID_ARGS, self, peer)
     else
       let self1 = set_body (write_threshold_update (\<lambda>_. value)) self
       in (ZX_OK,
           if value = 0 then ep_update_state ZX_SOCKET_WRITE_THRESHOLD 0 self1
           else if kSizeMax - chain_size (sk_data (body peer)) \<ge> write_threshold (body self1)
           then ep_update_state 0 ZX_SOCKET_WRITE_THRESHOLD self1
           else ep_update_state ZX_SOCKET_WRITE_THRESHOLD 0 self1, peer))"

section \<open>The invariant of a pair\<close>

lemma bit_socket_signals [signal_simps]:
  "bit ZX_SOCKET_PEER_WRITE_DISABLED n \<longleftrightarrow> n = 4"
  "bit ZX_SOCKET_WRITE_DISABLED n \<longleftrightarrow> n = 5"
  "bit ZX_SOCKET_READ_THRESHOLD n \<longleftrightarrow> n = 10"
  "bit ZX_SOCKET_WRITE_THRESHOLD n \<longleftrightarrow> n = 11"
  unfolding ZX_SOCKET_PEER_WRITE_DISABLED_def ZX_SOCKET_WRITE_DISABLED_def
    ZX_SOCKET_READ_THRESHOLD_def ZX_SOCKET_WRITE_THRESHOLD_def bit_exp_u32 by auto

lemma and_socket_signals:
  "s AND ZX_SOCKET_PEER_WRITE_DISABLED \<noteq> 0 \<longleftrightarrow> bit s 4"
  "s AND ZX_SOCKET_WRITE_DISABLED \<noteq> 0 \<longleftrightarrow> bit s 5"
  unfolding ZX_SOCKET_PEER_WRITE_DISABLED_def ZX_SOCKET_WRITE_DISABLED_def and_exp_nonzero by auto

definition data_ok :: "socket \<Rightarrow> bool" where
  "data_ok s \<longleftrightarrow> (if socket_datagram s then dgram_wf (sk_data s) else chain_wf (sk_data s))"

text \<open>
  The signals of an endpoint describe its buffer, those of the peer the room in that buffer; the
  disabled states of the two sides agree. The last line is the promise to a stream writer: there
  is room, writing is not disabled, so \<open>ZX_SOCKET_WRITABLE\<close> is shown.
\<close>

definition socket_side :: "socket endpoint \<Rightarrow> socket endpoint \<Rightarrow> bool" where
  "socket_side e p \<longleftrightarrow>
     (let size = chain_size (sk_data (body e)); se = signals (disp e); sp = signals (disp p)
      in data_ok (body e) \<and> (bit se 0 \<longleftrightarrow> 0 < size) \<and>
         (bit se 10 \<longleftrightarrow> 0 < read_threshold (body e) \<and> read_threshold (body e) \<le> size) \<and>
         (peer_linked e \<longrightarrow> \<not> bit se 2 \<and>
           (bit sp 11 \<longleftrightarrow> 0 < write_threshold (body p) \<and> write_threshold (body p) \<le> kSizeMax - size) \<and>
           (bit se 4 \<longleftrightarrow> bit sp 5) \<and> (read_disabled (body e) \<longleftrightarrow> bit sp 5) \<and>
           (\<not> socket_datagram (body e) \<and> \<not> bit sp 5 \<and> size < kSizeMax \<longrightarrow> bit sp 1)))"

definition socket_inv :: "socket_pair \<Rightarrow> bool" where
  "socket_inv = (\<lambda>(a, b). peer_linked a = peer_linked b \<and> sk_flags (body a) = sk_flags (body b) \<and>
     socket_side a b \<and> socket_side b a)"

lemmas socket_inv_defs = socket_inv_def socket_side_def Let_def

lemma socket_inv_swap: "socket_inv (a, b) \<Longrightarrow> socket_inv (b, a)"
  by (auto simp: socket_inv_def)

lemma socket_sideI:
  assumes "data_ok (body e)" and "bit (signals (disp e)) 0 \<longleftrightarrow> 0 < chain_size (sk_data (body e))"
    and "bit (signals (disp e)) 10 \<longleftrightarrow>
      0 < read_threshold (body e) \<and> read_threshold (body e) \<le> chain_size (sk_data (body e))"
    and "peer_linked e \<Longrightarrow> \<not> bit (signals (disp e)) 2"
    and "peer_linked e \<Longrightarrow> bit (signals (disp p)) 11 \<longleftrightarrow> 0 < write_threshold (body p) \<and>
      write_threshold (body p) \<le> kSizeMax - chain_size (sk_data (body e))"
    and "peer_linked e \<Longrightarrow> bit (signals (disp e)) 4 \<longleftrightarrow> bit (signals (disp p)) 5"
    and "peer_linked e \<Longrightarrow> read_disabled (body e) \<longleftrightarrow> bit (signals (disp p)) 5"
    and "peer_linked e \<Longrightarrow> \<not> socket_datagram (body e) \<Longrightarrow> \<not> bit (signals (disp p)) 5 \<Longrightarrow>
      chain_size (sk_data (body e)) < kSizeMax \<Longrightarrow> bit (signals (disp p)) 1"
  shows "socket_side e p"
  using assms unfolding socket_side_def Let_def by blast

lemma socket_sideD:
  assumes "socket_side e p"
  shows "data_ok (body e)" and "bit (signals (disp e)) 0 \<longleftrightarrow> 0 < chain_size (sk_data (body e))"
    and "bit (signals (disp e)) 10 \<longleftrightarrow>
      0 < read_threshold (body e) \<and> read_threshold (body e) \<le> chain_size (sk_data (body e))"
    and "peer_linked e \<Longrightarrow> \<not> bit (signals (disp e)) 2"
    and "peer_linked e \<Longrightarrow> bit (signals (disp p)) 11 \<longleftrightarrow> 0 < write_threshold (body p) \<and>
      write_threshold (body p) \<le> kSizeMax - chain_size (sk_data (body e))"
    and "peer_linked e \<Longrightarrow> bit (signals (disp e)) 4 \<longleftrightarrow> bit (signals (disp p)) 5"
    and "peer_linked e \<Longrightarrow> read_disabled (body e) \<longleftrightarrow> bit (signals (disp p)) 5"
    and "peer_linked e \<Longrightarrow> \<not> socket_datagram (body e) \<Longrightarrow> \<not> bit (signals (disp p)) 5 \<Longrightarrow>
      chain_size (sk_data (body e)) < kSizeMax \<Longrightarrow> bit (signals (disp p)) 1"
  using assms unfolding socket_side_def Let_def by blast+

lemma set_body_frame [simp]:
  "disp (set_body f e) = disp e" "peer_linked (set_body f e) = peer_linked e" "body (set_body f e) = f (body e)"
  by (simp_all add: set_body_def)

lemma socket_datagram_frame [simp]:
  "socket_datagram (sk_data_update f s) = socket_datagram s"
  "socket_datagram (read_disabled_update g s) = socket_datagram s"
  "socket_datagram (read_threshold_update h s) = socket_datagram s"
  "socket_datagram (write_threshold_update h s) = socket_datagram s"
  by (simp_all add: socket_datagram_def)

lemma data_ok_frame [simp]:
  "data_ok (read_disabled_update g s) = data_ok s"
  "data_ok (read_threshold_update h s) = data_ok s"
  "data_ok (write_threshold_update h s) = data_ok s"
  by (simp_all add: data_ok_def)

lemma data_ok_wf: "data_ok s \<Longrightarrow> chain_wf (sk_data s)"
  by (simp add: data_ok_def dgram_wf_def split: if_splits)

lemma data_ok_size: "data_ok s \<Longrightarrow> chain_size (sk_data s) \<le> kSizeMax"
  by (drule data_ok_wf) (simp add: chain_wf_def)

lemma chain_wf_size: "chain_wf c \<Longrightarrow> chain_size c = length (chain_bytes c)"
  by (simp add: chain_wf_def)

text \<open>What the operations on the chain do to its size.\<close>

lemma data_write:
  assumes "data_ok s" and "view_of buf src"
    and "(if socket_datagram s then WriteDatagram heap src len (sk_data s)
          else WriteStream heap src len (sk_data s)) = (status, st, d)"
  shows "data_ok (sk_data_update (\<lambda>_. d) s) \<and> chain_size d = chain_size (sk_data s) + st"
proof (cases "socket_datagram s")
  case True
  with assms(1) have wf: "dgram_wf (sk_data s)" by (simp add: data_ok_def)
  have "WriteDatagram heap src len (sk_data s) = (status, st, d)" using assms(3) True by simp
  from WriteDatagram_atomic [OF assms(2) wf this] show ?thesis
    using True dgram_size [OF wf] dgram_size [of d] by (auto simp: data_ok_def split: if_splits)
next
  case False
  with assms(1) have wf: "chain_wf (sk_data s)" by (simp add: data_ok_def)
  have "WriteStream heap src len (sk_data s) = (status, st, d)" using assms(3) False by simp
  from WriteStream_appends [OF assms(2) wf this] show ?thesis
    using False chain_wf_size [OF wf] chain_wf_size [of d] by (auto simp: data_ok_def)
qed

lemma dgrams_ok_head: "dgrams_ok (b # bs) \<Longrightarrow> mb_pkt_len b \<noteq> 0"
  by (subst (asm) dgrams_ok.simps) auto

lemma Read_dgram_zero:
  assumes "dgram_wf c" and "chain_Read dst 0 True c = (st, outp, n, c')"
  shows "c' = c"
proof (cases "buffers c")
  case Nil
  then have "chain_size c = 0"
    using assms(1) by (simp add: dgram_wf_def chain_wf_def chain_bytes_def bytes_from_def)
  with assms(2) show ?thesis by (simp add: chain_Read_def)
next
  case (Cons b bs)
  then have "mb_pkt_len b \<noteq> 0" using assms(1) dgrams_ok_head [of b bs] unfolding dgram_wf_def by metis
  then have "drain_packet ro c = (ro, c)" for ro
    by (subst drain_packet.simps) (simp add: Cons)
  moreover have "chain_read_loop dst 0 True 0 ro c = (ZX_OK, [], 0, ro, c)" for ro
    by (subst chain_read_loop.simps) simp
  ultimately show ?thesis using assms(2) by (auto simp: chain_Read_def split: if_splits)
qed

lemma data_read:
  assumes "data_ok s" and "user_out_wf dst"
    and "chain_Read dst len (socket_datagram s) (sk_data s) = (status, outp, n, d)"
  shows "data_ok (sk_data_update (\<lambda>_. d) s) \<and> chain_size d \<le> chain_size (sk_data s) \<and>
    (\<not> socket_datagram s \<longrightarrow> chain_size (sk_data s) = chain_size d + n)"
proof (cases "socket_datagram s")
  case True
  with assms(1) have wf: "dgram_wf (sk_data s)" by (simp add: data_ok_def)
  have call: "chain_Read dst len True (sk_data s) = (status, outp, n, d)" using assms(3) True by simp
  show ?thesis
  proof (cases "len = 0")
    case zero: True
    have "d = sk_data s" using Read_dgram_zero [OF wf] call zero by blast
    with assms(1) True show ?thesis by (simp add: data_ok_def)
  next
    case False
    then have r: "dgram_wf d" "chain_dgrams d = tl (chain_dgrams (sk_data s))"
      using Read_dgram [OF assms(2) wf _ call] by auto
    then have "chain_size d \<le> chain_size (sk_data s)"
      using dgram_size [OF wf] dgram_size [of d] by (cases "chain_dgrams (sk_data s)") auto
    with r True show ?thesis by (simp add: data_ok_def)
  qed
next
  case False
  with assms(1) have wf: "chain_wf (sk_data s)" by (simp add: data_ok_def)
  have "chain_Read dst len False (sk_data s) = (status, outp, n, d)" using assms(3) False by simp
  from Read_stream [OF assms(2) wf this] show ?thesis
    using False chain_wf_size [OF wf] chain_wf_size [of d] by (auto simp: data_ok_def)
qed

lemmas socket_size_simps = socket_is_full_def socket_is_empty_def chain_is_full_def chain_is_empty_def

lemma or_if_bits [signal_simps]: "bit (or_if P m acc) k \<longleftrightarrow> bit acc k \<or> P \<and> bit m k"
  by (simp add: or_if_def bit_simps)

lemma ep_update_if_signals [signal_simps]:
  "bit (signals (disp (ep_update_if P c s e))) k \<longleftrightarrow>
     bit (signals (disp e)) k \<and> \<not> (P \<and> bit c k) \<or> P \<and> bit s k"
  by (auto simp: signal_simps ep_update_if_def)

lemma ep_update_if_frame [simp]:
  "body (ep_update_if P c s e) = body e" "peer_linked (ep_update_if P c s e) = peer_linked e"
  by (simp_all add: ep_update_if_def)

text \<open>The effect of the operations, in the bits of the signals.\<close>

lemma write_locked_effect:
  assumes "\<not> socket_is_full r" and linked: "peer_linked r"
    and call: "Socket_WriteSelfLocked heap src len (r, w) = (status, n, r', w')"
  obtains st d where
    "(if socket_datagram (body r) then WriteDatagram heap src len (sk_data (body r))
      else WriteStream heap src len (sk_data (body r))) = (status, st, d)"
    "n = (if status = ZX_OK then Some st else None)"
    "body r' = sk_data_update (\<lambda>_. d) (body r)" "peer_linked r'" "body w' = body w" "peer_linked w' = peer_linked w"
    "\<And>k. bit (signals (disp r')) k \<longleftrightarrow> bit (signals (disp r)) k \<or> k = 0 \<and> 0 < st \<and> socket_is_empty r \<or>
       k = 10 \<and> 0 < st \<and> 0 < read_threshold (body r) \<and> read_threshold (body r) \<le> chain_size d"
    "\<And>k. bit (signals (disp w')) k \<longleftrightarrow> bit (signals (disp w)) k \<and> \<not> (k = 1 \<and> chain_is_full d) \<and>
       \<not> (k = 11 \<and> 0 < st \<and> 0 < write_threshold (body w) \<and> kSizeMax - chain_size d < write_threshold (body w))"
proof -
  obtain status1 st d where op: "(if socket_datagram (body r) then WriteDatagram heap src len (sk_data (body r))
      else WriteStream heap src len (sk_data (body r))) = (status1, st, d)" by (metis prod_cases3)
  note call' = call [unfolded Socket_WriteSelfLocked_def prod.case op Let_def]
  show thesis
  proof (rule that [of st d])
    show "(if socket_datagram (body r) then WriteDatagram heap src len (sk_data (body r))
      else WriteStream heap src len (sk_data (body r))) = (status, st, d)"
      "n = (if status = ZX_OK then Some st else None)"
      "body r' = sk_data_update (\<lambda>_. d) (body r)" "peer_linked r'" "body w' = body w" "peer_linked w' = peer_linked w"
      using call' assms(1) linked op by auto
  next
    fix k
    show "bit (signals (disp r')) k \<longleftrightarrow> bit (signals (disp r)) k \<or> k = 0 \<and> 0 < st \<and> socket_is_empty r \<or>
       k = 10 \<and> 0 < st \<and> 0 < read_threshold (body r) \<and> read_threshold (body r) \<le> chain_size d"
      using call' assms(1) by (auto simp: signal_simps bit_simps)
    show "bit (signals (disp w')) k \<longleftrightarrow> bit (signals (disp w)) k \<and> \<not> (k = 1 \<and> chain_is_full d) \<and>
       \<not> (k = 11 \<and> 0 < st \<and> 0 < write_threshold (body w) \<and> kSizeMax - chain_size d < write_threshold (body w))"
      using call' assms(1) linked by (auto simp: signal_simps bit_simps socket_is_full_def)
  qed
qed

lemma read_effect:
  assumes "\<not> socket_is_empty r" and "len < 2 ^ 32"
    and call: "Socket_Read kConsume dst len (r, w) = (status, outp, n, r', w')"
  obtains m d where "chain_Read dst len (socket_datagram (body r)) (sk_data (body r)) = (status, outp, m, d)"
    "n = (if status = ZX_OK then Some m else None)"
    "body r' = sk_data_update (\<lambda>_. d) (body r)" "peer_linked r' = peer_linked r"
    "body w' = body w" "peer_linked w' = peer_linked w"
    "\<And>k. bit (signals (disp r')) k \<longleftrightarrow> bit (signals (disp r)) k \<and> \<not> (k = 0 \<and> chain_is_empty d) \<and>
       \<not> (k = 10 \<and> 0 < read_threshold (body r) \<and> chain_size d < read_threshold (body r))"
    "\<And>k. bit (signals (disp w')) k \<longleftrightarrow> bit (signals (disp w)) k \<or>
       peer_linked r \<and> (k = 1 \<and> socket_is_full r \<and> 0 < m \<or>
       k = 11 \<and> 0 < write_threshold (body w) \<and> write_threshold (body w) \<le> kSizeMax - chain_size d)"
proof -
  obtain status1 outp1 m d where
    op: "chain_Read dst len (socket_datagram (body r)) (sk_data (body r)) = (status1, outp1, m, d)"
    by (metis prod_cases4)
  note call' = call [unfolded Socket_Read_def prod.case op Let_def]
  show thesis
  proof (rule that [of m d])
    show "chain_Read dst len (socket_datagram (body r)) (sk_data (body r)) = (status, outp, m, d)"
      "n = (if status = ZX_OK then Some m else None)" "body r' = sk_data_update (\<lambda>_. d) (body r)"
      "peer_linked r' = peer_linked r" "body w' = body w" "peer_linked w' = peer_linked w"
      using call' assms(1,2) op by auto
  next
    fix k
    show "bit (signals (disp r')) k \<longleftrightarrow> bit (signals (disp r)) k \<and> \<not> (k = 0 \<and> chain_is_empty d) \<and>
       \<not> (k = 10 \<and> 0 < read_threshold (body r) \<and> chain_size d < read_threshold (body r))"
      using call' assms(1,2) by (auto simp: signal_simps bit_simps)
    show "bit (signals (disp w')) k \<longleftrightarrow> bit (signals (disp w)) k \<or>
       peer_linked r \<and> (k = 1 \<and> socket_is_full r \<and> 0 < m \<or>
       k = 11 \<and> 0 < write_threshold (body w) \<and> write_threshold (body w) \<le> kSizeMax - chain_size d)"
      using call' assms(1,2) by (auto simp: signal_simps bit_simps)
  qed
qed

lemma socket_write_locked_inv:
  assumes inv: "socket_inv (r, w)" and linked: "peer_linked r" and view: "view_of buf src"
    and call: "Socket_WriteSelfLocked heap src len (r, w) = (status, n, r', w')"
  shows "socket_inv (r', w')"
proof (cases "socket_is_full r")
  case True
  with call inv show ?thesis by (simp add: Socket_WriteSelfLocked_def)
next
  case False
  show ?thesis
  proof (rule write_locked_effect [OF False linked call])
    fix st d
    assume e: "(if socket_datagram (body r) then WriteDatagram heap src len (sk_data (body r))
      else WriteStream heap src len (sk_data (body r))) = (status, st, d)"
      "body r' = sk_data_update (\<lambda>_. d) (body r)" "peer_linked r'" "body w' = body w" "peer_linked w' = peer_linked w"
      "\<And>k. bit (signals (disp r')) k \<longleftrightarrow> bit (signals (disp r)) k \<or> k = 0 \<and> 0 < st \<and> socket_is_empty r \<or>
       k = 10 \<and> 0 < st \<and> 0 < read_threshold (body r) \<and> read_threshold (body r) \<le> chain_size d"
      "\<And>k. bit (signals (disp w')) k \<longleftrightarrow> bit (signals (disp w)) k \<and> \<not> (k = 1 \<and> chain_is_full d) \<and>
       \<not> (k = 11 \<and> 0 < st \<and> 0 < write_threshold (body w) \<and> kSizeMax - chain_size d < write_threshold (body w))"
    have ok: "data_ok (body r)" using inv by (simp add: socket_inv_defs)
    note d = data_write [OF ok view e(1)]
    have rs: "socket_side r w" and ws: "socket_side w r" using inv by (auto simp: socket_inv_def)
    have "socket_side r' w'"
    proof (rule socket_sideI)
      note f = socket_sideD [OF rs]
      show "data_ok (body r')" using d by (simp add: e(2))
      show "bit (signals (disp r')) 0 \<longleftrightarrow> 0 < chain_size (sk_data (body r'))"
        using f(2) d by (auto simp: e(2,6) socket_size_simps)
      show "bit (signals (disp r')) 10 \<longleftrightarrow>
          0 < read_threshold (body r') \<and> read_threshold (body r') \<le> chain_size (sk_data (body r'))"
        using f(3) d by (auto simp: e(2,6))
      show "\<not> bit (signals (disp r')) 2" using f(4) [OF linked] by (simp add: e(6))
      show "bit (signals (disp w')) 11 \<longleftrightarrow> 0 < write_threshold (body w') \<and>
          write_threshold (body w') \<le> kSizeMax - chain_size (sk_data (body r'))"
        using f(5) [OF linked] d by (auto simp: e(2,4,7))
      show "bit (signals (disp r')) 4 \<longleftrightarrow> bit (signals (disp w')) 5" using f(6) [OF linked] by (simp add: e(6,7))
      show "read_disabled (body r') \<longleftrightarrow> bit (signals (disp w')) 5" using f(7) [OF linked] by (simp add: e(2,7))
      show "\<not> socket_datagram (body r') \<Longrightarrow> \<not> bit (signals (disp w')) 5 \<Longrightarrow>
          chain_size (sk_data (body r')) < kSizeMax \<Longrightarrow> bit (signals (disp w')) 1"
        using f(8) [OF linked] d by (simp add: e(2,7) chain_is_full_def)
    qed
    moreover have "socket_side w' r'"
      using ws linked e(3,5) unfolding socket_side_def Let_def e(2-) by auto
    ultimately show ?thesis using inv e(2-5) linked by (simp add: socket_inv_def)
  qed
qed

lemma socket_read_inv:
  assumes inv: "socket_inv (r, w)" and dst: "user_out_wf dst"
    and call: "Socket_Read type dst len (r, w) = (status, outp, n, r', w')"
  shows "socket_inv (r', w')"
proof (cases "socket_is_empty r \<or> \<not> len < 2 ^ 32 \<or> type = kPeek")
  case True
  with call inv show ?thesis by (auto simp: Socket_Read_def split: if_splits prod.splits)
next
  case False
  then have "type = kConsume" by (cases type) auto
  note call = call [unfolded this]
  have big: "\<not> socket_is_empty r" "len < 2 ^ 32" using False by auto
  show ?thesis
  proof (rule read_effect [OF big call])
    fix m d
    assume e: "chain_Read dst len (socket_datagram (body r)) (sk_data (body r)) = (status, outp, m, d)"
      "body r' = sk_data_update (\<lambda>_. d) (body r)" "peer_linked r' = peer_linked r"
      "body w' = body w" "peer_linked w' = peer_linked w"
      "\<And>k. bit (signals (disp r')) k \<longleftrightarrow> bit (signals (disp r)) k \<and> \<not> (k = 0 \<and> chain_is_empty d) \<and>
       \<not> (k = 10 \<and> 0 < read_threshold (body r) \<and> chain_size d < read_threshold (body r))"
      "\<And>k. bit (signals (disp w')) k \<longleftrightarrow> bit (signals (disp w)) k \<or>
       peer_linked r \<and> (k = 1 \<and> socket_is_full r \<and> 0 < m \<or>
       k = 11 \<and> 0 < write_threshold (body w) \<and> write_threshold (body w) \<le> kSizeMax - chain_size d)"
    have ok: "data_ok (body r)" using inv by (simp add: socket_inv_defs)
    note d = data_read [OF ok dst e(1)]
    have rs: "socket_side r w" and ws: "socket_side w r" using inv by (auto simp: socket_inv_def)
    have "socket_side r' w'"
    proof (rule socket_sideI)
      note f = socket_sideD [OF rs]
      show "data_ok (body r')" using d by (simp add: e(2))
      show "bit (signals (disp r')) 0 \<longleftrightarrow> 0 < chain_size (sk_data (body r'))"
        using f(2) d by (auto simp: e(2,6) socket_size_simps)
      show "bit (signals (disp r')) 10 \<longleftrightarrow>
          0 < read_threshold (body r') \<and> read_threshold (body r') \<le> chain_size (sk_data (body r'))"
        using f(3) d by (auto simp: e(2,6))
      assume "peer_linked r'"
      then have linked: "peer_linked r" using e(3) by simp
      show "\<not> bit (signals (disp r')) 2" using f(4) [OF linked] by (simp add: e(6))
      show "bit (signals (disp w')) 11 \<longleftrightarrow> 0 < write_threshold (body w') \<and>
          write_threshold (body w') \<le> kSizeMax - chain_size (sk_data (body r'))"
        using f(5) [OF linked] d linked by (auto simp: e(2,4,7))
      show "bit (signals (disp r')) 4 \<longleftrightarrow> bit (signals (disp w')) 5" using f(6) [OF linked] by (simp add: e(6,7))
      show "read_disabled (body r') \<longleftrightarrow> bit (signals (disp w')) 5" using f(7) [OF linked] by (simp add: e(2,7))
      show "\<not> socket_datagram (body r') \<Longrightarrow> \<not> bit (signals (disp w')) 5 \<Longrightarrow>
          chain_size (sk_data (body r')) < kSizeMax \<Longrightarrow> bit (signals (disp w')) 1"
        using f(8) [OF linked] d linked by (cases "m = 0") (auto simp: e(2,7) socket_size_simps)
    qed
    moreover have "socket_side w' r'"
      using ws unfolding socket_side_def Let_def e(2-) by auto
    ultimately show ?thesis using inv e(2-5) by (simp add: socket_inv_def)
  qed
qed

lemma socket_write_inv:
  assumes inv: "socket_inv (w, r)" and view: "view_of buf src"
    and call: "Socket_Write heap src len (w, r) = (status, n, w', r')"
  shows "socket_inv (w', r')"
proof -
  have "socket_inv (r, w)" by (rule socket_inv_swap [OF inv])
  moreover have "peer_linked r = peer_linked w" using inv by (simp add: socket_inv_def)
  ultimately show ?thesis
    using call inv view socket_write_locked_inv [of r w buf src heap len _ _ r' w']
    by (auto simp: Socket_Write_def split: if_splits prod.splits intro: socket_inv_swap)
qed

lemma UpdateReadStatus_frame [simp]:
  "disp (UpdateReadStatus d e) = disp e" "peer_linked (UpdateReadStatus d e) = peer_linked e"
  "sk_flags (body (UpdateReadStatus d e)) = sk_flags (body e)"
  "sk_data (body (UpdateReadStatus d e)) = sk_data (body e)"
  "read_threshold (body (UpdateReadStatus d e)) = read_threshold (body e)"
  "write_threshold (body (UpdateReadStatus d e)) = write_threshold (body e)"
  "socket_datagram (body (UpdateReadStatus d e)) = socket_datagram (body e)"
  "data_ok (body (UpdateReadStatus d e)) = data_ok (body e)"
  by (cases d; simp add: UpdateReadStatus_def)+

lemma UpdateReadStatus_disabled [simp]:
  "read_disabled (body (UpdateReadStatus d e)) =
     (case d of kWriteDisabled \<Rightarrow> True | kWriteEnabled \<Rightarrow> False | kNone \<Rightarrow> read_disabled (body e))"
  by (cases d) (simp_all add: UpdateReadStatus_def)

lemma ExtendMasks_eq:
  "ExtendMasksFromDisposition d (c, s, cp, sp) =
     (or_if (d = kWriteDisabled) ZX_OBJECT_WRITABLE (or_if (d = kWriteEnabled) ZX_SOCKET_WRITE_DISABLED c),
      or_if (d = kWriteDisabled) ZX_SOCKET_WRITE_DISABLED (or_if (d = kWriteEnabled) ZX_OBJECT_WRITABLE s),
      or_if (d = kWriteEnabled) ZX_SOCKET_PEER_WRITE_DISABLED cp,
      or_if (d = kWriteDisabled) ZX_SOCKET_PEER_WRITE_DISABLED sp)"
  by (cases d) (simp_all add: ExtendMasksFromDisposition_def or_if_def)

text \<open>A successful change of dispositions, seen from one side: \<open>d\<close> is its own, \<open>dp\<close> the peer's.\<close>

definition disposed :: "disposition \<Rightarrow> disposition \<Rightarrow> socket endpoint \<Rightarrow> socket endpoint \<Rightarrow> bool" where
  "disposed d dp e e' \<longleftrightarrow> peer_linked e' = peer_linked e \<and> body e' = body (UpdateReadStatus dp e) \<and>
     (\<forall>k. bit (signals (disp e')) k \<longleftrightarrow>
       (if k = 1 then (case d of kWriteDisabled \<Rightarrow> False | kWriteEnabled \<Rightarrow> True | kNone \<Rightarrow> bit (signals (disp e)) 1)
        else if k = 5 then (case d of kWriteDisabled \<Rightarrow> True | kWriteEnabled \<Rightarrow> False | kNone \<Rightarrow> bit (signals (disp e)) 5)
        else if k = 4 then (case dp of kWriteDisabled \<Rightarrow> True | kWriteEnabled \<Rightarrow> False | kNone \<Rightarrow> bit (signals (disp e)) 4)
        else bit (signals (disp e)) k))"

lemma SetDisposition_effect:
  assumes "peer_linked a" and "SetDisposition d dp (a, b) = (status, a', b')"
  shows "status = ZX_ERR_BAD_STATE \<and> a' = a \<and> b' = b \<or>
    status = ZX_OK \<and> IsDispositionStateValid dp a \<and> IsDispositionStateValid d b \<and> disposed d dp a a' \<and> disposed dp d b b'"
proof (cases "d = kNone \<and> dp = kNone")
  case True
  with assms show ?thesis
    by (auto simp: SetDisposition_def disposed_def UpdateReadStatus_def IsDispositionStateValid_def)
next
  case False
  show ?thesis
  proof (cases "IsDispositionStateValid dp a \<and> IsDispositionStateValid d b")
    case True
    have "a' = ep_update_state
        (or_if (dp = kWriteEnabled) ZX_SOCKET_PEER_WRITE_DISABLED
          (or_if (d = kWriteDisabled) ZX_OBJECT_WRITABLE (or_if (d = kWriteEnabled) ZX_SOCKET_WRITE_DISABLED 0)))
        (or_if (dp = kWriteDisabled) ZX_SOCKET_PEER_WRITE_DISABLED
          (or_if (d = kWriteDisabled) ZX_SOCKET_WRITE_DISABLED (or_if (d = kWriteEnabled) ZX_OBJECT_WRITABLE 0)))
        (UpdateReadStatus dp a)"
      and "b' = ep_update_state
        (or_if (dp = kWriteDisabled) ZX_OBJECT_WRITABLE (or_if (dp = kWriteEnabled) ZX_SOCKET_WRITE_DISABLED
          (or_if (d = kWriteEnabled) ZX_SOCKET_PEER_WRITE_DISABLED 0)))
        (or_if (dp = kWriteDisabled) ZX_SOCKET_WRITE_DISABLED (or_if (dp = kWriteEnabled) ZX_OBJECT_WRITABLE
          (or_if (d = kWriteDisabled) ZX_SOCKET_PEER_WRITE_DISABLED 0)))
        (UpdateReadStatus d b)"
      and "status = ZX_OK"
      using assms False True by (simp_all add: SetDisposition_def ExtendMasks_eq)
    moreover have "disposed d dp a a'" unfolding disposed_def calculation(1)
      by (cases d; cases dp) (simp_all add: signal_simps)
    moreover have "disposed dp d b b'" unfolding disposed_def calculation(2)
      by (cases d; cases dp) (simp_all add: signal_simps)
    ultimately show ?thesis using True by blast
  next
    case invalid: False
    with assms False show ?thesis by (auto simp: SetDisposition_def ExtendMasks_eq split: if_splits)
  qed
qed

lemma disposed_side:
  "socket_side a b \<Longrightarrow> peer_linked a \<Longrightarrow> disposed d dp a a' \<Longrightarrow> disposed dp d b b' \<Longrightarrow> socket_side a' b'"
  by (cases dp) (simp_all add: disposed_def socket_side_def Let_def)

lemma SetDisposition_inv:
  assumes inv: "socket_inv (a, b)" and call: "SetDisposition d dp (a, b) = (status, a', b')"
  shows "socket_inv (a', b')"
proof (cases "peer_linked a")
  case True
  then have linked: "peer_linked b" using inv by (simp add: socket_inv_def)
  from SetDisposition_effect [OF True call] show ?thesis
  proof (elim disjE conjE)
    assume d: "disposed d dp a a'" "disposed dp d b b'"
    have "socket_side a' b'" using inv by (auto intro: disposed_side [OF _ True d] simp: socket_inv_def)
    moreover have "socket_side b' a'" using inv by (auto intro: disposed_side [OF _ linked d(2,1)] simp: socket_inv_def)
    ultimately show ?thesis using inv d by (simp add: socket_inv_def disposed_def)
  qed (use inv in simp)
next
  case False
  then have "\<not> peer_linked b" using inv by (simp add: socket_inv_def)
  let ?a = "ep_update_state
      (or_if (d = kWriteDisabled) ZX_OBJECT_WRITABLE (or_if (d = kWriteEnabled) ZX_SOCKET_WRITE_DISABLED 0))
      (or_if (d = kWriteDisabled) ZX_SOCKET_WRITE_DISABLED (or_if (d = kWriteEnabled) ZX_OBJECT_WRITABLE 0))
      (UpdateReadStatus dp a)"
  have "b' = b \<and> (a' = a \<or> a' = ?a)"
    using False call by (auto simp: SetDisposition_def ExtendMasks_eq split: if_splits)
  moreover have "socket_inv (?a, b)"
    using inv False \<open>\<not> peer_linked b\<close> by (simp add: socket_inv_defs signal_simps)
  ultimately show ?thesis using inv by auto
qed

lemma SetReadThreshold_inv:
  assumes inv: "socket_inv (a, b)" and call: "SetReadThreshold v (a, b) = (status, a', b')"
  shows "socket_inv (a', b')"
proof (cases "v > kSizeMax")
  case True
  with assms show ?thesis by (simp add: SetReadThreshold_def)
next
  case False
  consider "v = 0" | "v \<noteq> 0" "v \<le> chain_size (sk_data (body a))" | "v \<noteq> 0" "\<not> v \<le> chain_size (sk_data (body a))"
    by blast
  then show ?thesis
  proof cases
    case 1
    with False assms show ?thesis by (clarsimp simp: SetReadThreshold_def socket_inv_defs signal_simps)
  next
    case 2
    with False assms show ?thesis by (clarsimp simp: SetReadThreshold_def socket_inv_defs signal_simps)
  next
    case 3
    with False assms show ?thesis by (clarsimp simp: SetReadThreshold_def socket_inv_defs signal_simps)
  qed
qed

lemma SetWriteThreshold_inv:
  assumes inv: "socket_inv (a, b)" and call: "SetWriteThreshold v (a, b) = (status, a', b')"
  shows "socket_inv (a', b')"
proof (cases "\<not> peer_linked a \<or> v > kSizeMax")
  case True
  with assms show ?thesis by (auto simp: SetWriteThreshold_def split: if_splits)
next
  case False
  consider "v = 0" | "v \<noteq> 0" "v \<le> kSizeMax - chain_size (sk_data (body b))"
    | "v \<noteq> 0" "\<not> v \<le> kSizeMax - chain_size (sk_data (body b))" by blast
  then show ?thesis
  proof cases
    case 1
    with False assms show ?thesis by (clarsimp simp: SetWriteThreshold_def socket_inv_defs signal_simps)
  next
    case 2
    with False assms show ?thesis by (clarsimp simp: SetWriteThreshold_def socket_inv_defs signal_simps)
  next
    case 3
    with False assms show ?thesis by (clarsimp simp: SetWriteThreshold_def socket_inv_defs signal_simps)
  qed
qed

lemma socket_masked_inv:
  assumes "socket_inv (a, b)" and "c AND NOT ZX_USER_SIGNAL_ALL = 0" and "s AND NOT ZX_USER_SIGNAL_ALL = 0"
  shows "socket_inv (ep_update_state c s a, b)"
proof -
  have "\<not> bit c k \<and> \<not> bit s k" if "k < 24" for k
    using user_mask_low_bits [of c 0 k] user_mask_low_bits [of s 0 k] assms(2,3) that by simp
  with assms(1) show ?thesis by (simp add: socket_inv_defs signal_simps)
qed

lemma socket_close_inv:
  assumes "socket_inv (a, b)"
  shows "socket_inv (on_zero_handles Socket_on_zero_handles_locked Socket_OnPeerZeroHandlesLocked (a, b))"
  using assms by (cases "peer_linked a") (simp_all add: on_zero_handles_def Socket_on_zero_handles_locked_def
      Socket_OnPeerZeroHandlesLocked_def socket_inv_defs signal_simps)

lemma chain_new_size [simp]: "chain_size MBufChain_new = 0"
  by (simp add: MBufChain_new_def)

lemma socket_created:
  assumes "SocketDispatcher_Create alloc k0 k1 flags = Inr (a, b)"
  shows "socket_inv (a, b)" and "peer_linked a" and "sk_data (body a) = MBufChain_new"
    and "sk_data (body b) = MBufChain_new" and "sk_flags (body a) = flags" and "sk_flags (body b) = flags"
  using assms chain_new_wf(1) chain_new_dgram(1)
  by (clarsimp simp: SocketDispatcher_Create_def SocketDispatcher_new_def InitPeer_def PeeredDispatcher_new_def
      Dispatcher_new_def socket_inv_defs data_ok_def Let_def bit_object_signals split: if_splits)+

text \<open>
  Every operation of user code on either endpoint, and the last handle of one going away. User
  memory may fail at any place; it does not change during a call.
\<close>

inductive socket_step :: "socket_pair \<Rightarrow> socket_pair \<Rightarrow> bool" where
  step_write: "view_of buf src \<Longrightarrow> Socket_Write heap src len p = (st, n, p') \<Longrightarrow> socket_step p p'"
| step_read: "user_out_wf dst \<Longrightarrow> Socket_Read type dst len p = (st, outp, n, p') \<Longrightarrow> socket_step p p'"
| step_disposition: "SetDisposition d dp p = (st, p') \<Longrightarrow> socket_step p p'"
| step_read_threshold: "SetReadThreshold v p = (st, p') \<Longrightarrow> socket_step p p'"
| step_write_threshold: "SetWriteThreshold v p = (st, p') \<Longrightarrow> socket_step p p'"
| step_signal_self: "user_signal_self 0 c s a = (st, a') \<Longrightarrow> socket_step (a, b) (a', b)"
| step_signal_peer: "user_signal_peer 0 c s (a, b) = (st, p) \<Longrightarrow> socket_step (a, b) p"
| step_close: "socket_step p (on_zero_handles Socket_on_zero_handles_locked Socket_OnPeerZeroHandlesLocked p)"
| step_other_side: "socket_step (b, a) (b', a') \<Longrightarrow> socket_step (a, b) (a', b')"

lemma socket_step_inv: "socket_step p p' \<Longrightarrow> socket_inv p \<Longrightarrow> socket_inv p'"
proof (induction rule: socket_step.induct)
  case (step_write buf src heap len p st n p')
  then show ?case by (cases p; cases p') (auto intro: socket_write_inv)
next
  case (step_read dst type len p st outp n p')
  then show ?case by (cases p; cases p') (auto intro: socket_read_inv)
next
  case (step_disposition d dp p st p')
  then show ?case by (cases p; cases p') (auto intro: SetDisposition_inv)
next
  case (step_read_threshold v p st p')
  then show ?case by (cases p; cases p') (auto intro: SetReadThreshold_inv)
next
  case (step_write_threshold v p st p')
  then show ?case by (cases p; cases p') (auto intro: SetWriteThreshold_inv)
next
  case (step_signal_self c s a st a' b)
  then show ?case by (auto simp: user_signal_self_def Let_def split: if_splits intro: socket_masked_inv)
next
  case (step_signal_peer c s a b st p)
  then show ?case
    by (auto simp: user_signal_peer_def Let_def split: if_splits intro: socket_masked_inv socket_inv_swap)
next
  case (step_close p)
  then show ?case by (cases p) (auto intro: socket_close_inv)
next
  case (step_other_side b a b' a')
  then show ?case by (blast intro: socket_inv_swap)
qed

lemma socket_reachable_inv:
  assumes "SocketDispatcher_Create alloc k0 k1 flags = Inr p" and "socket_step\<^sup>*\<^sup>* p p'"
  shows "socket_inv p'"
  using assms(2)
proof (induction rule: rtranclp_induct)
  case base
  then show ?case using socket_created(1) assms(1) by (cases p) auto
next
  case (step y z)
  then show ?case by (blast intro: socket_step_inv)
qed

interpretation socket: peered_transport Socket_on_zero_handles_locked Socket_OnPeerZeroHandlesLocked
  by unfold_locales (simp_all add: Socket_on_zero_handles_locked_def Socket_OnPeerZeroHandlesLocked_def signal_simps)

section \<open>Properties\<close>

text \<open>A readable user buffer: a stream write that reports an error has written nothing.\<close>

lemma write_stream_loop_user_buf:
  "len \<le> length buf \<Longrightarrow> fst (write_stream_loop heap (user_buf buf) len pos c) = ZX_OK"
proof (induction "len - pos" arbitrary: pos c rule: less_induct)
  case less
  show ?case
  proof (cases "pos < len")
    case False
    then show ?thesis by (subst write_stream_loop.simps) simp
  next
    case True
    obtain t c1 where t: "stream_target heap c = (t, c1)" by fastforce
    show ?thesis
    proof (cases t)
      case None
      then show ?thesis using t True by (subst write_stream_loop.simps) simp
    next
      case (Some b)
      define n where "n = (if chain_size c1 + min (mb_rem b) (len - pos) > kSizeMax then kSizeMax - chain_size c1
                           else min (mb_rem b) (len - pos))"
      have "n \<le> len - pos" by (auto simp: n_def)
      with True less.prems have ok: "uc_status (user_buf buf pos n) = ZX_OK" by (simp add: user_buf_def)
      show ?thesis
      proof (cases "n = 0")
        case zero: True
        then show ?thesis using t True Some by (subst write_stream_loop.simps) (simp add: flip: n_def)
      next
        case False
        have "len - (pos + n) < len - pos" using False True by linarith
        note IH = less.hyps [OF this less.prems]
        show ?thesis using t True Some False ok IH
          by (subst write_stream_loop.simps) (simp add: Let_def flip: n_def)
      qed
    qed
  qed
qed

lemma WriteStream_user_buf:
  assumes "WriteStream heap (user_buf buf) (length buf) c = (st, w, c')" and "st \<noteq> ZX_OK"
  shows "w = 0"
proof -
  have "fst (stream_finish (write_stream_loop heap (user_buf buf) (length buf) 0 c1)) = ZX_OK \<or>
      fst (snd (stream_finish (write_stream_loop heap (user_buf buf) (length buf) 0 c1))) = 0" for c1
    using write_stream_loop_user_buf [OF order_refl, of heap buf 0 c1]
    by (auto simp: stream_finish_def split: prod.splits)
  moreover have "(\<exists>c1. (st, w, c') = stream_finish (write_stream_loop heap (user_buf buf) (length buf) 0 c1)) \<or> w = 0"
    using assms(1) unfolding WriteStream_def Let_def stream_finish_def [symmetric]
    by (cases "write_cursor c"; cases "AllocMBuf heap c"; cases "fst (AllocMBuf heap c)") (auto intro: sym)
  ultimately show ?thesis using assms(2) by (metis fst_conv snd_conv)
qed

text \<open>One endpoint writes a stream, the other reads it.\<close>

definition socket_push :: "(nat \<Rightarrow> bool) \<Rightarrow> socket_pair \<Rightarrow> byte list \<Rightarrow> nat \<times> socket_pair" where
  "socket_push heap p xs = (case Socket_Write heap (user_buf xs) (length xs) p of
     (st, n, p') \<Rightarrow> (case n of None \<Rightarrow> 0 | Some k \<Rightarrow> k, p'))"

definition socket_pop :: "socket_pair \<Rightarrow> nat \<Rightarrow> byte list \<times> socket_pair" where
  "socket_pop p k = (case Socket_Read kConsume (user_sink k) k (prod.swap p) of
     (st, outp, n, p') \<Rightarrow> (outp, prod.swap p'))"

definition stream_inv :: "socket_pair \<Rightarrow> bool" where
  "stream_inv p \<longleftrightarrow> socket_inv p \<and> \<not> socket_datagram (body (snd p))"

definition socket_stream :: "socket_pair \<Rightarrow> byte list" where
  "socket_stream p = chain_bytes (sk_data (body (snd p)))"

lemma socket_push_law:
  assumes "stream_inv p" and "socket_push heap p xs = (n, p')"
  shows "stream_inv p' \<and> n \<le> length xs \<and> socket_stream p' = socket_stream p @ take n xs"
proof -
  obtain w r where p: "p = (w, r)" by fastforce
  obtain st m w' r' where call: "Socket_Write heap (user_buf xs) (length xs) (w, r) = (st, m, w', r')"
    by (metis prod_cases4)
  have res: "p' = (w', r')" "n = (case m of None \<Rightarrow> 0 | Some k \<Rightarrow> k)"
    using assms(2) call by (auto simp: socket_push_def p)
  have inv: "socket_inv (w, r)" and stream: "\<not> socket_datagram (body r)" using assms(1) by (auto simp: stream_inv_def p)
  have linked: "peer_linked r = peer_linked w" using inv by (simp add: socket_inv_def)
  note inv' = socket_write_inv [OF inv user_buf_view call]
  show ?thesis
  proof (cases "r' = r \<and> (m = None \<or> m = Some 0)")
    case True
    with assms(1) inv' show ?thesis by (auto simp: res p stream_inv_def socket_stream_def)
  next
    case False
    then have nf: "\<not> socket_is_full r" and l: "peer_linked r"
      and wl: "Socket_WriteSelfLocked heap (user_buf xs) (length xs) (r, w) = (st, m, r', w')"
      using call linked by (auto simp: Socket_Write_def Socket_WriteSelfLocked_def split: if_splits prod.splits)
    show ?thesis
    proof (rule write_locked_effect [OF nf l wl])
      fix k d
      assume e: "(if socket_datagram (body r) then WriteDatagram heap (user_buf xs) (length xs) (sk_data (body r))
        else WriteStream heap (user_buf xs) (length xs) (sk_data (body r))) = (st, k, d)"
        "m = (if st = ZX_OK then Some k else None)" "body r' = sk_data_update (\<lambda>_. d) (body r)"
      have wf: "chain_wf (sk_data (body r))" using inv data_ok_wf by (auto simp: socket_inv_defs)
      have ws: "WriteStream heap (user_buf xs) (length xs) (sk_data (body r)) = (st, k, d)" using e(1) stream by simp
      have "n = k" using e(2) WriteStream_user_buf [OF ws] by (simp add: res)
      with WriteStream_appends [OF user_buf_view wf ws] inv' stream e(3) show ?thesis
        by (simp add: stream_inv_def socket_stream_def res p)
    qed
  qed
qed

lemma socket_pop_law:
  assumes "stream_inv p" and "socket_pop p k = (ys, p')"
  shows "stream_inv p' \<and> length ys \<le> k \<and> socket_stream p = ys @ socket_stream p'"
proof -
  obtain w r where p: "p = (w, r)" by fastforce
  obtain st m w' r' where call: "Socket_Read kConsume (user_sink k) k (r, w) = (st, ys, m, r', w')"
    and p': "p' = (w', r')" using assms(2) by (auto simp: socket_pop_def p split: prod.splits)
  have inv: "socket_inv (r, w)" and stream: "\<not> socket_datagram (body r)"
    using assms(1) socket_inv_swap by (auto simp: stream_inv_def p)
  note inv' = socket_inv_swap [OF socket_read_inv [OF inv user_sink_wf call]]
  show ?thesis
  proof (cases "socket_is_empty r \<or> \<not> k < 2 ^ 32")
    case True
    with call have "r' = r" "ys = []" by (auto simp: Socket_Read_def split: if_splits)
    with inv' stream show ?thesis by (simp add: stream_inv_def socket_stream_def p p')
  next
    case False
    then have ne: "\<not> socket_is_empty r" "k < 2 ^ 32" by auto
    show ?thesis
    proof (rule read_effect [OF ne call])
      fix l d
      assume e: "chain_Read (user_sink k) k (socket_datagram (body r)) (sk_data (body r)) = (st, ys, l, d)"
        "body r' = sk_data_update (\<lambda>_. d) (body r)"
      have wf: "chain_wf (sk_data (body r))" using inv data_ok_wf by (auto simp: socket_inv_defs)
      obtain d' where "chain_Read (user_sink k) k False (sk_data (body r)) =
          (ZX_OK, take k (chain_bytes (sk_data (body r))), min k (length (chain_bytes (sk_data (body r)))), d')"
        "chain_bytes d' = drop k (chain_bytes (sk_data (body r)))" by (rule Read_stream_sink [OF wf order_refl])
      with e stream inv' show ?thesis by (auto simp: stream_inv_def socket_stream_def p p')
    qed
  qed
qed

interpretation socket_q: fifo_queue stream_inv socket_stream "\<lambda>_ _. True" "\<lambda>_. ()" "socket_push heap" socket_pop
  for heap
  by unfold_locales (use socket_push_law socket_pop_law in blast)+

lemma alloc_mbufs_total: "fst (alloc_mbufs (\<lambda>_. True) n bufs c)"
  by (induction n arbitrary: bufs c) (auto simp: AllocMBuf_def split: list.splits)

lemma fill_mbufs_total: "pos \<le> len \<Longrightarrow> len \<le> length buf \<Longrightarrow> fst (fill_mbufs (user_buf buf) len pos ls)"
proof (induction ls arbitrary: pos)
  case (Cons l ls)
  then have "fst (fill_mbufs (user_buf buf) len (pos + min kPayloadSize (len - pos)) ls)" by simp
  moreover have "uc_status (user_buf buf pos (min kPayloadSize (len - pos))) = ZX_OK"
    using Cons.prems by (simp add: user_buf_def)
  ultimately show ?case by (auto simp: Let_def split: prod.splits)
qed simp

lemma WriteDatagram_total:
  assumes "buf \<noteq> []" and "length buf + chain_size c \<le> kSizeMax"
  shows "fst (WriteDatagram (\<lambda>_. True) (user_buf buf) (length buf) c) = ZX_OK"
proof -
  obtain ls c1 where a: "alloc_mbufs (\<lambda>_. True) (1 + (length buf - 1) div kPayloadSize) [] c = (True, ls, c1)"
    using alloc_mbufs_total by (metis prod_cases3 fst_conv)
  obtain ls' where "fill_mbufs (user_buf buf) (length buf) 0 ls = (True, ls')"
    using fill_mbufs_total [of 0 "length buf" buf ls] by (metis fst_conv order_refl surj_pair zero_le)
  with a assms show ?thesis by (auto simp: WriteDatagram_def Let_def)
qed

text \<open>A stream write that is allowed and finds room succeeds.\<close>

lemma socket_write_accepts:
  assumes inv: "stream_inv (w, r)" and "peer_linked w" and "\<not> bit (signals (disp w)) 5"
    and "chain_size (sk_data (body r)) < kSizeMax" and "xs \<noteq> []" and "length xs < 2 ^ 32"
  obtains w' r' where "Socket_Write (\<lambda>_. True) (user_buf xs) (length xs) (w, r) =
      (ZX_OK, Some (min (length xs) (kSizeMax - chain_size (sk_data (body r)))), w', r')"
    "socket_stream (w', r') = socket_stream (w, r) @ take (kSizeMax - chain_size (sk_data (body r))) xs"
proof -
  have s: "socket_inv (w, r)" and dg: "\<not> socket_datagram (body r)" using inv by (auto simp: stream_inv_def)
  have wf: "chain_wf (sk_data (body r))" using s data_ok_wf by (auto simp: socket_inv_defs)
  have l: "peer_linked r" and nf: "\<not> socket_is_full r"
    using s assms(2,4) by (auto simp: socket_inv_def socket_size_simps)
  obtain st n w' r' where wl: "Socket_WriteSelfLocked (\<lambda>_. True) (user_buf xs) (length xs) (r, w) = (st, n, r', w')"
    by (metis prod_cases4)
  have call: "Socket_Write (\<lambda>_. True) (user_buf xs) (length xs) (w, r) = (st, n, w', r')"
    using assms(2,3,5,6) wl unfolding Socket_Write_def prod.case by (auto simp: and_socket_signals)
  obtain st1 k d where ws: "WriteStream (\<lambda>_. True) (user_buf xs) (length xs) (sk_data (body r)) = (st1, k, d)"
    by (metis prod_cases3)
  have k: "k = min (length xs) (kSizeMax - chain_size (sk_data (body r)))" "st1 = ZX_OK"
    using WriteStream_total [OF wf ws] assms(4,5) by auto
  have "st = ZX_OK \<and> n = Some k"
    by (rule write_locked_effect [OF nf l wl]) (use dg ws k(2) in auto)
  moreover have "socket_stream (w', r') = socket_stream (w, r) @ take k xs"
    using socket_push_law [OF inv, of "\<lambda>_. True" xs k "(w', r')"] call calculation by (simp add: socket_push_def)
  ultimately show thesis using that call k by (auto simp: min_def split: if_splits)
qed

lemma socket_created_stream:
  assumes "SocketDispatcher_Create alloc k0 k1 0 = Inr (a, b)"
  shows "stream_inv (b, a)" and "\<not> bit (signals (disp b)) 5" and "socket_stream (b, a) = []"
    and "chain_size (sk_data (body a)) = 0" and "peer_linked b"
  using socket_created [OF assms] socket_inv_swap [of a b] assms chain_new_wf(2)
  by (clarsimp simp: stream_inv_def socket_datagram_def socket_stream_def SocketDispatcher_Create_def
      SocketDispatcher_new_def InitPeer_def PeeredDispatcher_new_def Dispatcher_new_def bit_object_signals
      Let_def split: if_splits)+

text \<open>
  C4. In every state a socket pair can reach by any sequence of operations on its endpoints,
  the signals tell the truth about the buffers: \<open>ZX_SOCKET_READABLE\<close> is shown exactly when data
  can be read, \<open>ZX_SOCKET_READ_THRESHOLD\<close> exactly when the data reaches the threshold,
  \<open>ZX_SOCKET_WRITE_THRESHOLD\<close> exactly when the free space of the peer does, the disabled states of
  the two sides agree, and a stream endpoint that may write into a buffer with room always shows
  \<open>ZX_SOCKET_WRITABLE\<close>, so no writer that waits for it sleeps forever.
\<close>

theorem socket_signals_truthful:
  assumes "SocketDispatcher_Create alloc k0 k1 flags = Inr p" and "socket_step\<^sup>*\<^sup>* p (a, b)"
  shows "(signals (disp a) AND ZX_OBJECT_READABLE \<noteq> 0 \<longleftrightarrow> chain_bytes (sk_data (body a)) \<noteq> []) \<and>
    (signals (disp a) AND ZX_SOCKET_READ_THRESHOLD \<noteq> 0 \<longleftrightarrow> 0 < read_threshold (body a) \<and>
      read_threshold (body a) \<le> length (chain_bytes (sk_data (body a)))) \<and>
    (peer_linked a \<longrightarrow>
      (signals (disp a) AND ZX_SOCKET_WRITE_THRESHOLD \<noteq> 0 \<longleftrightarrow> 0 < write_threshold (body a) \<and>
        write_threshold (body a) \<le> kSizeMax - length (chain_bytes (sk_data (body b)))) \<and>
      (signals (disp b) AND ZX_SOCKET_PEER_WRITE_DISABLED \<noteq> 0 \<longleftrightarrow>
        signals (disp a) AND ZX_SOCKET_WRITE_DISABLED \<noteq> 0) \<and>
      (\<not> socket_datagram (body b) \<and> signals (disp a) AND ZX_SOCKET_WRITE_DISABLED = 0 \<and>
        length (chain_bytes (sk_data (body b))) < kSizeMax \<longrightarrow> signals (disp a) AND ZX_OBJECT_WRITABLE \<noteq> 0))"
proof -
  have inv: "socket_inv (a, b)" by (rule socket_reachable_inv [OF assms])
  then have ab: "socket_side a b" and ba: "socket_side b a" and l: "peer_linked b = peer_linked a"
    by (auto simp: socket_inv_def)
  have sz: "chain_size (sk_data (body a)) = length (chain_bytes (sk_data (body a)))"
    "chain_size (sk_data (body b)) = length (chain_bytes (sk_data (body b)))"
    using socket_sideD(1) [OF ab] socket_sideD(1) [OF ba] data_ok_wf chain_wf_size by auto
  note bits = ZX_OBJECT_READABLE_def ZX_OBJECT_WRITABLE_def ZX_SOCKET_READ_THRESHOLD_def
    ZX_SOCKET_WRITE_THRESHOLD_def ZX_SOCKET_PEER_WRITE_DISABLED_def ZX_SOCKET_WRITE_DISABLED_def
  have clear: "s AND 2 ^ 5 = 0 \<longleftrightarrow> \<not> bit s 5" for s :: zx_signals using and_exp_nonzero [of s 5] by auto
  show ?thesis
    unfolding bits and_exp_nonzero clear
    using socket_sideD(2,3) [OF ab] socket_sideD(5,6,8) [OF ba] l unfolding sz by blast
qed

theorem socket_signals_truthful_witness:
  "\<exists>a b a' b'. SocketDispatcher_Create (\<lambda>_. True) 1 2 0 = Inr (a, b) \<and> socket_step\<^sup>*\<^sup>* (a, b) (b', a') \<and>
     signals (disp b') AND ZX_OBJECT_READABLE \<noteq> 0"
proof -
  obtain a b where ab: "SocketDispatcher_Create (\<lambda>_. True) 1 2 0 = Inr (a, b)"
    by (simp add: SocketDispatcher_Create_def Let_def)
  note c = socket_created_stream [OF ab]
  have room: "chain_size (sk_data (body a)) < kSizeMax" using c(4) by (simp add: kSizeMax_def kPayloadSize_def)
  obtain b' a' where w: "Socket_Write (\<lambda>_. True) (user_buf [7]) (length [7]) (b, a) =
      (ZX_OK, Some (min (length [7 :: byte]) (kSizeMax - chain_size (sk_data (body a)))), b', a')"
    and s: "socket_stream (b', a') = socket_stream (b, a) @ take (kSizeMax - chain_size (sk_data (body a))) [7]"
    by (rule socket_write_accepts [OF c(1,5,2) room, of "[7]"]) auto
  have steps: "socket_step\<^sup>*\<^sup>* (a, b) (a', b')"
    by (rule r_into_rtranclp, rule step_other_side, rule step_write [OF user_buf_view w])
  have "chain_bytes (sk_data (body a')) \<noteq> []" using s room by (simp add: socket_stream_def)
  with socket_signals_truthful [OF ab steps] ab steps show ?thesis by blast
qed







lemma dgrams_ok_nonempty: "dgrams_ok bs \<Longrightarrow> [] \<notin> set (dgrams_of bs)"
  by (induction bs rule: dgrams_of.induct) auto

lemma dgrams_nonempty: "dgram_wf c \<Longrightarrow> [] \<notin> set (chain_dgrams c)"
  unfolding dgram_wf_def chain_dgrams_def using dgrams_ok_nonempty by blast

text \<open>A copy that fails at once consumes the datagram and reports no byte.\<close>

lemma Read_dgram_fault:
  assumes wf: "dgram_wf c" and "\<And>bs. uc_status (dst 0 bs) = ZX_ERR_INVALID_ARGS" and "0 < len"
    and "0 < chain_size c" and call: "chain_Read dst len True c = (st, outp, n, c')"
  shows "st = ZX_ERR_INVALID_ARGS \<and> n = 0"
proof -
  obtain b bs where bufs: "buffers c = b # bs"
    using assms(1,4) by (cases "buffers c") (auto simp: dgram_wf_def chain_wf_def chain_bytes_def bytes_from_def)
  have "mb_pkt_len b \<noteq> 0" using wf bufs dgrams_ok_head [of b bs] unfolding dgram_wf_def by metis
  moreover have "read_cursor_off c \<le> mb_len b" using wf bufs by (simp add: dgram_wf_def chain_wf_def off_ok_def)
  ultimately have loop: "\<exists>o1 r1 c1. chain_read_loop dst l True 0 (read_cursor_off c) c = (ZX_ERR_INVALID_ARGS, o1, 0, r1, c1)"
    if "0 < l" for l
    using assms(2) that bufs by (subst chain_read_loop.simps) (simp add: read_chunk_def Let_def)
  let ?l = "if len > mb_pkt_len (hd (buffers c)) then mb_pkt_len (hd (buffers c)) else len"
  have pos: "0 < ?l" using assms(3) \<open>mb_pkt_len b \<noteq> 0\<close> bufs by simp
  obtain o1 r1 c1 where "chain_read_loop dst ?l True 0 (read_cursor_off c) c = (ZX_ERR_INVALID_ARGS, o1, 0, r1, c1)"
    using loop [OF pos] by blast
  then show ?thesis using call assms(4) by (auto simp: chain_Read_def Let_def split: prod.splits)
qed

text \<open>
  C27. A reader's bad buffer can leave a datagram writer waiting forever. In any reachable state
  of a datagram pair where the reader's buffer is full and the writer does not show
  \<open>ZX_SOCKET_WRITABLE\<close>, a read whose copy to the user fails at once drops the first datagram, so
  the buffer has room again, but the writer still does not show \<open>ZX_SOCKET_WRITABLE\<close>.
\<close>

theorem socket_fault_loses_wakeup:
  assumes "SocketDispatcher_Create alloc k0 k1 ZX_SOCKET_DATAGRAM = Inr p" and "socket_step\<^sup>*\<^sup>* p (r, w)"
    and "socket_datagram (body r)" and "chain_size (sk_data (body r)) = kSizeMax"
    and "signals (disp w) AND ZX_OBJECT_WRITABLE = 0"
    and "\<And>bs. uc_status (dst 0 bs) = ZX_ERR_INVALID_ARGS" and "user_out_wf dst" and "0 < len" and "len < 2 ^ 32"
    and "Socket_Read kConsume dst len (r, w) = (st, outp, n, r', w')"
  shows "st = ZX_ERR_INVALID_ARGS \<and> chain_size (sk_data (body r')) < kSizeMax \<and>
    signals (disp w') AND ZX_OBJECT_WRITABLE = 0"
proof -
  have inv: "socket_inv (r, w)" by (rule socket_reachable_inv [OF assms(1,2)])
  then have wf: "dgram_wf (sk_data (body r))" using assms(3) by (simp add: socket_inv_defs data_ok_def)
  have pos: "0 < chain_size (sk_data (body r))" using assms(4) by (simp add: kSizeMax_def)
  then have ne: "\<not> socket_is_empty r" by (simp add: socket_size_simps)
  have clear: "s AND ZX_OBJECT_WRITABLE = 0 \<longleftrightarrow> \<not> bit s 1" for s :: zx_signals
    unfolding ZX_OBJECT_WRITABLE_def using and_exp_nonzero [of s 1] by auto
  show ?thesis
  proof (rule read_effect [OF ne assms(9,10)])
    fix m d
    assume e: "chain_Read dst len (socket_datagram (body r)) (sk_data (body r)) = (st, outp, m, d)"
      "body r' = sk_data_update (\<lambda>_. d) (body r)"
      "\<And>k. bit (signals (disp w')) k \<longleftrightarrow> bit (signals (disp w)) k \<or>
       peer_linked r \<and> (k = 1 \<and> socket_is_full r \<and> 0 < m \<or>
       k = 11 \<and> 0 < write_threshold (body w) \<and> write_threshold (body w) \<le> kSizeMax - chain_size d)"
    have call: "chain_Read dst len True (sk_data (body r)) = (st, outp, m, d)" using e(1) assms(3) by simp
    note f = Read_dgram_fault [OF wf assms(6,8) pos call]
    have d: "dgram_wf d" "chain_dgrams d = tl (chain_dgrams (sk_data (body r)))"
      using Read_dgram [OF assms(7) wf assms(8) call] by auto
    have "chain_size d < chain_size (sk_data (body r))"
      using dgrams_nonempty [OF wf] pos
      by (cases "chain_dgrams (sk_data (body r))") (auto simp: dgram_size [OF wf] dgram_size [OF d(1)] d(2))
    then show ?thesis using f e(2,3) assms(4,5) by (simp add: clear)
  qed
qed

theorem socket_fault_loses_wakeup_witness:
  "\<exists>a b a1 b1 st outp n a2 b2. SocketDispatcher_Create (\<lambda>_. True) 1 2 ZX_SOCKET_DATAGRAM = Inr (a, b) \<and>
     socket_step\<^sup>*\<^sup>* (a, b) (a1, b1) \<and>
     Socket_Read kConsume (\<lambda>_ _. \<lparr>uc_bytes = [], uc_status = ZX_ERR_INVALID_ARGS, uc_fault = True\<rparr>) 1 (a1, b1) =
       (st, outp, n, a2, b2) \<and>
     peer_linked b2 \<and> chain_size (sk_data (body a2)) < kSizeMax \<and> signals (disp b2) AND ZX_OBJECT_WRITABLE = 0"
proof -
  let ?dst = "\<lambda>_ _. \<lparr>uc_bytes = [], uc_status = ZX_ERR_INVALID_ARGS, uc_fault = True\<rparr> :: user_copy"
  define xs :: "byte list" where "xs = replicate kSizeMax 0"
  have len: "length xs = kSizeMax" "xs \<noteq> []" by (simp_all add: xs_def kSizeMax_def)
  obtain a b where ab: "SocketDispatcher_Create (\<lambda>_. True) 1 2 ZX_SOCKET_DATAGRAM = Inr (a, b)"
    by (simp add: SocketDispatcher_Create_def Let_def ZX_SOCKET_CREATE_MASK_def)
  note c = socket_created [OF ab]
  have dg: "socket_datagram (body a)" using c(5) by (simp add: socket_datagram_def ZX_SOCKET_DATAGRAM_def)
  have b: "peer_linked a" "peer_linked b" "\<not> bit (signals (disp b)) 5"
    using ab by (clarsimp simp: SocketDispatcher_Create_def SocketDispatcher_new_def InitPeer_def
        PeeredDispatcher_new_def Dispatcher_new_def bit_object_signals Let_def split: if_splits)+
  have nf: "\<not> socket_is_full a" using c(3) by (simp add: socket_size_simps kSizeMax_def)
  obtain st n a1 b1 where wl: "Socket_WriteSelfLocked (\<lambda>_. True) (user_buf xs) (length xs) (a, b) = (st, n, a1, b1)"
    by (metis prod_cases4)
  have "kSizeMax mod 2 ^ 32 = kSizeMax" "kSizeMax \<noteq> 0" by (simp_all add: kSizeMax_def kPayloadSize_def)
  then have w: "Socket_Write (\<lambda>_. True) (user_buf xs) (length xs) (b, a) = (st, n, b1, a1)"
    using b wl len unfolding Socket_Write_def prod.case by (simp add: and_socket_signals)
  have steps: "socket_step\<^sup>*\<^sup>* (a, b) (a1, b1)"
    by (rule r_into_rtranclp, rule step_other_side, rule step_write [OF user_buf_view w])
  have full: "chain_size (sk_data (body a1)) = kSizeMax \<and> \<not> bit (signals (disp b1)) 1 \<and> peer_linked b1 \<and>
      socket_datagram (body a1)"
  proof (rule write_locked_effect [OF nf b(1) wl])
    fix k d
    assume e: "(if socket_datagram (body a) then WriteDatagram (\<lambda>_. True) (user_buf xs) (length xs) (sk_data (body a))
        else WriteStream (\<lambda>_. True) (user_buf xs) (length xs) (sk_data (body a))) = (st, k, d)"
      "body a1 = sk_data_update (\<lambda>_. d) (body a)" "peer_linked b1 = peer_linked b"
      "\<And>i. bit (signals (disp b1)) i \<longleftrightarrow> bit (signals (disp b)) i \<and> \<not> (i = 1 \<and> chain_is_full d) \<and>
       \<not> (i = 11 \<and> 0 < k \<and> 0 < write_threshold (body b) \<and> kSizeMax - chain_size d < write_threshold (body b))"
    have wd: "WriteDatagram (\<lambda>_. True) (user_buf xs) (length xs) MBufChain_new = (st, k, d)" using e(1) dg c(3) by simp
    have "st = ZX_OK" using WriteDatagram_total [OF len(2), of MBufChain_new] wd len(1) by simp
    then have "chain_dgrams d = [xs]" "dgram_wf d"
      using WriteDatagram_atomic [OF user_buf_view chain_new_dgram(1) wd] chain_new_dgram(2) by auto
    then have "chain_size d = kSizeMax" using dgram_size [of d] len(1) by simp
    then show ?thesis using e(2-4) b(2) dg by (simp add: chain_is_full_def)
  qed
  obtain st' outp n' a2 b2 where r: "Socket_Read kConsume ?dst 1 (a1, b1) = (st', outp, n', a2, b2)"
    by (metis prod_cases5)
  have clear: "signals (disp b1) AND ZX_OBJECT_WRITABLE = 0"
    using full unfolding ZX_OBJECT_WRITABLE_def using and_exp_nonzero [of "signals (disp b1)" 1] by auto
  have "chain_size (sk_data (body a2)) < kSizeMax \<and> signals (disp b2) AND ZX_OBJECT_WRITABLE = 0"
    using socket_fault_loses_wakeup [OF ab steps _ _ clear _ _ _ _ r] full by (simp add: user_out_wf_def)
  moreover have "peer_linked b2"
    using r full by (auto simp: Socket_Read_def Let_def split: if_splits prod.splits)
  ultimately show ?thesis using ab steps r by blast
qed

end
