(* ===== verification/Time.thy ===== *)
theory Time
  imports Prelude
begin

text \<open>
  Time arithmetic (\<^verbatim>\<open>system/public/zircon/time.h\<close>) and deadlines with slack
  (\<^verbatim>\<open>kernel/include/kernel/deadline.h\<close>, \<^verbatim>\<open>kernel/kernel/deadline.cc\<close>). Times, durations and
  ticks are 64-bit signed numbers; they are integers here, with the wrap-around of the machine
  operation written out as \<open>wrap64\<close>.
\<close>

section \<open>Saturating arithmetic\<close>

type_synonym zx_time = int
type_synonym zx_duration = int
type_synonym zx_ticks = int

definition ZX_TIME_INFINITE :: int where "ZX_TIME_INFINITE = 2 ^ 63 - 1"
definition ZX_TIME_INFINITE_PAST :: int where "ZX_TIME_INFINITE_PAST = - (2 ^ 63)"

definition wrap64 :: "int \<Rightarrow> int" where
  "wrap64 x = (x + 2 ^ 63) mod 2 ^ 64 - 2 ^ 63"

definition int64 :: "int \<Rightarrow> bool" where
  "int64 x \<longleftrightarrow> ZX_TIME_INFINITE_PAST \<le> x \<and> x \<le> ZX_TIME_INFINITE"

text \<open>The overflow builtins return whether the exact result was lost, and the wrapped one.\<close>

definition add_overflow :: "int \<Rightarrow> int \<Rightarrow> bool \<times> int" where
  "add_overflow a b = (wrap64 (a + b) \<noteq> a + b, wrap64 (a + b))"

definition sub_overflow :: "int \<Rightarrow> int \<Rightarrow> bool \<times> int" where
  "sub_overflow a b = (wrap64 (a - b) \<noteq> a - b, wrap64 (a - b))"

definition mul_overflow :: "int \<Rightarrow> int \<Rightarrow> bool \<times> int" where
  "mul_overflow a b = (wrap64 (a * b) \<noteq> a * b, wrap64 (a * b))"

definition zx_time_add_duration :: "zx_time \<Rightarrow> zx_duration \<Rightarrow> zx_time" where
  "zx_time_add_duration time duration =
     (let (overflow, x) = add_overflow time duration
      in if overflow then if x \<ge> 0 then ZX_TIME_INFINITE_PAST else ZX_TIME_INFINITE else x)"

definition zx_time_sub_duration :: "zx_time \<Rightarrow> zx_duration \<Rightarrow> zx_time" where
  "zx_time_sub_duration time duration =
     (let (overflow, x) = sub_overflow time duration
      in if overflow then if x \<ge> 0 then ZX_TIME_INFINITE_PAST else ZX_TIME_INFINITE else x)"

definition zx_time_sub_time :: "zx_time \<Rightarrow> zx_time \<Rightarrow> zx_duration" where
  "zx_time_sub_time time1 time2 =
     (let (overflow, x) = sub_overflow time1 time2
      in if overflow then if x \<ge> 0 then ZX_TIME_INFINITE_PAST else ZX_TIME_INFINITE else x)"

definition zx_duration_add_duration :: "zx_duration \<Rightarrow> zx_duration \<Rightarrow> zx_duration" where
  "zx_duration_add_duration dur1 dur2 =
     (let (overflow, x) = add_overflow dur1 dur2
      in if overflow then if x \<ge> 0 then ZX_TIME_INFINITE_PAST else ZX_TIME_INFINITE else x)"

definition zx_duration_sub_duration :: "zx_duration \<Rightarrow> zx_duration \<Rightarrow> zx_duration" where
  "zx_duration_sub_duration dur1 dur2 =
     (let (overflow, x) = sub_overflow dur1 dur2
      in if overflow then if x \<ge> 0 then ZX_TIME_INFINITE_PAST else ZX_TIME_INFINITE else x)"

definition zx_duration_mul_int64 :: "zx_duration \<Rightarrow> int \<Rightarrow> zx_duration" where
  "zx_duration_mul_int64 duration multiplier =
     (let (overflow, x) = mul_overflow duration multiplier
      in if overflow
         then if (duration > 0 \<and> multiplier > 0) \<or> (duration < 0 \<and> multiplier < 0)
              then ZX_TIME_INFINITE else ZX_TIME_INFINITE_PAST
         else x)"

definition zx_nsec_from_duration :: "zx_duration \<Rightarrow> int" where "zx_nsec_from_duration n = n"

definition zx_duration_from_nsec :: "int \<Rightarrow> zx_duration" where
  "zx_duration_from_nsec n = zx_duration_mul_int64 1 n"

definition zx_duration_from_usec :: "int \<Rightarrow> zx_duration" where
  "zx_duration_from_usec n = zx_duration_mul_int64 1000 n"

definition zx_duration_from_msec :: "int \<Rightarrow> zx_duration" where
  "zx_duration_from_msec n = zx_duration_mul_int64 1000000 n"

definition zx_duration_from_sec :: "int \<Rightarrow> zx_duration" where
  "zx_duration_from_sec n = zx_duration_mul_int64 1000000000 n"

definition zx_duration_from_min :: "int \<Rightarrow> zx_duration" where
  "zx_duration_from_min n = zx_duration_mul_int64 60000000000 n"

definition zx_duration_from_hour :: "int \<Rightarrow> zx_duration" where
  "zx_duration_from_hour n = zx_duration_mul_int64 3600000000000 n"

definition zx_ticks_add_ticks :: "zx_ticks \<Rightarrow> zx_ticks \<Rightarrow> zx_ticks" where
  "zx_ticks_add_ticks ticks1 ticks2 =
     (let (overflow, x) = add_overflow ticks1 ticks2
      in if overflow then if x \<ge> 0 then ZX_TIME_INFINITE_PAST else ZX_TIME_INFINITE else x)"

definition zx_ticks_sub_ticks :: "zx_ticks \<Rightarrow> zx_ticks \<Rightarrow> zx_ticks" where
  "zx_ticks_sub_ticks ticks1 ticks2 =
     (let (overflow, x) = sub_overflow ticks1 ticks2
      in if overflow then if x \<ge> 0 then ZX_TIME_INFINITE_PAST else ZX_TIME_INFINITE else x)"

definition zx_ticks_mul_int64 :: "zx_ticks \<Rightarrow> int \<Rightarrow> zx_ticks" where
  "zx_ticks_mul_int64 ticks multiplier =
     (let (overflow, x) = mul_overflow ticks multiplier
      in if overflow
         then if (ticks > 0 \<and> multiplier > 0) \<or> (ticks < 0 \<and> multiplier < 0)
              then ZX_TIME_INFINITE else ZX_TIME_INFINITE_PAST
         else x)"

text \<open>Division and remainder of C round towards zero.\<close>

record timespec =
  tv_sec :: int
  tv_nsec :: int

definition c_div :: "int \<Rightarrow> int \<Rightarrow> int" where
  "c_div a b = sgn a * sgn b * (\<bar>a\<bar> div \<bar>b\<bar>)"

definition c_mod :: "int \<Rightarrow> int \<Rightarrow> int" where
  "c_mod a b = a - b * c_div a b"

definition zx_duration_from_timespec :: "timespec \<Rightarrow> zx_duration" where
  "zx_duration_from_timespec ts =
     zx_duration_add_duration (zx_duration_from_sec (tv_sec ts)) (zx_duration_from_nsec (tv_nsec ts))"

definition zx_timespec_from_duration :: "zx_duration \<Rightarrow> timespec" where
  "zx_timespec_from_duration duration =
     \<lparr>tv_sec = c_div duration 1000000000, tv_nsec = c_mod duration 1000000000\<rparr>"

definition zx_time_from_timespec :: "timespec \<Rightarrow> zx_time" where
  "zx_time_from_timespec ts = zx_duration_from_timespec ts"

definition zx_timespec_from_time :: "zx_time \<Rightarrow> timespec" where
  "zx_timespec_from_time time = zx_timespec_from_duration time"

section \<open>Deadlines\<close>

datatype slack_mode = TIMER_SLACK_CENTER | TIMER_SLACK_EARLY | TIMER_SLACK_LATE

record timer_slack =
  ts_amount :: zx_duration
  ts_mode :: slack_mode

definition TimerSlack_none :: timer_slack where
  "TimerSlack_none = \<lparr>ts_amount = 0, ts_mode = TIMER_SLACK_CENTER\<rparr>"

record deadline =
  dl_when :: zx_time
  dl_slack :: timer_slack

definition Deadline_no_slack :: "zx_time \<Rightarrow> deadline" where
  "Deadline_no_slack w = \<lparr>dl_when = w, dl_slack = TimerSlack_none\<rparr>"

definition Deadline_after :: "zx_time \<Rightarrow> zx_duration \<Rightarrow> timer_slack \<Rightarrow> deadline" where
  "Deadline_after current_time after s = \<lparr>dl_when = zx_time_add_duration current_time after, dl_slack = s\<rparr>"

definition Deadline_infinite :: deadline where
  "Deadline_infinite = \<lparr>dl_when = ZX_TIME_INFINITE, dl_slack = TimerSlack_none\<rparr>"

definition Deadline_infinite_past :: deadline where
  "Deadline_infinite_past = \<lparr>dl_when = ZX_TIME_INFINITE_PAST, dl_slack = TimerSlack_none\<rparr>"

definition earliest :: "deadline \<Rightarrow> zx_time" where
  "earliest d = (case ts_mode (dl_slack d) of
     TIMER_SLACK_CENTER \<Rightarrow> zx_time_sub_duration (dl_when d) (ts_amount (dl_slack d))
   | TIMER_SLACK_LATE \<Rightarrow> dl_when d
   | TIMER_SLACK_EARLY \<Rightarrow> zx_time_sub_duration (dl_when d) (ts_amount (dl_slack d)))"

definition latest :: "deadline \<Rightarrow> zx_time" where
  "latest d = (case ts_mode (dl_slack d) of
     TIMER_SLACK_CENTER \<Rightarrow> zx_time_add_duration (dl_when d) (ts_amount (dl_slack d))
   | TIMER_SLACK_LATE \<Rightarrow> zx_time_add_duration (dl_when d) (ts_amount (dl_slack d))
   | TIMER_SLACK_EARLY \<Rightarrow> dl_when d)"

section \<open>The operations clamp the exact result\<close>

text \<open>The reference: the exact result, moved to the nearest representable value.\<close>

definition clamp :: "int \<Rightarrow> int" where
  "clamp x = max ZX_TIME_INFINITE_PAST (min ZX_TIME_INFINITE x)"

lemmas time_limits = ZX_TIME_INFINITE_def ZX_TIME_INFINITE_PAST_def

lemma wrap64_fits: "wrap64 x = x \<longleftrightarrow> int64 x"
proof -
  have "wrap64 x = x \<longleftrightarrow> (x + 2 ^ 63) mod 2 ^ 64 = x + 2 ^ 63" by (auto simp: wrap64_def)
  also have "\<dots> \<longleftrightarrow> 0 \<le> x + 2 ^ 63 \<and> x + 2 ^ 63 < 2 ^ 64" by (auto simp: mod_pos_pos_trivial dest: sym)
  also have "\<dots> \<longleftrightarrow> int64 x" by (auto simp: int64_def time_limits)
  finally show ?thesis .
qed

lemma wrap64_above: "2 ^ 63 \<le> x \<Longrightarrow> x < 2 ^ 64 \<Longrightarrow> wrap64 x < 0"
proof -
  assume x: "2 ^ 63 \<le> x" "x < 2 ^ 64"
  have "(x + 2 ^ 63) mod 2 ^ 64 = (x + 2 ^ 63 - 2 ^ 64) mod 2 ^ 64" by (simp only: minus_mod_self2)
  also have "\<dots> = x + 2 ^ 63 - 2 ^ 64" using x by (intro mod_pos_pos_trivial) auto
  finally show ?thesis using x by (simp add: wrap64_def)
qed

lemma wrap64_below: "- (2 ^ 64) \<le> x \<Longrightarrow> x < - (2 ^ 63) \<Longrightarrow> 0 \<le> wrap64 x"
proof -
  assume x: "- (2 ^ 64) \<le> x" "x < - (2 ^ 63)"
  have "(x + 2 ^ 63) mod 2 ^ 64 = (x + 2 ^ 63 + 2 ^ 64) mod 2 ^ 64" by (simp only: mod_add_self2)
  also have "\<dots> = x + 2 ^ 63 + 2 ^ 64" using x by (intro mod_pos_pos_trivial) auto
  finally show ?thesis using x by (simp add: wrap64_def)
qed

lemma saturate_clamp:
  assumes "- (2 ^ 64) \<le> x" and "x < 2 ^ 64"
  shows "(if wrap64 x \<noteq> x then if wrap64 x \<ge> 0 then ZX_TIME_INFINITE_PAST else ZX_TIME_INFINITE else wrap64 x) = clamp x"
proof (cases "int64 x")
  case True
  then have "wrap64 x = x" by (simp add: wrap64_fits)
  moreover have "clamp x = x" using True by (simp add: clamp_def int64_def)
  ultimately show ?thesis by simp
next
  case False
  then consider "x < - (2 ^ 63)" | "2 ^ 63 \<le> x" by (auto simp: int64_def time_limits)
  then show ?thesis
  proof cases
    case 1
    then have "clamp x = ZX_TIME_INFINITE_PAST" by (simp add: clamp_def time_limits)
    with 1 False wrap64_below [OF assms(1)] show ?thesis by (simp add: wrap64_fits)
  next
    case 2
    then have "clamp x = ZX_TIME_INFINITE" by (simp add: clamp_def time_limits)
    with 2 False wrap64_above [OF 2 assms(2)] show ?thesis by (simp add: wrap64_fits)
  qed
qed

lemmas time_sums = zx_time_add_duration_def zx_time_sub_duration_def zx_time_sub_time_def
  zx_duration_add_duration_def zx_duration_sub_duration_def zx_ticks_add_ticks_def zx_ticks_sub_ticks_def
  add_overflow_def sub_overflow_def

lemma add_clamp: "int64 a \<Longrightarrow> int64 b \<Longrightarrow> zx_time_add_duration a b = clamp (a + b)"
  unfolding time_sums Let_def prod.case by (rule saturate_clamp) (auto simp: int64_def time_limits)

lemma sub_clamp: "int64 a \<Longrightarrow> int64 b \<Longrightarrow> zx_time_sub_duration a b = clamp (a - b)"
  unfolding time_sums Let_def prod.case by (rule saturate_clamp) (auto simp: int64_def time_limits)

lemma same_operation:
  "zx_time_sub_time = zx_time_sub_duration" "zx_duration_add_duration = zx_time_add_duration"
  "zx_duration_sub_duration = zx_time_sub_duration" "zx_ticks_add_ticks = zx_time_add_duration"
  "zx_ticks_sub_ticks = zx_time_sub_duration" "zx_ticks_mul_int64 = zx_duration_mul_int64"
  by (intro ext; simp add: time_sums zx_ticks_mul_int64_def zx_duration_mul_int64_def)+

lemma mul_clamp: "zx_duration_mul_int64 a b = clamp (a * b)"
proof (cases "int64 (a * b)")
  case True
  then have "wrap64 (a * b) = a * b" "clamp (a * b) = a * b" by (simp_all add: wrap64_fits clamp_def int64_def)
  then show ?thesis by (simp add: zx_duration_mul_int64_def mul_overflow_def)
next
  case False
  have pos: "0 < a * b \<longleftrightarrow> (a > 0 \<and> b > 0) \<or> (a < 0 \<and> b < 0)" by (simp add: zero_less_mult_iff)
  from False consider "a * b < - (2 ^ 63)" | "2 ^ 63 \<le> a * b" by (auto simp: int64_def time_limits)
  then have "clamp (a * b) = (if 0 < a * b then ZX_TIME_INFINITE else ZX_TIME_INFINITE_PAST)"
    by cases (auto simp: clamp_def time_limits)
  with False pos show ?thesis by (simp add: zx_duration_mul_int64_def mul_overflow_def wrap64_fits)
qed

lemma clamp_int64 [simp]: "int64 (clamp x)"
  by (auto simp: clamp_def int64_def time_limits)

lemma clamp_id: "int64 x \<Longrightarrow> clamp x = x"
  by (simp add: clamp_def int64_def)

lemma clamp_mono: "x \<le> y \<Longrightarrow> clamp x \<le> clamp y"
  by (auto simp: clamp_def)

text \<open>A deadline lies in its own window.\<close>

lemma deadline_window:
  assumes "int64 (dl_when d)" and "int64 (ts_amount (dl_slack d))" and "0 \<le> ts_amount (dl_slack d)"
  shows "earliest d \<le> dl_when d" and "dl_when d \<le> latest d"
proof -
  have "clamp (dl_when d - ts_amount (dl_slack d)) \<le> clamp (dl_when d)"
    "clamp (dl_when d) \<le> clamp (dl_when d + ts_amount (dl_slack d))"
    using assms(3) by (auto intro: clamp_mono)
  then show "earliest d \<le> dl_when d" "dl_when d \<le> latest d"
    using assms(1,2) by (auto simp: earliest_def latest_def add_clamp sub_clamp clamp_id split: slack_mode.splits)
qed

section \<open>Properties\<close>

text \<open>
  C28. Every operation on times, durations and ticks clamps: for 64-bit arguments the result is
  the exact sum, difference or product if it is representable, and otherwise the nearest of
  \<open>ZX_TIME_INFINITE\<close> and \<open>ZX_TIME_INFINITE_PAST\<close>, although the code decides by the sign of the
  wrapped result.
\<close>

theorem time_saturates:
  assumes "int64 a" and "int64 b"
  shows "zx_time_add_duration a b = clamp (a + b) \<and> zx_time_sub_duration a b = clamp (a - b) \<and>
    zx_time_sub_time a b = clamp (a - b) \<and> zx_duration_add_duration a b = clamp (a + b) \<and>
    zx_duration_sub_duration a b = clamp (a - b) \<and> zx_ticks_add_ticks a b = clamp (a + b) \<and>
    zx_ticks_sub_ticks a b = clamp (a - b) \<and> zx_duration_mul_int64 a b = clamp (a * b) \<and>
    zx_ticks_mul_int64 a b = clamp (a * b) \<and> zx_duration_from_sec a = clamp (1000000000 * a)"
  unfolding same_operation zx_duration_from_sec_def
  using assms by (simp add: add_clamp sub_clamp mul_clamp)

theorem time_saturates_witness:
  "zx_time_add_duration ZX_TIME_INFINITE 1 = ZX_TIME_INFINITE \<and>
   zx_time_sub_duration ZX_TIME_INFINITE_PAST 1 = ZX_TIME_INFINITE_PAST"
proof -
  have "int64 ZX_TIME_INFINITE" "int64 ZX_TIME_INFINITE_PAST" "int64 1" by (simp_all add: int64_def time_limits)
  from time_saturates [OF this(1,3)] time_saturates [OF this(2,3)] show ?thesis
    by (simp add: clamp_def time_limits)
qed

text \<open>
  A duration survives the conversion to seconds and nanoseconds and back, for every 64-bit
  duration, negative ones included; and the nanosecond part is smaller than a second in size and
  has the sign of the duration.
\<close>

theorem timespec_round_trip:
  assumes "int64 d"
  shows "zx_duration_from_timespec (zx_timespec_from_duration d) = d \<and>
    \<bar>tv_nsec (zx_timespec_from_duration d)\<bar> < 1000000000 \<and> 0 \<le> d * tv_nsec (zx_timespec_from_duration d)"
proof -
  let ?q = "c_div d 1000000000" and ?r = "c_mod d 1000000000"
  have split: "1000000000 * ?q + ?r = d" by (simp add: c_mod_def)
  have r: "?r = sgn d * (\<bar>d\<bar> mod 1000000000)" and q: "?q = sgn d * (\<bar>d\<bar> div 1000000000)"
    using mult_sgn_abs [of d] div_mult_mod_eq [of "\<bar>d\<bar>" 1000000000]
    by (auto simp: c_mod_def c_div_def algebra_simps minus_div_mult_eq_mod [symmetric])
  have size: "\<bar>?r\<bar> < 1000000000" "0 \<le> d * ?r" "\<bar>1000000000 * ?q\<bar> \<le> \<bar>d\<bar>" "0 \<le> d * ?q"
    unfolding r q by (auto simp: abs_mult sgn_if mult_nonneg_nonneg mult_nonpos_nonneg)
  have "int64 (1000000000 * ?q)" using assms size(3,4) by (auto simp: int64_def time_limits zero_le_mult_iff)
  moreover have "int64 ?r" using size(1) by (auto simp: int64_def time_limits)
  ultimately have "zx_duration_from_timespec (zx_timespec_from_duration d) = clamp (1000000000 * ?q + ?r)"
    by (simp add: zx_duration_from_timespec_def zx_timespec_from_duration_def zx_duration_from_sec_def
        zx_duration_from_nsec_def same_operation mul_clamp clamp_id add_clamp)
  then show ?thesis using size assms by (simp add: split clamp_id zx_timespec_from_duration_def)
qed

theorem timespec_round_trip_witness:
  "zx_duration_from_timespec (zx_timespec_from_duration (- 1500000000)) = - 1500000000"
proof -
  have "int64 (- 1500000000)" by (simp add: int64_def time_limits)
  from timespec_round_trip [OF this] show ?thesis by simp
qed

end
