(* ===== verification/Timer_Queue.thy ===== *)
theory Timer_Queue
  imports Time
begin

text \<open>
  Kernel timers (\<^verbatim>\<open>kernel/kernel/timer.cc\<close>, \<^verbatim>\<open>kernel/include/kernel/timer.h\<close>): the per-CPU
  queues, ordered by scheduled time, with coalescing of timers whose slack windows overlap, and
  the platform's one-shot timer that must ring no later than the first entry. A queue holds the
  timers with their scheduled time and applied slack; the flags of a timer that outlive its stay
  in a queue (active CPU, cancel request) are kept by timer identity. The whole state is protected
  by one spin lock, so an operation is a function on it; \<open>None\<close> is a kernel panic.
\<close>

section \<open>State\<close>

record timer =
  t_id :: nat
  scheduled_time :: zx_time
  t_slack :: zx_duration

record timer_queue =
  timer_list :: "timer list"
  preempt_timer_deadline :: zx_time
  next_timer_deadline :: zx_time
  platform_timer :: "zx_time option"

record timer_flags =
  active_cpu :: "nat option"
  t_cancel :: bool
  t_callback :: bool

record timers =
  queues :: "nat \<Rightarrow> timer_queue"
  flags :: "nat \<Rightarrow> timer_flags"

definition TimerQueue_new :: timer_queue where
  "TimerQueue_new = \<lparr>timer_list = [], preempt_timer_deadline = ZX_TIME_INFINITE,
     next_timer_deadline = ZX_TIME_INFINITE, platform_timer = None\<rparr>"

definition Timer_new :: timer_flags where
  "Timer_new = \<lparr>active_cpu = None, t_cancel = False, t_callback = False\<rparr>"

section \<open>Operations of a queue\<close>

definition UpdatePlatformTimer :: "zx_time \<Rightarrow> timer_queue \<Rightarrow> timer_queue" where
  "UpdatePlatformTimer new_deadline q =
     (if new_deadline < next_timer_deadline q
      then q\<lparr>platform_timer := Some new_deadline, next_timer_deadline := new_deadline\<rparr>
      else q)"

text \<open>\<open>coalesce t e\<close> is the timer \<open>t\<close> moved to the time of the entry \<open>e\<close>.\<close>

definition coalesce :: "timer \<Rightarrow> timer \<Rightarrow> timer" where
  "coalesce t e = t\<lparr>t_slack := zx_time_sub_time (scheduled_time e) (scheduled_time t),
                   scheduled_time := scheduled_time e\<rparr>"

definition next_fits_better :: "timer \<Rightarrow> timer \<Rightarrow> zx_time \<Rightarrow> timer list \<Rightarrow> bool" where
  "next_fits_better t e latest_deadline rest = (case rest of
     [] \<Rightarrow> False
   | n # _ \<Rightarrow> scheduled_time n \<le> scheduled_time t \<or>
       (scheduled_time n < latest_deadline \<and>
        zx_time_sub_time (scheduled_time n) (scheduled_time t)
          < zx_time_sub_time (scheduled_time t) (scheduled_time e)))"

fun insert_timer :: "timer \<Rightarrow> zx_time \<Rightarrow> zx_time \<Rightarrow> timer list \<Rightarrow> timer list" where
  "insert_timer t earliest_deadline latest_deadline [] = [t\<lparr>t_slack := 0\<rparr>]"
| "insert_timer t earliest_deadline latest_deadline (e # es) =
     (if scheduled_time e > latest_deadline then t\<lparr>t_slack := 0\<rparr> # e # es
      else if scheduled_time e \<ge> scheduled_time t then e # coalesce t e # es
      else if scheduled_time e < earliest_deadline
      then e # insert_timer t earliest_deadline latest_deadline es
      else if next_fits_better t e latest_deadline es
      then e # insert_timer t earliest_deadline latest_deadline es
      else e # coalesce t e # es)"

definition TimerQueue_Insert :: "timer \<Rightarrow> zx_time \<Rightarrow> zx_time \<Rightarrow> timer_queue \<Rightarrow> timer_queue" where
  "TimerQueue_Insert t earliest_deadline latest_deadline q =
     q\<lparr>timer_list := insert_timer t earliest_deadline latest_deadline (timer_list q)\<rparr>"

definition PreemptReset :: "zx_time \<Rightarrow> timer_queue \<Rightarrow> timer_queue" where
  "PreemptReset deadline q = UpdatePlatformTimer deadline (q\<lparr>preempt_timer_deadline := deadline\<rparr>)"

definition PreemptArmed :: "timer_queue \<Rightarrow> bool" where
  "PreemptArmed q \<longleftrightarrow> preempt_timer_deadline q \<noteq> ZX_TIME_INFINITE"

text \<open>The loop of \<open>TransitionOffCpu\<close>: the source's timers, from the front, without slack.\<close>

fun insert_all :: "timer list \<Rightarrow> timer_queue \<Rightarrow> timer_queue" where
  "insert_all [] q = q"
| "insert_all (t # ts) q = insert_all ts (TimerQueue_Insert t (scheduled_time t) (scheduled_time t) q)"

definition head_id :: "timer_queue \<Rightarrow> nat option" where
  "head_id q = (case timer_list q of [] \<Rightarrow> None | t # _ \<Rightarrow> Some (t_id t))"

definition TransitionOffCpu :: "timer_queue \<Rightarrow> timer_queue \<Rightarrow> timer_queue \<times> timer_queue" where
  "TransitionOffCpu q source =
     (let old_head = head_id q;
          q1 = insert_all (timer_list source) q;
          q2 = (case timer_list q1 of
                  [] \<Rightarrow> q1
                | t # _ \<Rightarrow> if head_id q1 \<noteq> old_head then UpdatePlatformTimer (scheduled_time t) q1 else q1)
      in (q2, source\<lparr>timer_list := [], preempt_timer_deadline := ZX_TIME_INFINITE,
                     next_timer_deadline := ZX_TIME_INFINITE\<rparr>))"

section \<open>Operations of timers\<close>

definition set_queue :: "nat \<Rightarrow> timer_queue \<Rightarrow> timers \<Rightarrow> timers" where
  "set_queue cpu q s = s\<lparr>queues := (queues s)(cpu := q)\<rparr>"

definition set_flags :: "nat \<Rightarrow> timer_flags \<Rightarrow> timers \<Rightarrow> timers" where
  "set_flags i f s = s\<lparr>flags := (flags s)(i := f)\<rparr>"

definition queued_on :: "nat \<Rightarrow> timer_queue \<Rightarrow> bool" where
  "queued_on i q \<longleftrightarrow> i \<in> t_id ` set (timer_list q)"

text \<open>\<open>cpus\<close> lists the CPUs; \<open>InContainer\<close> is being on the queue of one of them.\<close>

definition InContainer :: "nat list \<Rightarrow> nat \<Rightarrow> timers \<Rightarrow> bool" where
  "InContainer cpus i s \<longleftrightarrow> (\<exists>c\<in>set cpus. queued_on i (queues s c))"

definition Timer_Set :: "nat list \<Rightarrow> nat \<Rightarrow> nat \<Rightarrow> deadline \<Rightarrow> timers \<Rightarrow> timers option" where
  "Timer_Set cpus cpu i dl s =
     (if InContainer cpus i s then None
      else
        let f = flags s i
        in if active_cpu f = Some cpu \<and> t_cancel f then Some s
           else if active_cpu f \<noteq> Some cpu \<and> active_cpu f \<noteq> None then None
           else
             let s1 = set_flags i (f\<lparr>t_callback := True, t_cancel := False\<rparr>) s;
                 t = \<lparr>t_id = i, scheduled_time = dl_when dl, t_slack = 0\<rparr>;
                 q = TimerQueue_Insert t (earliest dl) (latest dl) (queues s cpu)
             in Some (set_queue cpu
                  (if head_id q = Some i then UpdatePlatformTimer (dl_when dl) q else q) s1))"

definition Timer_SetOneshot :: "nat list \<Rightarrow> nat \<Rightarrow> nat \<Rightarrow> zx_time \<Rightarrow> timers \<Rightarrow> timers option" where
  "Timer_SetOneshot cpus cpu i dl s = Timer_Set cpus cpu i (Deadline_no_slack dl) s"

definition remove_timer :: "nat \<Rightarrow> timer_queue \<Rightarrow> timer_queue" where
  "remove_timer i q = q\<lparr>timer_list := filter (\<lambda>t. t_id t \<noteq> i) (timer_list q)\<rparr>"

text \<open>
  \<open>Cancel\<close> up to the release of the lock. A timer that is active on another CPU is then waited
  for, which changes nothing of the state but the callback pointer; \<open>must_wait\<close> says whether that
  wait is needed. Removing it from whatever queue it is on is removing it from all.
\<close>

definition after_removal :: "nat \<Rightarrow> timer_queue \<Rightarrow> timer_queue \<Rightarrow> timer_queue" where
  "after_removal i old q =
     (if head_id old = Some i
      then (case timer_list q of
              t # _ \<Rightarrow> UpdatePlatformTimer (scheduled_time t) q
            | [] \<Rightarrow> if next_timer_deadline q = ZX_TIME_INFINITE then q\<lparr>platform_timer := None\<rparr> else q)
      else q)"

definition Timer_Cancel :: "nat list \<Rightarrow> nat \<Rightarrow> nat \<Rightarrow> timers \<Rightarrow> bool \<times> bool \<times> timers" where
  "Timer_Cancel cpus cpu i s =
     (let f = (flags s i)\<lparr>t_cancel := True, t_callback := False\<rparr>;
          s1 = set_flags i f s
      in if active_cpu f = Some cpu then (False, False, s1)
         else if InContainer cpus i s
         then let s2 = s1\<lparr>queues := (\<lambda>c. remove_timer i (queues s c))\<rparr>
              in (True, active_cpu f \<noteq> None,
                  set_queue cpu (after_removal i (queues s cpu) (queues s2 cpu)) s2)
         else (False, active_cpu f \<noteq> None, s1))"

text \<open>
  The interrupt. \<open>cb i now\<close> is the effect of the callback of timer \<open>i\<close> on the timers (it may set
  and cancel timers, this one included); it runs with the lock released, so other CPUs may change
  the state as well, which \<open>cb\<close> covers. A callback that keeps setting timers in the past would be
  called forever; \<open>fuel\<close> bounds the number of calls.
\<close>

fun TickInternal :: "nat \<Rightarrow> (nat \<Rightarrow> zx_time \<Rightarrow> timers \<Rightarrow> timers) \<Rightarrow> zx_time \<Rightarrow> nat \<Rightarrow> timers
    \<Rightarrow> (nat list \<times> timers) option" where
  "TickInternal 0 cb now cpu s = None"
| "TickInternal (Suc fuel) cb now cpu s =
     (case timer_list (queues s cpu) of
        [] \<Rightarrow> Some ([], s)
      | t # ts \<Rightarrow>
          if now < scheduled_time t then Some ([], s)
          else
            let i = t_id t;
                s1 = set_queue cpu ((queues s cpu)\<lparr>timer_list := ts\<rparr>) s;
                s2 = set_flags i ((flags s1 i)\<lparr>active_cpu := Some cpu\<rparr>) s1;
                s3 = cb i now s2;
                s4 = set_flags i ((flags s3 i)\<lparr>active_cpu := None\<rparr>) s3
            in (case TickInternal fuel cb now cpu s4 of
                  None \<Rightarrow> None
                | Some (fired, s5) \<Rightarrow> Some (i # fired, s5)))"

definition queue_deadline :: "timer_queue \<Rightarrow> zx_time" where
  "queue_deadline q = (case timer_list q of [] \<Rightarrow> ZX_TIME_INFINITE | t # _ \<Rightarrow> scheduled_time t)"

text \<open>\<open>sched_tick\<close> is \<open>Scheduler::TimerTick\<close>, which may reset the preemption timer.\<close>

definition TimerQueue_Tick :: "nat \<Rightarrow> (nat \<Rightarrow> zx_time \<Rightarrow> timers \<Rightarrow> timers) \<Rightarrow> (timer_queue \<Rightarrow> timer_queue)
    \<Rightarrow> zx_time \<Rightarrow> nat \<Rightarrow> timers \<Rightarrow> (nat list \<times> timers) option" where
  "TimerQueue_Tick fuel cb sched_tick now cpu s =
     (let q0 = (queues s cpu)\<lparr>next_timer_deadline := ZX_TIME_INFINITE, platform_timer := None\<rparr>;
          q1 = (if now \<ge> preempt_timer_deadline q0
                then sched_tick (q0\<lparr>preempt_timer_deadline := ZX_TIME_INFINITE\<rparr>) else q0)
      in case TickInternal fuel cb now cpu (set_queue cpu q1 s) of
           None \<Rightarrow> None
         | Some (fired, s1) \<Rightarrow>
             let q = queues s1 cpu;
                 deadline = (if preempt_timer_deadline q < queue_deadline q
                             then preempt_timer_deadline q else queue_deadline q)
             in Some (fired, set_queue cpu (UpdatePlatformTimer deadline q) s1))"

section \<open>Inserting a timer\<close>

abbreviation times :: "timer list \<Rightarrow> zx_time list" where
  "times ts \<equiv> map scheduled_time ts"

lemma coalesce_fields [simp]:
  "t_id (coalesce t e) = t_id t" "scheduled_time (coalesce t e) = scheduled_time e"
  "t_slack (coalesce t e) = zx_time_sub_time (scheduled_time e) (scheduled_time t)"
  by (simp_all add: coalesce_def)

text \<open>The entries of the queue are untouched and keep their order; the new timer is among them.\<close>

definition fresh_id :: "timer \<Rightarrow> timer list \<Rightarrow> bool" where
  "fresh_id t xs \<longleftrightarrow> (\<forall>y\<in>set xs. t_id y \<noteq> t_id t)"

lemma fresh_id_simps [simp]:
  "fresh_id t []" "fresh_id t (e # es) \<longleftrightarrow> t_id e \<noteq> t_id t \<and> fresh_id t es"
  by (auto simp: fresh_id_def)

lemma fresh_idD: "fresh_id t xs \<Longrightarrow> y \<in> set xs \<Longrightarrow> t_id y = t_id t \<Longrightarrow> False"
  by (auto simp: fresh_id_def)

lemma insert_timer_frame:
  "fresh_id t xs \<Longrightarrow> filter (\<lambda>x. t_id x \<noteq> t_id t) (insert_timer t early late xs) = xs"
proof (induction xs)
  case (Cons e es)
  have "filter (\<lambda>x. t_id x \<noteq> t_id t) es = es" using Cons.prems by (intro filter_True) (auto simp: fresh_id_def)
  with Cons show ?case by auto
qed simp

lemma insert_timer_ids: "t_id ` set (insert_timer t early late xs) = insert (t_id t) (t_id ` set xs)"
  by (induction xs) auto

lemma insert_timer_times: "set (times (insert_timer t early late xs)) \<subseteq> insert (scheduled_time t) (set (times xs))"
  by (induction xs) auto

lemma insert_timer_sorted:
  "sorted (times xs) \<Longrightarrow> scheduled_time t \<le> late \<Longrightarrow> sorted (times (insert_timer t early late xs))"
proof (induction xs)
  case (Cons e es)
  have "\<forall>x\<in>set (insert_timer t early late es). scheduled_time e \<le> scheduled_time x" if "scheduled_time e < scheduled_time t"
    using that Cons.prems(1) insert_timer_times [of t early late es] by fastforce
  with Cons show ?case by auto
qed simp

text \<open>Where the new timer goes.\<close>

lemma insert_timer_window:
  "early \<le> scheduled_time t \<Longrightarrow> scheduled_time t \<le> late \<Longrightarrow> fresh_id t xs \<Longrightarrow>
   x \<in> set (insert_timer t early late xs) \<Longrightarrow> t_id x = t_id t \<Longrightarrow>
   early \<le> scheduled_time x \<and> scheduled_time x \<le> late \<and>
   (t_slack x = zx_time_sub_time (scheduled_time x) (scheduled_time t) \<or> (t_slack x = 0 \<and> scheduled_time x = scheduled_time t))"
  by (induction xs) (auto split: if_splits dest: fresh_idD)

lemma next_fits_better_cases:
  assumes "next_fits_better t e late es"
  obtains n ns where "es = n # ns" "scheduled_time n \<le> scheduled_time t"
  | n ns where "es = n # ns" "scheduled_time t < scheduled_time n" "scheduled_time n < late"
      "zx_time_sub_time (scheduled_time n) (scheduled_time t) < zx_time_sub_time (scheduled_time t) (scheduled_time e)"
  using assms by (cases es) (fastforce simp: next_fits_better_def)+

lemma insert_timer_joins:
  "sorted (times xs) \<Longrightarrow> early \<le> scheduled_time t \<Longrightarrow> scheduled_time t \<le> late \<Longrightarrow> fresh_id t xs \<Longrightarrow>
   e \<in> set xs \<Longrightarrow> early \<le> scheduled_time e \<Longrightarrow> scheduled_time e \<le> late \<Longrightarrow>
   x \<in> set (insert_timer t early late xs) \<Longrightarrow> t_id x = t_id t \<Longrightarrow> scheduled_time x \<in> set (times xs)"
proof (induction xs arbitrary: e)
  case (Cons a xs)
  consider "scheduled_time a \<ge> scheduled_time t" | "scheduled_time a < scheduled_time t" "scheduled_time a < early"
    | "scheduled_time a < scheduled_time t" "early \<le> scheduled_time a" "next_fits_better t a late xs"
    | "scheduled_time a < scheduled_time t" "early \<le> scheduled_time a" "\<not> next_fits_better t a late xs" by linarith
  then show ?case
  proof cases
    case 1
    with Cons.prems show ?thesis by (auto split: if_splits dest: fresh_idD)
  next
    case 2
    with Cons.prems have "e \<in> set xs" "x \<in> set (insert_timer t early late xs)" by auto
    then show ?thesis using Cons.IH [of e] Cons.prems by simp
  next
    case 3
    then have x: "x \<in> set (insert_timer t early late xs)" using Cons.prems by auto
    from 3(3) obtain n ns where n: "xs = n # ns" "scheduled_time n \<le> late"
      by (rule next_fits_better_cases) (use Cons.prems(3) in auto)
    moreover have "early \<le> scheduled_time n" using 3(2) n(1) Cons.prems(1) by simp
    ultimately have "scheduled_time x \<in> set (times xs)" using Cons.IH [of n] Cons.prems x by simp
    then show ?thesis by simp
  next
    case 4
    with Cons.prems show ?thesis by (auto dest: fresh_idD)
  qed
qed simp

lemma exact_difference:
  "0 \<le> a \<Longrightarrow> 0 \<le> b \<Longrightarrow> int64 a \<Longrightarrow> int64 b \<Longrightarrow> zx_time_sub_time a b = a - b"
  by (simp add: same_operation sub_clamp clamp_id int64_def time_limits)

definition plain_time :: "zx_time \<Rightarrow> bool" where
  "plain_time x \<longleftrightarrow> 0 \<le> x \<and> int64 x"

lemma insert_timer_nearest:
  "sorted (times xs) \<Longrightarrow> early \<le> scheduled_time t \<Longrightarrow> scheduled_time t \<le> late \<Longrightarrow> fresh_id t xs \<Longrightarrow>
   plain_time (scheduled_time t) \<Longrightarrow> \<forall>y\<in>set xs. plain_time (scheduled_time y) \<Longrightarrow>
   e \<in> set xs \<Longrightarrow> early \<le> scheduled_time e \<Longrightarrow> scheduled_time e < late \<Longrightarrow>
   x \<in> set (insert_timer t early late xs) \<Longrightarrow> t_id x = t_id t \<Longrightarrow>
   \<bar>scheduled_time x - scheduled_time t\<bar> \<le> \<bar>scheduled_time e - scheduled_time t\<bar>"
proof (induction xs arbitrary: e)
  case (Cons a xs)
  note plain = Cons.prems(5,6)
  consider "scheduled_time a \<ge> scheduled_time t" | "scheduled_time a < scheduled_time t" "scheduled_time a < early"
    | "scheduled_time a < scheduled_time t" "early \<le> scheduled_time a" "next_fits_better t a late xs"
    | "scheduled_time a < scheduled_time t" "early \<le> scheduled_time a" "\<not> next_fits_better t a late xs" by linarith
  then show ?case
  proof cases
    case 1
    have "scheduled_time a \<le> scheduled_time e" using Cons.prems(1,7) by auto
    with 1 Cons.prems show ?thesis by (auto split: if_splits dest: fresh_idD)
  next
    case 2
    with Cons.prems have "e \<in> set xs" "x \<in> set (insert_timer t early late xs)" by auto
    then show ?thesis using Cons.IH [of e] Cons.prems by simp
  next
    case 3
    then have x: "x \<in> set (insert_timer t early late xs)" using Cons.prems by auto
    have IH: "e' \<in> set xs \<Longrightarrow> early \<le> scheduled_time e' \<Longrightarrow> scheduled_time e' < late \<Longrightarrow>
        \<bar>scheduled_time x - scheduled_time t\<bar> \<le> \<bar>scheduled_time e' - scheduled_time t\<bar>" for e'
      using Cons.IH [of e'] Cons.prems x by simp
    have "\<bar>scheduled_time x - scheduled_time t\<bar> \<le> scheduled_time t - scheduled_time a"
      using 3(3)
    proof (cases rule: next_fits_better_cases)
      case (1 n ns)
      have an: "scheduled_time a \<le> scheduled_time n" using Cons.prems(1) 1(1) by simp
      show ?thesis
      proof (cases "scheduled_time n < late")
        case True
        then show ?thesis using IH [of n] 1 an 3(2) by simp
      next
        case False
        then have "scheduled_time n = scheduled_time t" "scheduled_time t = late" using 1(2) Cons.prems(3) by auto
        then have "scheduled_time x = scheduled_time t" using x 1(1) Cons.prems(4,11) by (auto dest: fresh_idD)
        then show ?thesis using 3(1) by simp
      qed
    next
      case (2 n ns)
      have "scheduled_time n - scheduled_time t < scheduled_time t - scheduled_time a"
        using 2(4) plain 2(1) by (simp add: exact_difference plain_time_def)
      then show ?thesis using IH [of n] 2 Cons.prems(2) by simp
    qed
    then show ?thesis using IH Cons.prems(7-9) 3(1) by (cases "e = a") auto
  next
    case 4
    then have x: "scheduled_time x = scheduled_time a" using Cons.prems by (auto dest: fresh_idD)
    show ?thesis
    proof (cases "e = a")
      case False
      then obtain n ns where n: "xs = n # ns" "scheduled_time n \<le> scheduled_time e"
        using Cons.prems(1,7) by (cases xs) auto
      have "scheduled_time t < scheduled_time n"
        "scheduled_time t - scheduled_time a \<le> scheduled_time n - scheduled_time t"
        using 4(3) n Cons.prems(9) plain by (auto simp: next_fits_better_def exact_difference plain_time_def)
      then show ?thesis using x n(2) 4(1) by simp
    qed (use x in simp)
  qed
qed simp

section \<open>The invariant of the queues\<close>

text \<open>
  A queue is sorted and agrees with the platform timer. Outside of the interrupt handler the
  platform timer also rings no later than the first entry and the preemption deadline.
\<close>

definition queue_wf :: "timer_queue \<Rightarrow> bool" where
  "queue_wf q \<longleftrightarrow> sorted (times (timer_list q)) \<and> (\<forall>x\<in>set (times (timer_list q)). x \<le> ZX_TIME_INFINITE) \<and>
     next_timer_deadline q \<le> ZX_TIME_INFINITE \<and>
     (next_timer_deadline q \<noteq> ZX_TIME_INFINITE \<longrightarrow> platform_timer q = Some (next_timer_deadline q))"

definition queue_armed :: "timer_queue \<Rightarrow> bool" where
  "queue_armed q \<longleftrightarrow> next_timer_deadline q \<le> queue_deadline q \<and> next_timer_deadline q \<le> preempt_timer_deadline q"

definition ids_ok :: "nat list \<Rightarrow> timers \<Rightarrow> bool" where
  "ids_ok cpus s \<longleftrightarrow> (\<forall>c\<in>set cpus. distinct (map t_id (timer_list (queues s c)))) \<and>
     (\<forall>c\<in>set cpus. \<forall>d\<in>set cpus. c \<noteq> d \<longrightarrow>
        t_id ` set (timer_list (queues s c)) \<inter> t_id ` set (timer_list (queues s d)) = {})"

text \<open>\<open>ticking\<close> is the set of CPUs that are in the interrupt handler.\<close>

definition timers_inv :: "nat list \<Rightarrow> nat set \<Rightarrow> timers \<Rightarrow> bool" where
  "timers_inv cpus ticking s \<longleftrightarrow> ids_ok cpus s \<and>
     (\<forall>c\<in>set cpus. queue_wf (queues s c) \<and> (c \<notin> ticking \<longrightarrow> queue_armed (queues s c)))"

lemma UpdatePlatformTimer_fields [simp]:
  "timer_list (UpdatePlatformTimer d q) = timer_list q"
  "preempt_timer_deadline (UpdatePlatformTimer d q) = preempt_timer_deadline q"
  "next_timer_deadline (UpdatePlatformTimer d q) = min d (next_timer_deadline q)"
  "queue_deadline (UpdatePlatformTimer d q) = queue_deadline q"
  by (simp_all add: UpdatePlatformTimer_def queue_deadline_def)

lemma UpdatePlatformTimer_wf: "queue_wf q \<Longrightarrow> queue_wf (UpdatePlatformTimer d q)"
  by (auto simp: queue_wf_def UpdatePlatformTimer_def)

lemma UpdatePlatformTimer_armed: "queue_armed q \<Longrightarrow> queue_armed (UpdatePlatformTimer d q)"
  by (auto simp: queue_armed_def)

lemma queue_fields [simp]:
  "queues (set_queue c q s) = (queues s)(c := q)" "flags (set_queue c q s) = flags s"
  "queues (set_flags i f s) = queues s" "flags (set_flags i f s) = (flags s)(i := f)"
  by (simp_all add: set_queue_def set_flags_def)

text \<open>The head of a queue after an insertion.\<close>

lemma insert_timer_head:
  assumes "fresh_id t xs"
  shows "(\<exists>ys. insert_timer t early late xs = t\<lparr>t_slack := 0\<rparr> # ys) \<or>
    (\<exists>e es ys. xs = e # es \<and> insert_timer t early late xs = e # ys)"
  by (cases xs) auto

lemma insert_queue_wf:
  assumes "queue_wf q" and "scheduled_time t \<le> late" and "scheduled_time t \<le> ZX_TIME_INFINITE"
  shows "queue_wf (TimerQueue_Insert t early late q)"
proof -
  have "\<forall>x\<in>set (times (insert_timer t early late (timer_list q))). x \<le> ZX_TIME_INFINITE"
    using assms(1,3) insert_timer_times [of t early late "timer_list q"] by (auto simp: queue_wf_def)
  then show ?thesis using assms insert_timer_sorted by (simp add: queue_wf_def TimerQueue_Insert_def)
qed

lemma insert_queue_armed:
  assumes "queue_armed q" and "fresh_id t (timer_list q)" and "head_id (TimerQueue_Insert t early late q) \<noteq> Some (t_id t)"
  shows "queue_armed (TimerQueue_Insert t early late q)"
  using insert_timer_head [OF assms(2), of early late] assms(1,3)
  by (auto simp: queue_armed_def TimerQueue_Insert_def head_id_def queue_deadline_def)

lemma insert_queue_armed_head:
  assumes "queue_armed q" and "fresh_id t (timer_list q)" and "head_id (TimerQueue_Insert t early late q) = Some (t_id t)"
  shows "queue_armed (UpdatePlatformTimer (scheduled_time t) (TimerQueue_Insert t early late q))"
  using insert_timer_head [OF assms(2), of early late] assms
  by (auto simp: queue_armed_def TimerQueue_Insert_def head_id_def queue_deadline_def)

lemma insert_queue_ids:
  "t_id ` set (timer_list (TimerQueue_Insert t early late q)) = insert (t_id t) (t_id ` set (timer_list q))"
  by (simp add: TimerQueue_Insert_def insert_timer_ids)

lemma insert_timer_distinct:
  "distinct (map t_id xs) \<Longrightarrow> fresh_id t xs \<Longrightarrow> distinct (map t_id (insert_timer t early late xs))"
proof (induction xs)
  case (Cons e es)
  have "t_id e \<notin> t_id ` set (insert_timer t early late es)" using Cons.prems by (auto simp: insert_timer_ids)
  with Cons show ?case by (auto dest: fresh_idD simp: fresh_id_def)
qed simp

lemma fresh_id_iff: "fresh_id t xs \<longleftrightarrow> t_id t \<notin> t_id ` set xs"
  unfolding fresh_id_def by (metis image_iff)

definition valid_deadline :: "deadline \<Rightarrow> bool" where
  "valid_deadline dl \<longleftrightarrow> int64 (dl_when dl) \<and> int64 (ts_amount (dl_slack dl)) \<and> 0 \<le> ts_amount (dl_slack dl)"

lemma ids_ok_update:
  assumes "ids_ok cpus s" and "cpu \<in> set cpus" and "distinct (map t_id (timer_list q))"
    and "\<forall>c\<in>set cpus. c \<noteq> cpu \<longrightarrow> t_id ` set (timer_list q) \<inter> t_id ` set (timer_list (queues s c)) = {}"
  shows "ids_ok cpus (set_queue cpu q s)"
  using assms by (auto simp: ids_ok_def)

lemma Timer_Set_inv:
  assumes inv: "timers_inv cpus M s" and cpu: "cpu \<in> set cpus" and dl: "valid_deadline dl"
    and call: "Timer_Set cpus cpu i dl s = Some s'"
  shows "timers_inv cpus M s'"
proof (cases "active_cpu (flags s i) = Some cpu \<and> t_cancel (flags s i)")
  case True
  with call inv show ?thesis by (auto simp: Timer_Set_def Let_def split: if_splits)
next
  case False
  define t where "t = \<lparr>t_id = i, scheduled_time = dl_when dl, t_slack = 0\<rparr>"
  define q where "q = TimerQueue_Insert t (earliest dl) (latest dl) (queues s cpu)"
  define q' where "q' = (if head_id q = Some i then UpdatePlatformTimer (dl_when dl) q else q)"
  have out: "\<not> InContainer cpus i s" and s': "s' = set_queue cpu q' (set_flags i ((flags s i)\<lparr>t_callback := True, t_cancel := False\<rparr>) s)"
    using call False by (auto simp: Timer_Set_def Let_def t_def [symmetric] q_def [symmetric] q'_def split: if_splits)
  have fresh: "\<forall>c\<in>set cpus. fresh_id t (timer_list (queues s c))"
    using out by (auto simp: InContainer_def queued_on_def fresh_id_def t_def)
  have late: "scheduled_time t \<le> latest dl" using deadline_window(2) dl by (simp add: t_def valid_deadline_def)
  have "scheduled_time t \<le> ZX_TIME_INFINITE" using dl by (simp add: t_def valid_deadline_def int64_def)
  then have wf: "queue_wf q'"
    using inv cpu insert_queue_wf [OF _ late] UpdatePlatformTimer_wf by (auto simp: timers_inv_def q_def q'_def)
  have armed: "queue_armed q'" if "cpu \<notin> M"
    using inv cpu that fresh insert_queue_armed [of "queues s cpu" t "earliest dl" "latest dl"]
      insert_queue_armed_head [of "queues s cpu" t "earliest dl" "latest dl"]
    by (auto simp: timers_inv_def q_def q'_def t_def)
  have list: "timer_list q' = insert_timer t (earliest dl) (latest dl) (timer_list (queues s cpu))"
    by (simp add: q'_def q_def TimerQueue_Insert_def)
  have "ids_ok cpus (set_queue cpu q' s)"
  proof (rule ids_ok_update)
    show "ids_ok cpus s" using inv by (simp add: timers_inv_def)
    show "cpu \<in> set cpus" by (rule cpu)
    show "distinct (map t_id (timer_list q'))"
      using inv cpu fresh insert_timer_distinct by (simp add: list timers_inv_def ids_ok_def)
    show "\<forall>c\<in>set cpus. c \<noteq> cpu \<longrightarrow> t_id ` set (timer_list q') \<inter> t_id ` set (timer_list (queues s c)) = {}"
      using inv cpu fresh by (auto simp: list insert_timer_ids fresh_id_iff timers_inv_def ids_ok_def)
  qed
  then show ?thesis using inv wf armed by (auto simp: timers_inv_def ids_ok_def s')
qed

lemma remove_timer_wf: "queue_wf q \<Longrightarrow> queue_wf (remove_timer i q)"
  by (auto simp: queue_wf_def remove_timer_def intro: sorted_filter)

lemma remove_timer_deadline: "queue_wf q \<Longrightarrow> queue_deadline q \<le> queue_deadline (remove_timer i q)"
  by (cases "timer_list q"; cases "timer_list (remove_timer i q)")
    (auto simp: queue_deadline_def remove_timer_def queue_wf_def filter_eq_Cons_iff split: if_splits)

lemma remove_timer_armed: "queue_wf q \<Longrightarrow> queue_armed q \<Longrightarrow> queue_armed (remove_timer i q)"
  using remove_timer_deadline [of q i] by (auto simp: queue_armed_def remove_timer_def)

lemma after_removal_wf: "queue_wf q \<Longrightarrow> queue_wf (after_removal i old q)"
  by (auto simp: after_removal_def UpdatePlatformTimer_wf split: list.splits) (simp add: queue_wf_def)

lemma after_removal_armed: "queue_armed q \<Longrightarrow> queue_armed (after_removal i old q)"
  by (auto simp: after_removal_def UpdatePlatformTimer_armed split: list.splits)
    (simp add: queue_armed_def queue_deadline_def)

lemma after_removal_list [simp]: "timer_list (after_removal i old q) = timer_list q"
  by (simp add: after_removal_def split: list.splits)

lemma ids_ok_shrink:
  assumes "ids_ok cpus s" and "\<forall>c\<in>set cpus. timer_list (queues s' c) = filter P (timer_list (queues s c))"
  shows "ids_ok cpus s'"
proof -
  have sub: "t_id ` set (timer_list (queues s' c)) \<subseteq> t_id ` set (timer_list (queues s c))" if "c \<in> set cpus" for c
    using assms(2) that by auto
  show ?thesis
    unfolding ids_ok_def
  proof (intro conjI ballI impI)
    fix c assume "c \<in> set cpus"
    then show "distinct (map t_id (timer_list (queues s' c)))"
      using assms by (simp add: ids_ok_def distinct_map_filter)
  next
    fix c d assume cd: "c \<in> set cpus" "d \<in> set cpus" "c \<noteq> d"
    then have "t_id ` set (timer_list (queues s c)) \<inter> t_id ` set (timer_list (queues s d)) = {}"
      using assms(1) by (simp add: ids_ok_def)
    then show "t_id ` set (timer_list (queues s' c)) \<inter> t_id ` set (timer_list (queues s' d)) = {}"
      using sub [OF cd(1)] sub [OF cd(2)] by blast
  qed
qed

lemma timers_inv_flags: "timers_inv cpus M s \<Longrightarrow> queues s' = queues s \<Longrightarrow> timers_inv cpus M s'"
  by (simp add: timers_inv_def ids_ok_def)

lemma Timer_Cancel_inv:
  assumes inv: "timers_inv cpus M s" and call: "Timer_Cancel cpus cpu i s = (b, w, s')"
  shows "timers_inv cpus M s'"
proof (cases "active_cpu (flags s i) \<noteq> Some cpu \<and> InContainer cpus i s")
  case False
  with call have "queues s' = queues s" by (auto simp: Timer_Cancel_def Let_def split: if_splits)
  then show ?thesis by (rule timers_inv_flags [OF inv])
next
  case True
  have q: "queues s' c = (if c = cpu then after_removal i (queues s cpu) (remove_timer i (queues s cpu))
      else remove_timer i (queues s c))" for c
    using call True by (auto simp: Timer_Cancel_def Let_def)
  have "ids_ok cpus s'"
    by (rule ids_ok_shrink [where s = s and P = "\<lambda>t. t_id t \<noteq> i"])
      (use inv in \<open>auto simp: q remove_timer_def timers_inv_def\<close>)
  then show ?thesis using inv
    by (auto simp: timers_inv_def q remove_timer_wf remove_timer_armed after_removal_wf after_removal_armed)
qed

lemma PreemptReset_inv:
  assumes "timers_inv cpus M s" and "d \<le> ZX_TIME_INFINITE"
  shows "timers_inv cpus M (set_queue cpu (PreemptReset d (queues s cpu)) s)"
proof -
  let ?q = "PreemptReset d (queues s cpu)"
  have list: "timer_list ?q = timer_list (queues s cpu)" by (simp add: PreemptReset_def)
  have "ids_ok cpus (set_queue cpu ?q s)" using assms(1) by (auto simp: timers_inv_def ids_ok_def list)
  moreover have "queue_wf (queues s cpu) \<Longrightarrow> queue_wf ?q"
    by (auto simp: PreemptReset_def UpdatePlatformTimer_def queue_wf_def)
  moreover have "queue_armed (queues s cpu) \<Longrightarrow> queue_armed ?q"
    by (auto simp: PreemptReset_def queue_armed_def queue_deadline_def)
  ultimately show ?thesis using assms(1) by (auto simp: timers_inv_def)
qed

text \<open>Moving all timers of a CPU.\<close>

lemma insert_timer_old: "x \<in> set (insert_timer t early late xs) \<Longrightarrow> t_id x \<noteq> t_id t \<Longrightarrow> x \<in> set xs"
  by (induction xs) (auto split: if_splits)

lemma insert_all_old:
  "x \<in> set (timer_list (insert_all ts q)) \<Longrightarrow> t_id x \<notin> t_id ` set ts \<Longrightarrow> x \<in> set (timer_list q)"
proof (induction ts arbitrary: q)
  case (Cons t ts)
  then have "x \<in> set (timer_list (TimerQueue_Insert t (scheduled_time t) (scheduled_time t) q))" by simp
  then show ?case using Cons.prems(2) insert_timer_old by (fastforce simp: TimerQueue_Insert_def)
qed simp

lemma insert_all_wf:
  "queue_wf q \<Longrightarrow> \<forall>t\<in>set ts. scheduled_time t \<le> ZX_TIME_INFINITE \<Longrightarrow> queue_wf (insert_all ts q)"
  by (induction ts arbitrary: q) (auto intro: insert_queue_wf)

lemma insert_all_ids:
  "distinct (map t_id ts) \<Longrightarrow> distinct (map t_id (timer_list q)) \<Longrightarrow>
   t_id ` set ts \<inter> t_id ` set (timer_list q) = {} \<Longrightarrow>
   distinct (map t_id (timer_list (insert_all ts q))) \<and>
   t_id ` set (timer_list (insert_all ts q)) = t_id ` set ts \<union> t_id ` set (timer_list q)"
proof (induction ts arbitrary: q)
  case (Cons t ts)
  let ?q = "TimerQueue_Insert t (scheduled_time t) (scheduled_time t) q"
  have "distinct (map t_id (timer_list ?q))"
    using Cons.prems insert_timer_distinct by (simp add: TimerQueue_Insert_def fresh_id_iff)
  moreover have "t_id ` set ts \<inter> t_id ` set (timer_list ?q) = {}"
    using Cons.prems by (auto simp: insert_queue_ids)
  ultimately show ?case using Cons.IH [of ?q] Cons.prems(1) by (auto simp: insert_queue_ids)
qed simp

lemma insert_all_frame [simp]:
  "preempt_timer_deadline (insert_all ts q) = preempt_timer_deadline q"
  "next_timer_deadline (insert_all ts q) = next_timer_deadline q"
  by (induction ts arbitrary: q) (simp_all add: TimerQueue_Insert_def)

lemma TransitionOffCpu_queue:
  assumes "queue_wf q" and "queue_wf source" and "distinct (map t_id (timer_list q))"
    and "distinct (map t_id (timer_list source))"
    and "t_id ` set (timer_list source) \<inter> t_id ` set (timer_list q) = {}"
    and call: "TransitionOffCpu q source = (q', source')"
  shows "queue_wf q' \<and> queue_wf source' \<and> queue_armed source' \<and> (queue_armed q \<longrightarrow> queue_armed q') \<and>
    timer_list source' = [] \<and> distinct (map t_id (timer_list q')) \<and>
    t_id ` set (timer_list q') = t_id ` set (timer_list source) \<union> t_id ` set (timer_list q)"
proof -
  let ?q = "insert_all (timer_list source) q"
  have wf: "queue_wf ?q" using assms(1,2) by (intro insert_all_wf) (auto simp: queue_wf_def)
  note ids = insert_all_ids [OF assms(4,3,5)]
  have same: "scheduled_time (hd (timer_list ?q)) = scheduled_time (hd (timer_list q))"
    if "head_id ?q = head_id q" "timer_list ?q = t # ts" for t ts
  proof -
    have ht: "head_id q = Some (t_id t)" using that by (simp add: head_id_def)
    then obtain u us where u: "timer_list q = u # us" "t_id u = t_id t" by (auto simp: head_id_def split: list.splits)
    have "t_id t \<notin> t_id ` set (timer_list source)" using assms(5) u by auto
    then have "t \<in> set (timer_list q)" using insert_all_old [of t "timer_list source" q] that(2) by simp
    then have "t = u" using assms(3) u by (auto simp: image_iff)
    then show ?thesis using that(2) u(1) by simp
  qed
  have "queue_armed q'" if "queue_armed q"
  proof (cases "timer_list ?q")
    case Nil
    then have "timer_list q = []" using ids by auto
    then show ?thesis using that Nil call
      by (auto simp: TransitionOffCpu_def queue_armed_def queue_deadline_def Let_def)
  next
    case (Cons t ts)
    show ?thesis
    proof (cases "head_id ?q = head_id q")
      case True
      have "timer_list q \<noteq> []" using True Cons by (auto simp: head_id_def split: list.splits)
      then have "queue_deadline ?q = queue_deadline q"
        using same [OF True Cons] Cons by (auto simp: queue_deadline_def split: list.splits)
      then show ?thesis using that True Cons call
        by (auto simp: TransitionOffCpu_def queue_armed_def Let_def)
    next
      case False
      then show ?thesis using that Cons call
        by (auto simp: TransitionOffCpu_def queue_armed_def queue_deadline_def Let_def)
    qed
  qed
  moreover have "queue_wf q'" "timer_list q' = timer_list ?q"
    using call wf UpdatePlatformTimer_wf by (auto simp: TransitionOffCpu_def Let_def split: list.splits if_splits)
  moreover have "queue_wf source' \<and> queue_armed source' \<and> timer_list source' = []"
    using call by (auto simp: TransitionOffCpu_def Let_def queue_wf_def queue_armed_def queue_deadline_def)
  ultimately show ?thesis using ids by simp
qed

text \<open>
  What callbacks, interrupt handlers and threads do to the timers, as a list of operations. A
  \<open>Set\<close> that would panic leaves the state to be ignored; it is skipped here.
\<close>

datatype timer_op =
    OpSet nat nat deadline
  | OpCancel nat nat
  | OpPreempt nat zx_time

fun apply_op :: "nat list \<Rightarrow> timer_op \<Rightarrow> timers \<Rightarrow> timers" where
  "apply_op cpus (OpSet cpu i dl) s = (case Timer_Set cpus cpu i dl s of None \<Rightarrow> s | Some s' \<Rightarrow> s')"
| "apply_op cpus (OpCancel cpu i) s = snd (snd (Timer_Cancel cpus cpu i s))"
| "apply_op cpus (OpPreempt cpu d) s = set_queue cpu (PreemptReset d (queues s cpu)) s"

fun op_valid :: "nat list \<Rightarrow> timer_op \<Rightarrow> bool" where
  "op_valid cpus (OpSet cpu i dl) = (cpu \<in> set cpus \<and> valid_deadline dl)"
| "op_valid cpus (OpCancel cpu i) = (cpu \<in> set cpus)"
| "op_valid cpus (OpPreempt cpu d) = (d \<le> ZX_TIME_INFINITE)"

lemma apply_op_inv: "timers_inv cpus M s \<Longrightarrow> op_valid cpus op \<Longrightarrow> timers_inv cpus M (apply_op cpus op s)"
  using Timer_Cancel_inv [of cpus M s] by (cases op) (auto split: option.splits intro: Timer_Set_inv PreemptReset_inv, metis prod.collapse)

lemma apply_ops_inv:
  "timers_inv cpus M s \<Longrightarrow> \<forall>op\<in>set ops. op_valid cpus op \<Longrightarrow> timers_inv cpus M (fold (apply_op cpus) ops s)"
  by (induction ops arbitrary: s) (auto intro: apply_op_inv)

lemma tail_inv:
  assumes "timers_inv cpus M s" and "cpu \<in> M" and "timer_list (queues s cpu) = t # ts"
  shows "timers_inv cpus M (set_queue cpu ((queues s cpu)\<lparr>timer_list := ts\<rparr>) s)"
proof (cases "cpu \<in> set cpus")
  case True
  let ?q = "(queues s cpu)\<lparr>timer_list := ts\<rparr>"
  have wf: "queue_wf ?q" using assms(1,3) True by (auto simp: timers_inv_def queue_wf_def)
  have inter: "\<forall>c\<in>set cpus. c \<noteq> cpu \<longrightarrow> t_id ` set (t # ts) \<inter> t_id ` set (timer_list (queues s c)) = {}"
    using assms(1,3) True unfolding timers_inv_def ids_ok_def by metis
  have "ids_ok cpus (set_queue cpu ?q s)"
  proof (rule ids_ok_update [OF _ True])
    have "distinct (map t_id (t # ts))" using assms(1,3) True unfolding timers_inv_def ids_ok_def by metis
    then show "distinct (map t_id (timer_list ?q))" by simp
    show "\<forall>c\<in>set cpus. c \<noteq> cpu \<longrightarrow> t_id ` set (timer_list ?q) \<inter> t_id ` set (timer_list (queues s c)) = {}"
      using inter by simp
  qed (use assms(1) in \<open>simp add: timers_inv_def\<close>)
  with wf assms(1,2) show ?thesis by (auto simp: timers_inv_def)
next
  case False
  with assms(1) show ?thesis by (auto simp: timers_inv_def ids_ok_def)
qed

lemma TickInternal_inv:
  assumes "\<forall>i. \<forall>op\<in>set (ops i). op_valid cpus op" and "cpu \<in> M"
  shows "timers_inv cpus M s \<Longrightarrow>
    TickInternal fuel (\<lambda>i now. fold (apply_op cpus) (ops i)) now cpu s = Some (fired, s') \<Longrightarrow> timers_inv cpus M s'"
proof (induction fuel arbitrary: s fired)
  case (Suc fuel)
  show ?case
  proof (cases "timer_list (queues s cpu)")
    case Nil
    with Suc.prems show ?thesis by simp
  next
    case (Cons t ts)
    show ?thesis
    proof (cases "now < scheduled_time t")
      case True
      with Suc.prems Cons show ?thesis by simp
    next
      case False
      define s1 where "s1 = set_queue cpu ((queues s cpu)\<lparr>timer_list := ts\<rparr>) s"
      define s2 where "s2 = set_flags (t_id t) ((flags s1 (t_id t))\<lparr>active_cpu := Some cpu\<rparr>) s1"
      define s3 where "s3 = fold (apply_op cpus) (ops (t_id t)) s2"
      define s4 where "s4 = set_flags (t_id t) ((flags s3 (t_id t))\<lparr>active_cpu := None\<rparr>) s3"
      have "timers_inv cpus M s1" unfolding s1_def by (rule tail_inv [OF Suc.prems(1) assms(2) Cons])
      then have "timers_inv cpus M s2" by (rule timers_inv_flags) (simp add: s2_def)
      then have "timers_inv cpus M s3" using assms(1) by (auto simp: s3_def intro: apply_ops_inv)
      then have s4: "timers_inv cpus M s4" by (rule timers_inv_flags) (simp add: s4_def)
      have "\<exists>rest. TickInternal fuel (\<lambda>i now. fold (apply_op cpus) (ops i)) now cpu s4 = Some (rest, s')"
        using Suc.prems(2) Cons False
        by (auto simp: Let_def s1_def s2_def s3_def s4_def split: option.splits)
      then show ?thesis using Suc.IH [OF s4] by blast
    qed
  qed
qed simp

text \<open>The scheduler's part of the interrupt may set the preemption timer again.\<close>

definition sched_tick :: "zx_time option \<Rightarrow> timer_queue \<Rightarrow> timer_queue" where
  "sched_tick r q = (case r of None \<Rightarrow> q | Some d \<Rightarrow> PreemptReset d q)"

lemma set_queue_inv:
  assumes "timers_inv cpus M s" and "queue_wf q" and "timer_list q = timer_list (queues s cpu)"
    and "cpu \<notin> M' \<longrightarrow> queue_armed q" and "M \<subseteq> insert cpu M'"
  shows "timers_inv cpus M' (set_queue cpu q s)"
proof -
  have "ids_ok cpus (set_queue cpu q s)" using assms(1,3) by (simp add: timers_inv_def ids_ok_def)
  then show ?thesis using assms by (auto simp: timers_inv_def)
qed

lemma TimerQueue_Tick_inv:
  assumes "timers_inv cpus M s" and "\<forall>i. \<forall>op\<in>set (ops i). op_valid cpus op" and "cpu \<in> set cpus"
    and "r = None \<or> (\<exists>d\<le>ZX_TIME_INFINITE. r = Some d)"
    and "TimerQueue_Tick fuel (\<lambda>i now. fold (apply_op cpus) (ops i)) (sched_tick r) now cpu s = Some (fired, s')"
  shows "timers_inv cpus M s'"
proof -
  define q0 where "q0 = (queues s cpu)\<lparr>next_timer_deadline := ZX_TIME_INFINITE, platform_timer := None\<rparr>"
  define q1 where "q1 = (if now \<ge> preempt_timer_deadline q0
      then sched_tick r (q0\<lparr>preempt_timer_deadline := ZX_TIME_INFINITE\<rparr>) else q0)"
  have "queue_wf (queues s cpu)" using assms(1,3) by (simp add: timers_inv_def)
  then have "queue_wf q0" by (simp add: q0_def queue_wf_def)
  then have "queue_wf q1" "timer_list q1 = timer_list (queues s cpu)"
    by (auto simp: q1_def q0_def sched_tick_def PreemptReset_def UpdatePlatformTimer_def queue_wf_def split: option.splits)
  then have inv1: "timers_inv cpus (insert cpu M) (set_queue cpu q1 s)"
    by (intro set_queue_inv [OF assms(1)]) auto
  obtain s1 where tick: "TickInternal fuel (\<lambda>i now. fold (apply_op cpus) (ops i)) now cpu (set_queue cpu q1 s) = Some (fired, s1)"
    and s': "s' = set_queue cpu (UpdatePlatformTimer
      (if preempt_timer_deadline (queues s1 cpu) < queue_deadline (queues s1 cpu)
       then preempt_timer_deadline (queues s1 cpu) else queue_deadline (queues s1 cpu)) (queues s1 cpu)) s1"
    using assms(5) unfolding TimerQueue_Tick_def q0_def [symmetric] Let_def q1_def [symmetric]
    by (auto split: option.splits)
  have inv2: "timers_inv cpus (insert cpu M) s1" by (rule TickInternal_inv [OF assms(2) _ inv1 tick]) simp
  then have "queue_wf (queues s1 cpu)" using assms(3) by (simp add: timers_inv_def)
  then show ?thesis unfolding s'
    by (intro set_queue_inv [OF inv2] UpdatePlatformTimer_wf) (auto simp: queue_armed_def min_def)
qed

text \<open>All that can happen to the timers of the CPUs in \<open>cpus\<close>.\<close>

inductive timers_step :: "nat list \<Rightarrow> timers \<Rightarrow> timers \<Rightarrow> bool" for cpus where
  step_op: "op_valid cpus op \<Longrightarrow> timers_step cpus s (apply_op cpus op s)"
| step_tick: "\<forall>i. \<forall>op\<in>set (ops i). op_valid cpus op \<Longrightarrow> cpu \<in> set cpus \<Longrightarrow>
     r = None \<or> (\<exists>d\<le>ZX_TIME_INFINITE. r = Some d) \<Longrightarrow>
     TimerQueue_Tick fuel (\<lambda>i now. fold (apply_op cpus) (ops i)) (sched_tick r) now cpu s = Some (fired, s') \<Longrightarrow>
     timers_step cpus s s'"
| step_off: "c \<in> set cpus \<Longrightarrow> d \<in> set cpus \<Longrightarrow> c \<noteq> d \<Longrightarrow>
     TransitionOffCpu (queues s c) (queues s d) = (q, source) \<Longrightarrow>
     timers_step cpus s (set_queue c q (set_queue d source s))"

lemma TransitionOffCpu_inv:
  assumes inv: "timers_inv cpus {} s" and cd: "c \<in> set cpus" "d \<in> set cpus" "c \<noteq> d"
    and call: "TransitionOffCpu (queues s c) (queues s d) = (q, source)"
  shows "timers_inv cpus {} (set_queue c q (set_queue d source s))"
proof -
  have ids: "ids_ok cpus s" using inv by (simp add: timers_inv_def)
  have disj: "t_id ` set (timer_list (queues s x)) \<inter> t_id ` set (timer_list (queues s y)) = {}"
    if "x \<in> set cpus" "y \<in> set cpus" "x \<noteq> y" for x y using ids that by (simp add: ids_ok_def)
  have r: "queue_wf q \<and> queue_wf source \<and> queue_armed source \<and> (queue_armed (queues s c) \<longrightarrow> queue_armed q) \<and>
    timer_list source = [] \<and> distinct (map t_id (timer_list q)) \<and>
    t_id ` set (timer_list q) = t_id ` set (timer_list (queues s d)) \<union> t_id ` set (timer_list (queues s c))"
    by (rule TransitionOffCpu_queue [OF _ _ _ _ disj [OF cd(2,1)] call])
      (use inv ids cd in \<open>auto simp: timers_inv_def ids_ok_def\<close>)
  have "ids_ok cpus (set_queue d source s)"
    by (rule ids_ok_update [OF ids cd(2)]) (use r in auto)
  then have "ids_ok cpus (set_queue c q (set_queue d source s))"
  proof (rule ids_ok_update [OF _ cd(1)])
    show "distinct (map t_id (timer_list q))" using r by blast
    show "\<forall>x\<in>set cpus. x \<noteq> c \<longrightarrow>
        t_id ` set (timer_list q) \<inter> t_id ` set (timer_list (queues (set_queue d source s) x)) = {}"
      using r disj cd by (simp add: Int_Un_distrib2)
  qed
  then show ?thesis using inv r cd by (simp add: timers_inv_def)
qed

lemma timers_step_inv: "timers_step cpus s s' \<Longrightarrow> timers_inv cpus {} s \<Longrightarrow> timers_inv cpus {} s'"
  by (induction rule: timers_step.induct) (auto intro: apply_op_inv TimerQueue_Tick_inv TransitionOffCpu_inv)

definition timers_boot :: timers where
  "timers_boot = \<lparr>queues = (\<lambda>_. TimerQueue_new), flags = (\<lambda>_. Timer_new)\<rparr>"

lemma timers_boot_inv: "timers_inv cpus {} timers_boot"
  by (simp add: timers_boot_def timers_inv_def ids_ok_def queue_wf_def queue_armed_def queue_deadline_def TimerQueue_new_def)

section \<open>Properties\<close>

lemma timers_reachable_inv: "(timers_step cpus)\<^sup>*\<^sup>* timers_boot s \<Longrightarrow> timers_inv cpus {} s"
  by (induction rule: rtranclp_induct) (auto intro: timers_boot_inv timers_step_inv)

lemma queue_deadline_le:
  "sorted (times (timer_list q)) \<Longrightarrow> t \<in> set (timer_list q) \<Longrightarrow> queue_deadline q \<le> scheduled_time t"
  by (auto simp: queue_deadline_def split: list.splits)

text \<open>
  C3. No timer is overslept. In every state the timers of a set of CPUs can reach by setting,
  cancelling, coalescing and firing timers, by preemption deadlines, by callbacks that set and
  cancel timers while the interrupt is handled, and by moving the timers of a CPU to another
  one: each queue is sorted, no timer is on two queues, and if a queue holds a timer or a
  preemption deadline that is not infinite then the platform timer of that CPU is set, to no
  later than any of them.
\<close>

theorem timers_never_overslept:
  assumes "(timers_step cpus)\<^sup>*\<^sup>* timers_boot s" and "c \<in> set cpus"
  shows "sorted (times (timer_list (queues s c))) \<and>
    (\<forall>d\<in>set cpus. c \<noteq> d \<longrightarrow>
       t_id ` set (timer_list (queues s c)) \<inter> t_id ` set (timer_list (queues s d)) = {}) \<and>
    (\<forall>x\<in>set (preempt_timer_deadline (queues s c) # times (timer_list (queues s c))).
       x < ZX_TIME_INFINITE \<longrightarrow> (\<exists>p. platform_timer (queues s c) = Some p \<and> p \<le> x))"
proof -
  have inv: "timers_inv cpus {} s" by (rule timers_reachable_inv [OF assms(1)])
  then have wf: "queue_wf (queues s c)" and armed: "queue_armed (queues s c)"
    using assms(2) by (auto simp: timers_inv_def)
  have sorted: "sorted (times (timer_list (queues s c)))" using wf by (simp add: queue_wf_def)
  have "next_timer_deadline (queues s c) \<le> x"
    if "x \<in> set (preempt_timer_deadline (queues s c) # times (timer_list (queues s c)))" for x
    using that armed queue_deadline_le [OF sorted] by (fastforce simp: queue_armed_def)
  then have "\<exists>p. platform_timer (queues s c) = Some p \<and> p \<le> x"
    if "x \<in> set (preempt_timer_deadline (queues s c) # times (timer_list (queues s c)))" "x < ZX_TIME_INFINITE" for x
    using that wf by (metis leD queue_wf_def)
  moreover have "\<forall>d\<in>set cpus. c \<noteq> d \<longrightarrow>
      t_id ` set (timer_list (queues s c)) \<inter> t_id ` set (timer_list (queues s d)) = {}"
    using inv assms(2) unfolding timers_inv_def ids_ok_def by blast
  ultimately show ?thesis using sorted by blast
qed

theorem timers_never_overslept_witness:
  "\<exists>s. (timers_step [0])\<^sup>*\<^sup>* timers_boot s \<and> platform_timer (queues s 0) = Some 5 \<and>
     sorted (times (timer_list (queues s 0)))"
proof -
  let ?op = "OpSet 0 7 (Deadline_no_slack 5)"
  let ?s = "apply_op [0] ?op timers_boot"
  have "op_valid [0] ?op"
    by (simp add: valid_deadline_def Deadline_no_slack_def TimerSlack_none_def int64_def time_limits)
  then have steps: "(timers_step [0])\<^sup>*\<^sup>* timers_boot ?s" by (blast intro: step_op)
  have "platform_timer (queues ?s 0) = Some 5"
    by (simp add: Timer_Set_def InContainer_def queued_on_def timers_boot_def TimerQueue_new_def Timer_new_def
        TimerQueue_Insert_def head_id_def UpdatePlatformTimer_def Deadline_no_slack_def time_limits Let_def)
  with steps timers_never_overslept [OF steps, of 0] show ?thesis by auto
qed



lemma TickInternal_due:
  assumes "\<And>i now s. queues (cb i now s) = queues s"
  shows "length (timer_list (queues s cpu)) < fuel \<Longrightarrow>
    \<exists>s'. TickInternal fuel cb now cpu s =
      Some (map t_id (takeWhile (\<lambda>t. scheduled_time t \<le> now) (timer_list (queues s cpu))), s') \<and>
    timer_list (queues s' cpu) = dropWhile (\<lambda>t. scheduled_time t \<le> now) (timer_list (queues s cpu)) \<and>
    (\<forall>c. c \<noteq> cpu \<longrightarrow> queues s' c = queues s c)"
proof (induction fuel arbitrary: s)
  case (Suc fuel)
  show ?case
  proof (cases "timer_list (queues s cpu)")
    case (Cons t ts)
    show ?thesis
    proof (cases "now < scheduled_time t")
      case False
      define s1 where "s1 = set_queue cpu ((queues s cpu)\<lparr>timer_list := ts\<rparr>) s"
      define s2 where "s2 = set_flags (t_id t) ((flags s1 (t_id t))\<lparr>active_cpu := Some cpu\<rparr>) s1"
      define s3 where "s3 = cb (t_id t) now s2"
      define s4 where "s4 = set_flags (t_id t) ((flags s3 (t_id t))\<lparr>active_cpu := None\<rparr>) s3"
      have q: "queues s4 = (queues s)(cpu := (queues s cpu)\<lparr>timer_list := ts\<rparr>)"
        by (simp add: s4_def s3_def s2_def s1_def assms)
      have "TickInternal (Suc fuel) cb now cpu s = (case TickInternal fuel cb now cpu s4 of
          None \<Rightarrow> None | Some (fired, s5) \<Rightarrow> Some (t_id t # fired, s5))"
        using Cons False by (simp add: Let_def s4_def s3_def s2_def s1_def)
      moreover have "length (timer_list (queues s4 cpu)) < fuel" using Suc.prems Cons by (simp add: q)
      ultimately show ?thesis using Suc.IH [of s4] False Cons by (auto simp: q)
    qed (use Cons in auto)
  qed simp
qed simp

text \<open>
  C30. The timer interrupt ends and fires exactly what is due. For callbacks that leave the
  queue alone, as many loop turns as timers plus one are enough; the callbacks of the timers
  scheduled at or before now run, in the order of the queue, the others stay, and in a sorted
  queue none that is due is left.
\<close>

theorem tick_fires_due:
  assumes "\<And>i now s. queues (cb i now s) = queues s" and "length (timer_list (queues s cpu)) < fuel"
    and "sorted (times (timer_list (queues s cpu)))"
  shows "\<exists>fired s'. TickInternal fuel cb now cpu s = Some (fired, s') \<and>
    fired = map t_id (filter (\<lambda>t. scheduled_time t \<le> now) (timer_list (queues s cpu))) \<and>
    timer_list (queues s' cpu) = filter (\<lambda>t. \<not> scheduled_time t \<le> now) (timer_list (queues s cpu))"
proof -
  have "takeWhile (\<lambda>t. scheduled_time t \<le> now) xs = filter (\<lambda>t. scheduled_time t \<le> now) xs \<and>
      dropWhile (\<lambda>t. scheduled_time t \<le> now) xs = filter (\<lambda>t. \<not> scheduled_time t \<le> now) xs"
    if "sorted (times xs)" for xs
    using that
  proof (induction xs)
    case (Cons x xs)
    then have "filter (\<lambda>t. scheduled_time t \<le> now) xs = []" "filter (\<lambda>t. \<not> scheduled_time t \<le> now) xs = xs"
      if "\<not> scheduled_time x \<le> now" using that by (auto simp: filter_empty_conv filter_id_conv)
    with Cons show ?case by auto
  qed simp
  with TickInternal_due [of cb, OF assms(1,2)] assms(3) show ?thesis by metis
qed

theorem tick_fires_due_witness:
  "\<exists>fired s'. TickInternal 3 (\<lambda>i now s. s) 5 0
     (set_queue 0 (TimerQueue_new\<lparr>timer_list := [\<lparr>t_id = 1, scheduled_time = 4, t_slack = 0\<rparr>,
        \<lparr>t_id = 2, scheduled_time = 6, t_slack = 0\<rparr>]\<rparr>) timers_boot) = Some (fired, s') \<and> fired = [1]"
proof -
  let ?s = "set_queue 0 (TimerQueue_new\<lparr>timer_list := [\<lparr>t_id = 1, scheduled_time = 4, t_slack = 0\<rparr>,
        \<lparr>t_id = 2, scheduled_time = 6, t_slack = 0\<rparr>]\<rparr>) timers_boot"
  have "length (timer_list (queues ?s 0)) < 3" "sorted (times (timer_list (queues ?s 0)))" by simp_all
  from tick_fires_due [of "\<lambda>i now s. s", OF refl this, of 5] show ?thesis by auto
qed

end
