(* ===== verification/Job_Policy.thy ===== *)
theory Job_Policy
  imports Dispatcher Time
begin

text \<open>
  Job policies (\<^verbatim>\<open>kernel/object/job_policy.cc\<close>): the basic policy of a job is packed into a 64-bit
  word, four bits per condition, three for the action and one that says whether a child job may
  override it. The theory models the bit fields of \<^verbatim>\<open>fbl/bits.h\<close> the policy uses, the
  merging of a list of policy entries, the queries, the counters, and the enforcement in
  \<^verbatim>\<open>kernel/object/process_dispatcher.cc\<close>.
\<close>

section \<open>Constants\<close>

definition ZX_JOB_POL_RELATIVE :: u32 where "ZX_JOB_POL_RELATIVE = 0"
definition ZX_JOB_POL_ABSOLUTE :: u32 where "ZX_JOB_POL_ABSOLUTE = 1"

definition ZX_POL_BAD_HANDLE :: u32 where "ZX_POL_BAD_HANDLE = 0"
definition ZX_POL_WRONG_OBJECT :: u32 where "ZX_POL_WRONG_OBJECT = 1"
definition ZX_POL_VMAR_WX :: u32 where "ZX_POL_VMAR_WX = 2"
definition ZX_POL_NEW_ANY :: u32 where "ZX_POL_NEW_ANY = 3"
definition ZX_POL_NEW_VMO :: u32 where "ZX_POL_NEW_VMO = 4"
definition ZX_POL_NEW_CHANNEL :: u32 where "ZX_POL_NEW_CHANNEL = 5"
definition ZX_POL_NEW_EVENT :: u32 where "ZX_POL_NEW_EVENT = 6"
definition ZX_POL_NEW_EVENTPAIR :: u32 where "ZX_POL_NEW_EVENTPAIR = 7"
definition ZX_POL_NEW_PORT :: u32 where "ZX_POL_NEW_PORT = 8"
definition ZX_POL_NEW_SOCKET :: u32 where "ZX_POL_NEW_SOCKET = 9"
definition ZX_POL_NEW_FIFO :: u32 where "ZX_POL_NEW_FIFO = 10"
definition ZX_POL_NEW_TIMER :: u32 where "ZX_POL_NEW_TIMER = 11"
definition ZX_POL_NEW_PROCESS :: u32 where "ZX_POL_NEW_PROCESS = 12"
definition ZX_POL_NEW_PROFILE :: u32 where "ZX_POL_NEW_PROFILE = 13"
definition ZX_POL_NEW_PAGER :: u32 where "ZX_POL_NEW_PAGER = 14"
definition ZX_POL_AMBIENT_MARK_VMO_EXEC :: u32 where "ZX_POL_AMBIENT_MARK_VMO_EXEC = 15"
definition ZX_POL_NEW_IOB :: u32 where "ZX_POL_NEW_IOB = 16"
definition ZX_POL_MAX :: nat where "ZX_POL_MAX = 17"

definition ZX_POL_ACTION_ALLOW :: u32 where "ZX_POL_ACTION_ALLOW = 0"
definition ZX_POL_ACTION_DENY :: u32 where "ZX_POL_ACTION_DENY = 1"
definition ZX_POL_ACTION_ALLOW_EXCEPTION :: u32 where "ZX_POL_ACTION_ALLOW_EXCEPTION = 2"
definition ZX_POL_ACTION_DENY_EXCEPTION :: u32 where "ZX_POL_ACTION_DENY_EXCEPTION = 3"
definition ZX_POL_ACTION_KILL :: u32 where "ZX_POL_ACTION_KILL = 4"
definition ZX_POL_ACTION_MAX :: u32 where "ZX_POL_ACTION_MAX = 5"

definition ZX_POL_OVERRIDE_ALLOW :: u32 where "ZX_POL_OVERRIDE_ALLOW = 0"
definition ZX_POL_OVERRIDE_DENY :: u32 where "ZX_POL_OVERRIDE_DENY = 1"

lemmas pol_conditions = ZX_POL_BAD_HANDLE_def ZX_POL_WRONG_OBJECT_def ZX_POL_VMAR_WX_def
  ZX_POL_NEW_ANY_def ZX_POL_NEW_VMO_def ZX_POL_NEW_CHANNEL_def ZX_POL_NEW_EVENT_def
  ZX_POL_NEW_EVENTPAIR_def ZX_POL_NEW_PORT_def ZX_POL_NEW_SOCKET_def ZX_POL_NEW_FIFO_def
  ZX_POL_NEW_TIMER_def ZX_POL_NEW_PROCESS_def ZX_POL_NEW_PROFILE_def ZX_POL_NEW_PAGER_def
  ZX_POL_AMBIENT_MARK_VMO_EXEC_def ZX_POL_NEW_IOB_def

lemmas pol_actions = ZX_POL_ACTION_ALLOW_def ZX_POL_ACTION_DENY_def ZX_POL_ACTION_ALLOW_EXCEPTION_def
  ZX_POL_ACTION_DENY_EXCEPTION_def ZX_POL_ACTION_KILL_def ZX_POL_ACTION_MAX_def
  ZX_POL_OVERRIDE_ALLOW_def ZX_POL_OVERRIDE_DENY_def

definition kNewObjectPolicies :: "u32 list" where
  "kNewObjectPolicies =
     [ZX_POL_NEW_VMO, ZX_POL_NEW_CHANNEL, ZX_POL_NEW_EVENT, ZX_POL_NEW_EVENTPAIR,
      ZX_POL_NEW_PORT, ZX_POL_NEW_SOCKET, ZX_POL_NEW_FIFO, ZX_POL_NEW_TIMER,
      ZX_POL_NEW_PROCESS, ZX_POL_NEW_PROFILE, ZX_POL_NEW_PAGER, ZX_POL_NEW_IOB]"

section \<open>Bit fields\<close>

type_synonym pol_cookie = u64

text \<open>
  \<open>BitFieldMember\<close>: reading and writing the field of \<open>count\<close> bits at \<open>offset\<close>. The assertion of the
  writer that the value fits is \<open>None\<close> when it fails.
\<close>

definition field_maximum :: "nat \<Rightarrow> u64" where
  "field_maximum count = 2 ^ count - 1"

definition field_get :: "nat \<Rightarrow> nat \<Rightarrow> u64 \<Rightarrow> u64" where
  "field_get offset count value = drop_bit offset value AND field_maximum count"

definition field_set :: "nat \<Rightarrow> nat \<Rightarrow> u64 \<Rightarrow> u64 \<Rightarrow> u64 option" where
  "field_set offset count new_value value =
     (if new_value \<le> field_maximum count
      then Some ((value AND NOT (push_bit offset (field_maximum count))) OR push_bit offset new_value)
      else None)"

text \<open>The offset of the action of a condition; the override bit is three places above it.\<close>

definition field_offset :: "u32 \<Rightarrow> nat option" where
  "field_offset condition =
     (if condition = ZX_POL_BAD_HANDLE then Some 0
      else if condition = ZX_POL_WRONG_OBJECT then Some 4
      else if condition = ZX_POL_VMAR_WX then Some 8
      else if condition = ZX_POL_NEW_VMO then Some 12
      else if condition = ZX_POL_NEW_CHANNEL then Some 16
      else if condition = ZX_POL_NEW_EVENT then Some 20
      else if condition = ZX_POL_NEW_EVENTPAIR then Some 24
      else if condition = ZX_POL_NEW_PORT then Some 28
      else if condition = ZX_POL_NEW_SOCKET then Some 32
      else if condition = ZX_POL_NEW_FIFO then Some 36
      else if condition = ZX_POL_NEW_TIMER then Some 40
      else if condition = ZX_POL_NEW_PROCESS then Some 44
      else if condition = ZX_POL_NEW_PROFILE then Some 48
      else if condition = ZX_POL_NEW_PAGER then Some 52
      else if condition = ZX_POL_AMBIENT_MARK_VMO_EXEC then Some 56
      else if condition = ZX_POL_NEW_IOB then Some 60
      else None)"

section \<open>Merging and querying\<close>

definition PolicyOverrideIsValid :: "u32 \<Rightarrow> bool" where
  "PolicyOverrideIsValid override \<longleftrightarrow> override = ZX_POL_OVERRIDE_DENY \<or> override = ZX_POL_OVERRIDE_ALLOW"

text \<open>A result of the merging: a status and the bits; \<open>None\<close> is a failed assertion.\<close>

definition set_entry :: "nat \<Rightarrow> u32 \<Rightarrow> u32 \<Rightarrow> u64 \<Rightarrow> u64 option" where
  "set_entry offset action override bits =
     Option.bind (field_set offset 3 (ucast action) bits) (field_set (offset + 3) 1 (ucast override))"

definition AddPartial :: "u32 \<Rightarrow> u32 \<Rightarrow> u32 \<Rightarrow> u32 \<Rightarrow> u64 \<Rightarrow> (zx_status \<times> u64) option" where
  "AddPartial mode condition action override bits =
     (if action \<ge> ZX_POL_ACTION_MAX then Some (ZX_ERR_NOT_SUPPORTED, bits)
      else if \<not> PolicyOverrideIsValid override then Some (ZX_ERR_INVALID_ARGS, bits)
      else case field_offset condition of
          None \<Rightarrow> Some (ZX_ERR_INVALID_ARGS, bits)
        | Some offset \<Rightarrow>
            if field_get (offset + 3) 1 bits = ucast ZX_POL_OVERRIDE_ALLOW
            then map_option (Pair ZX_OK) (set_entry offset action override bits)
            else if field_get offset 3 bits = ucast action \<and> override = ZX_POL_OVERRIDE_DENY
            then Some (ZX_OK, bits)
            else Some (if mode = ZX_JOB_POL_ABSOLUTE then ZX_ERR_ALREADY_EXISTS else ZX_OK, bits))"

definition SetOverride :: "u32 \<Rightarrow> u32 \<Rightarrow> u64 \<Rightarrow> (zx_status \<times> u64) option" where
  "SetOverride condition override policy =
     (if \<not> PolicyOverrideIsValid override then Some (ZX_ERR_INVALID_ARGS, policy)
      else case field_offset condition of
          None \<Rightarrow> Some (ZX_ERR_INVALID_ARGS, policy)
        | Some offset \<Rightarrow> map_option (Pair ZX_OK) (field_set (offset + 3) 1 (ucast override) policy))"

definition GetAction :: "u64 \<Rightarrow> u32 \<Rightarrow> u64" where
  "GetAction policy condition =
     (case field_offset condition of None \<Rightarrow> ucast ZX_POL_ACTION_DENY | Some offset \<Rightarrow> field_get offset 3 policy)"

definition GetOverride :: "u64 \<Rightarrow> u32 \<Rightarrow> u64" where
  "GetOverride policy condition =
     (case field_offset condition of None \<Rightarrow> ucast ZX_POL_OVERRIDE_DENY
      | Some offset \<Rightarrow> field_get (offset + 3) 1 policy)"

record job_policy =
  cookie :: pol_cookie
  jp_slack :: timer_slack

definition CreateRootPolicy :: job_policy where
  "CreateRootPolicy = \<lparr>cookie = 0, jp_slack = TimerSlack_none\<rparr>"

record policy_basic =
  pb_condition :: u32
  pb_action :: u32
  pb_flags :: u32

text \<open>The inner loops stop at the first status that is not \<open>ZX_OK\<close>.\<close>

fun for_conditions :: "(u32 \<Rightarrow> u64 \<Rightarrow> (zx_status \<times> u64) option) \<Rightarrow> u32 list \<Rightarrow> u64 \<Rightarrow> (zx_status \<times> u64) option" where
  "for_conditions f [] bits = Some (ZX_OK, bits)"
| "for_conditions f (c # cs) bits =
     (case f c bits of
        None \<Rightarrow> None
      | Some (status, bits1) \<Rightarrow>
          if status \<noteq> ZX_OK then Some (status, bits1) else for_conditions f cs bits1)"

text \<open>The loop over the input; the last component is the override of \<open>ZX_POL_NEW_ANY\<close>, if it occurred.\<close>

fun merge_policies :: "u32 \<Rightarrow> policy_basic list \<Rightarrow> u64 \<times> u32 option \<Rightarrow> (zx_status \<times> u64 \<times> u32 option) option" where
  "merge_policies mode [] (bits, any) = Some (ZX_OK, bits, any)"
| "merge_policies mode (p # ps) (bits, any) =
     (if pb_condition p = ZX_POL_NEW_ANY
      then (case for_conditions (\<lambda>cond. AddPartial mode cond (pb_action p) ZX_POL_OVERRIDE_ALLOW)
                   kNewObjectPolicies bits of
              None \<Rightarrow> None
            | Some (status, bits1) \<Rightarrow>
                if status \<noteq> ZX_OK then Some (status, bits1, any)
                else merge_policies mode ps (bits1, Some (pb_flags p)))
      else (case AddPartial mode (pb_condition p) (pb_action p) (pb_flags p) bits of
              None \<Rightarrow> None
            | Some (status, bits1) \<Rightarrow>
                if status \<noteq> ZX_OK then Some (status, bits1, any)
                else merge_policies mode ps (bits1, any)))"

definition AddBasicPolicy :: "u32 \<Rightarrow> policy_basic list \<Rightarrow> job_policy \<Rightarrow> (zx_status \<times> job_policy) option" where
  "AddBasicPolicy mode policy_input jp =
     (if length policy_input > ZX_POL_MAX then Some (ZX_ERR_OUT_OF_RANGE, jp)
      else case merge_policies mode policy_input (cookie jp, None) of
          None \<Rightarrow> None
        | Some (status, pol_new, any) \<Rightarrow>
            if status \<noteq> ZX_OK then Some (status, jp)
            else (case any of
                None \<Rightarrow> Some (ZX_OK, jp\<lparr>cookie := pol_new\<rparr>)
              | Some override \<Rightarrow>
                  (case for_conditions (\<lambda>cond. SetOverride cond override) kNewObjectPolicies pol_new of
                     None \<Rightarrow> None
                   | Some (status, pol_new1) \<Rightarrow>
                       if status \<noteq> ZX_OK then Some (status, jp)
                       else Some (ZX_OK, jp\<lparr>cookie := pol_new1\<rparr>))))"

definition QueryBasicPolicy :: "u32 \<Rightarrow> job_policy \<Rightarrow> u32" where
  "QueryBasicPolicy condition jp = ucast (GetAction (cookie jp) condition)"

definition QueryBasicPolicyOverride :: "u32 \<Rightarrow> job_policy \<Rightarrow> u32" where
  "QueryBasicPolicyOverride condition jp = ucast (GetOverride (cookie jp) condition)"

definition SetTimerSlack :: "timer_slack \<Rightarrow> job_policy \<Rightarrow> job_policy" where
  "SetTimerSlack s jp = jp\<lparr>jp_slack := s\<rparr>"

definition GetTimerSlack :: "job_policy \<Rightarrow> timer_slack" where
  "GetTimerSlack jp = jp_slack jp"

section \<open>Enforcement\<close>

text \<open>The counters of violations by condition; \<open>ZX_POL_NEW_ANY\<close> has none.\<close>

record policy_counters =
  count_deny :: "u32 \<Rightarrow> nat"
  count_kill :: "u32 \<Rightarrow> nat"

definition IncrementCounter :: "u32 \<Rightarrow> u32 \<Rightarrow> policy_counters \<Rightarrow> policy_counters" where
  "IncrementCounter action condition k =
     (if condition = ZX_POL_NEW_ANY then k
      else if action = ZX_POL_ACTION_DENY \<or> action = ZX_POL_ACTION_DENY_EXCEPTION
      then k\<lparr>count_deny := (count_deny k)(condition := count_deny k condition + 1)\<rparr>
      else if action = ZX_POL_ACTION_KILL
      then k\<lparr>count_kill := (count_kill k)(condition := count_kill k condition + 1)\<rparr>
      else k)"

text \<open>The codes of policy exceptions, by condition.\<close>

definition kPolicyIdToPolicyException :: "u32 list" where
  "kPolicyIdToPolicyException = [0, 1, 2, 3, 4, 5, 6, 7, 8, 9, 10, 11, 12, 13, 14, 15, 21]"

text \<open>What enforcing a policy does besides returning a status.\<close>

datatype enforcement = Silent | PolicyException u32 | KillProcess

definition EnforceBasicPolicy ::
  "u32 \<Rightarrow> job_policy \<Rightarrow> policy_counters \<Rightarrow> (zx_status \<times> enforcement \<times> policy_counters) option" where
  "EnforceBasicPolicy condition jp k =
     (let action = QueryBasicPolicy condition jp
      in if action = ZX_POL_ACTION_ALLOW then Some (ZX_OK, Silent, k)
         else if action = ZX_POL_ACTION_DENY
         then Some (ZX_ERR_ACCESS_DENIED, Silent, IncrementCounter action condition k)
         else if action = ZX_POL_ACTION_ALLOW_EXCEPTION
         then Some (ZX_OK, PolicyException (kPolicyIdToPolicyException ! unat condition), IncrementCounter action condition k)
         else if action = ZX_POL_ACTION_DENY_EXCEPTION
         then Some (ZX_ERR_ACCESS_DENIED, PolicyException (kPolicyIdToPolicyException ! unat condition), IncrementCounter action condition k)
         else if action = ZX_POL_ACTION_KILL
         then Some (ZX_ERR_ACCESS_DENIED, KillProcess, IncrementCounter action condition k)
         else None)"

section \<open>The fields are independent\<close>

lemma field_maximum_mask: "field_maximum n = mask n"
  by (simp add: field_maximum_def mask_eq_exp_minus_1)

lemma fits_bits:
  fixes v :: u64
  assumes "v \<le> field_maximum n" and "n < 64" and "bit v k"
  shows "k < n"
proof -
  have "uint (field_maximum n) = mask n"
    unfolding field_maximum_mask by (rule bit_eqI) (use assms(2) in \<open>auto simp: bit_uint_iff bit_mask_iff\<close>)
  then have "uint v < 2 ^ n" using assms(1) by (simp add: word_le_def mask_eq_exp_minus_1)
  then have "take_bit n (uint v) = uint v" by (simp add: take_bit_int_eq_self)
  moreover have "bit (uint v) k" using assms(3) bit_imp_le_length [OF assms(3)] by (simp add: bit_uint_iff)
  ultimately show ?thesis by (metis bit_take_bit_iff)
qed

lemma field_get_bit: "bit (field_get o' n v) k \<longleftrightarrow> k < n \<and> bit v (o' + k)"
  by (auto simp: field_get_def field_maximum_mask bit_simps dest: bit_imp_le_length)

lemma field_set_bit:
  assumes "field_set o' n v w = Some w'" and "o' + n \<le> 64" and "n < 64"
  shows "bit w' k \<longleftrightarrow> (if o' \<le> k \<and> k < o' + n then bit v (k - o') else bit w k)"
proof -
  have fit: "v \<le> field_maximum n" and w': "w' = (w AND NOT (push_bit o' (mask n))) OR push_bit o' v"
    using assms(1) by (auto simp: field_set_def field_maximum_mask split: if_splits)
  note b = fits_bits [OF fit assms(3), of "k - o'"]
  show ?thesis
  proof (cases "k < 64")
    case True
    then show ?thesis using b assms(2) by (auto simp: w' bit_simps)
  next
    case False
    then have "\<not> bit w' k" "\<not> bit w k" "\<not> (k < o' + n)" using assms(2) bit_imp_le_length by force+
    then show ?thesis by simp
  qed
qed

lemma field_get_set:
  assumes "field_set o' n v w = Some w'" and "o' + n \<le> 64" and "n < 64"
  shows "field_get o' n w' = v"
proof (rule bit_eqI)
  fix k
  have "v \<le> field_maximum n" using assms(1) by (simp add: field_set_def split: if_splits)
  then show "bit (field_get o' n w') k \<longleftrightarrow> bit v k"
    using fits_bits [of v n k] assms(3) by (auto simp: field_get_bit field_set_bit [OF assms])
qed

lemma field_get_set_other:
  assumes "field_set o' n v w = Some w'" and "o' + n \<le> 64" and "n < 64" and "p + m \<le> o' \<or> o' + n \<le> p"
  shows "field_get p m w' = field_get p m w"
  by (rule bit_eqI) (use assms(4) in \<open>auto simp: field_get_bit field_set_bit [OF assms(1-3)]\<close>)

text \<open>Conditions have fields of four bits of their own.\<close>

lemma field_offset_value:
  "field_offset c = Some p \<Longrightarrow> c = of_nat (if p < 12 then p div 4 else p div 4 + 1) \<and> 4 dvd p \<and> p \<le> 60"
  unfolding field_offset_def pol_conditions by (auto split: if_splits)

lemma field_offset_apart:
  assumes "field_offset c = Some p" and "field_offset d = Some q" and "c \<noteq> d"
  shows "p + 4 \<le> q \<or> q + 4 \<le> p"
proof -
  have "p \<noteq> q" using assms field_offset_value by metis
  moreover obtain i j where "p = 4 * i" "q = 4 * j" using assms(1,2) field_offset_value by (metis dvdE)
  ultimately show ?thesis by presburger
qed

lemma field_offset_fits: "field_offset c = Some p \<Longrightarrow> p + 4 \<le> 64"
  using field_offset_value by fastforce

section \<open>Entries\<close>

text \<open>
  The entry of a condition is its action and override. A merge keeps an entry that is locked;
  \<open>entry_set\<close> says that one entry was written and no other changed.
\<close>

definition entry :: "u64 \<Rightarrow> u32 \<Rightarrow> u64 \<times> u64" where
  "entry bits c = (GetAction bits c, GetOverride bits c)"

definition locked :: "u64 \<Rightarrow> u32 \<Rightarrow> bool" where
  "locked bits c \<longleftrightarrow> GetOverride bits c \<noteq> 0"

definition entry_set :: "u32 \<Rightarrow> u64 \<times> u64 \<Rightarrow> u64 \<Rightarrow> u64 \<Rightarrow> bool" where
  "entry_set c e bits bits' \<longleftrightarrow> entry bits' c = e \<and> (\<forall>d. d \<noteq> c \<longrightarrow> entry bits' d = entry bits d)"

lemma action_fits: "action < ZX_POL_ACTION_MAX \<Longrightarrow> ucast action \<le> field_maximum 3" for action :: u32
proof -
  assume "action < ZX_POL_ACTION_MAX"
  then have "uint action < 5" by (simp add: ZX_POL_ACTION_MAX_def word_less_def)
  then show ?thesis by (simp add: word_le_def field_maximum_def unsigned_ucast_eq take_bit_int_eq_self)
qed

lemma override_fits: "PolicyOverrideIsValid v \<Longrightarrow> ucast v \<le> field_maximum 1"
  by (auto simp: PolicyOverrideIsValid_def pol_actions field_maximum_def)

lemma set_entry_ok:
  assumes p: "field_offset c = Some p" and "action < ZX_POL_ACTION_MAX" and "PolicyOverrideIsValid override"
  obtains bits' where "set_entry p action override bits = Some bits'"
    "entry_set c (ucast action, ucast override) bits bits'"
proof -
  obtain b1 where b1: "field_set p 3 (ucast action) bits = Some b1"
    using action_fits [OF assms(2)] by (auto simp: field_set_def)
  obtain b2 where b2: "field_set (p + 3) 1 (ucast override) b1 = Some b2"
    using override_fits [OF assms(3)] by (auto simp: field_set_def)
  have fit: "p + 3 \<le> 64" "p + 3 + 1 \<le> 64" using field_offset_fits [OF p] by auto
  have "field_get p 3 b2 = ucast action"
    using field_get_set [OF b1 fit(1)] field_get_set_other [OF b2 fit(2), of p 3] by simp
  moreover have "field_get (p + 3) 1 b2 = ucast override" using field_get_set [OF b2 fit(2)] by simp
  moreover have "field_get q 3 b2 = field_get q 3 bits \<and> field_get (q + 3) 1 b2 = field_get (q + 3) 1 bits"
    if "field_offset d = Some q" "d \<noteq> c" for d q
    using field_offset_apart [OF that(1) p that(2)] field_get_set_other [OF b1 fit(1), of q 3]
      field_get_set_other [OF b2 fit(2), of q 3] field_get_set_other [OF b1 fit(1), of "q + 3" 1]
      field_get_set_other [OF b2 fit(2), of "q + 3" 1] by auto
  ultimately have "entry_set c (ucast action, ucast override) bits b2"
    using p by (auto simp: entry_set_def entry_def GetAction_def GetOverride_def split: option.splits)
  then show thesis using that b1 b2 by (simp add: set_entry_def)
qed

text \<open>One entry of the input.\<close>

lemma AddPartial_cases:
  obtains (rejected) st where "AddPartial mode c action override bits = Some (st, bits)" "st \<noteq> ZX_OK"
  | (written) bits' where "AddPartial mode c action override bits = Some (ZX_OK, bits')" "\<not> locked bits c"
      "action < ZX_POL_ACTION_MAX" "PolicyOverrideIsValid override" "field_offset c \<noteq> None"
      "entry_set c (ucast action, ucast override) bits bits'"
  | (kept) "AddPartial mode c action override bits = Some (ZX_OK, bits)" "locked bits c"
      "field_offset c \<noteq> None" "mode \<noteq> ZX_JOB_POL_ABSOLUTE \<or> GetAction bits c = ucast action \<and> override = ZX_POL_OVERRIDE_DENY"
proof (cases "action < ZX_POL_ACTION_MAX \<and> PolicyOverrideIsValid override")
  case False
  then have "\<exists>st. AddPartial mode c action override bits = Some (st, bits) \<and> st \<noteq> ZX_OK"
    by (cases "action \<ge> ZX_POL_ACTION_MAX") (auto simp: AddPartial_def not_less)
  then show thesis using rejected by blast
next
  case True
  show thesis
  proof (cases "field_offset c")
    case None
    then have "AddPartial mode c action override bits = Some (ZX_ERR_INVALID_ARGS, bits)"
      using True by (simp add: AddPartial_def not_le [symmetric])
    then show thesis using rejected by blast
  next
    case (Some p)
    have l: "locked bits c \<longleftrightarrow> field_get (p + 3) 1 bits \<noteq> 0" using Some by (simp add: locked_def GetOverride_def)
    show thesis
    proof (cases "locked bits c")
      case lock: True
      have eq: "AddPartial mode c action override bits =
          (if GetAction bits c = ucast action \<and> override = ZX_POL_OVERRIDE_DENY then Some (ZX_OK, bits)
           else Some (if mode = ZX_JOB_POL_ABSOLUTE then ZX_ERR_ALREADY_EXISTS else ZX_OK, bits))"
        using True Some lock l by (simp add: AddPartial_def GetAction_def ZX_POL_OVERRIDE_ALLOW_def not_le [symmetric])
      show thesis
      proof (cases "mode \<noteq> ZX_JOB_POL_ABSOLUTE \<or> GetAction bits c = ucast action \<and> override = ZX_POL_OVERRIDE_DENY")
        case True
        then show thesis using kept eq lock Some by auto
      next
        case False
        then show thesis using rejected eq by auto
      qed
    next
      case False
      obtain bits' where "set_entry p action override bits = Some bits'"
        "entry_set c (ucast action, ucast override) bits bits'" using set_entry_ok [OF Some] True by blast
      then show thesis using written [of bits'] True Some False l by (simp add: AddPartial_def ZX_POL_OVERRIDE_ALLOW_def not_le [symmetric])
    qed
  qed
qed

text \<open>What every step of a merge respects: locked entries, and actions in range.\<close>

definition actions_ok :: "u64 \<Rightarrow> bool" where
  "actions_ok bits \<longleftrightarrow> (\<forall>c. GetAction bits c < 5)"

definition refines :: "u64 \<Rightarrow> u64 \<Rightarrow> bool" where
  "refines bits bits' \<longleftrightarrow> (\<forall>c. locked bits c \<longrightarrow> entry bits' c = entry bits c) \<and> (actions_ok bits \<longrightarrow> actions_ok bits')"

lemma refines_refl [simp]: "refines bits bits"
  by (simp add: refines_def)

lemma refines_trans: "refines a b \<Longrightarrow> refines b c \<Longrightarrow> refines a c"
  by (auto simp: refines_def locked_def entry_def)

lemma action_small: "action < ZX_POL_ACTION_MAX \<Longrightarrow> ucast action < (5 :: u64)" for action :: u32
proof -
  assume "action < ZX_POL_ACTION_MAX"
  then have "uint action < 5" by (simp add: ZX_POL_ACTION_MAX_def word_less_def)
  then show ?thesis by (simp add: word_less_def unsigned_ucast_eq take_bit_int_eq_self)
qed

lemma entry_set_refines:
  assumes "entry_set c (a, v) bits bits'" and "\<not> locked bits c" and "a < 5"
  shows "refines bits bits'"
  unfolding refines_def actions_ok_def
proof (intro conjI impI allI)
  fix d
  assume "locked bits d"
  then show "entry bits' d = entry bits d" using assms(1,2) by (auto simp: entry_set_def)
next
  fix d
  assume "\<forall>d. GetAction bits d < 5"
  then show "GetAction bits' d < 5" using assms(1,3) by (cases "d = c") (auto simp: entry_set_def entry_def)
qed

lemma AddPartial_refines:
  obtains st bits' where "AddPartial mode c action override bits = Some (st, bits')" "refines bits bits'"
  by (cases rule: AddPartial_cases [of mode c action override bits]) (auto intro: entry_set_refines action_small)

lemma for_conditions_refines:
  assumes "\<And>c bits. \<exists>st bits'. f c bits = Some (st, bits') \<and> refines bits bits'"
  shows "\<exists>st bits'. for_conditions f cs bits = Some (st, bits') \<and> refines bits bits'"
proof (induction cs arbitrary: bits)
  case (Cons c cs)
  obtain st b1 where f: "f c bits = Some (st, b1)" "refines bits b1" using assms by blast
  obtain st2 b2 where "for_conditions f cs b1 = Some (st2, b2)" "refines b1 b2" using Cons.IH by blast
  with f show ?case by (auto intro: refines_trans)
qed simp

lemma merge_policies_refines:
  "\<exists>st bits' any'. merge_policies mode ps (bits, any) = Some (st, bits', any') \<and> refines bits bits' \<and>
     (ZX_POL_NEW_ANY \<notin> pb_condition ` set ps \<longrightarrow> any' = any)"
proof (induction ps arbitrary: bits any)
  case (Cons p ps)
  have part: "\<exists>st bits'. AddPartial mode c a v bits = Some (st, bits') \<and> refines bits bits'" for c a v bits
    by (rule AddPartial_refines [of mode c a v bits]) blast
  show ?case
  proof (cases "pb_condition p = ZX_POL_NEW_ANY")
    case True
    obtain st b1 where f: "for_conditions (\<lambda>cond. AddPartial mode cond (pb_action p) ZX_POL_OVERRIDE_ALLOW)
        kNewObjectPolicies bits = Some (st, b1)" "refines bits b1"
      using for_conditions_refines [of "\<lambda>cond. AddPartial mode cond (pb_action p) ZX_POL_OVERRIDE_ALLOW"] part by blast
    obtain st2 b2 a2 where "merge_policies mode ps (b1, Some (pb_flags p)) = Some (st2, b2, a2)" "refines b1 b2"
      using Cons.IH by blast
    with f True show ?thesis by (auto intro: refines_trans)
  next
    case False
    obtain st b1 where f: "AddPartial mode (pb_condition p) (pb_action p) (pb_flags p) bits = Some (st, b1)" "refines bits b1"
      using part by blast
    obtain st2 b2 a2 where "merge_policies mode ps (b1, any) = Some (st2, b2, a2)" "refines b1 b2"
      "ZX_POL_NEW_ANY \<notin> pb_condition ` set ps \<longrightarrow> a2 = any" using Cons.IH by blast
    with f False show ?thesis by (auto intro: refines_trans)
  qed
qed simp

text \<open>The last phase only writes override bits.\<close>

definition same_actions :: "u64 \<Rightarrow> u64 \<Rightarrow> bool" where
  "same_actions bits bits' \<longleftrightarrow> (\<forall>c. GetAction bits' c = GetAction bits c)"

lemma SetOverride_actions:
  obtains st bits' where "SetOverride c v bits = Some (st, bits')" "same_actions bits bits'"
    "PolicyOverrideIsValid v \<and> field_offset c \<noteq> None \<longrightarrow> st = ZX_OK \<and> GetOverride bits' c = ucast v \<and>
       (\<forall>d. d \<noteq> c \<longrightarrow> GetOverride bits' d = GetOverride bits d)"
proof (cases "PolicyOverrideIsValid v \<and> field_offset c \<noteq> None")
  case False
  then show thesis by (intro that [of ZX_ERR_INVALID_ARGS bits]) (auto simp: SetOverride_def same_actions_def)
next
  case True
  then obtain p where p: "field_offset c = Some p" by blast
  obtain b2 where b2: "field_set (p + 3) 1 (ucast v) bits = Some b2"
    using True override_fits by (auto simp: field_set_def)
  have fit: "p + 3 + 1 \<le> 64" using field_offset_fits [OF p] by simp
  have same: "field_get p 3 b2 = field_get p 3 bits" "field_get (p + 3) 1 b2 = ucast v"
    using field_get_set_other [OF b2 fit, of p 3] field_get_set [OF b2 fit] by simp_all
  have other: "field_get q 3 b2 = field_get q 3 bits \<and> field_get (q + 3) 1 b2 = field_get (q + 3) 1 bits"
    if "field_offset d = Some q" "d \<noteq> c" for d q
    using field_offset_apart [OF that(1) p that(2)] field_get_set_other [OF b2 fit, of q 3]
      field_get_set_other [OF b2 fit, of "q + 3" 1] by auto
  show thesis
  proof (rule that [of ZX_OK b2])
    show "SetOverride c v bits = Some (ZX_OK, b2)" using True p b2 by (simp add: SetOverride_def)
    have "GetAction b2 d = GetAction bits d" for d
      using same other [of d] p by (cases "d = c") (auto simp: GetAction_def split: option.splits)
    then show "same_actions bits b2" by (simp add: same_actions_def)
    show "PolicyOverrideIsValid v \<and> field_offset c \<noteq> None \<longrightarrow> ZX_OK = ZX_OK \<and> GetOverride b2 c = ucast v \<and> (\<forall>d. d \<noteq> c \<longrightarrow> GetOverride b2 d = GetOverride bits d)"
      using same(2) other p by (auto simp: GetOverride_def split: option.splits)
  qed
qed

lemma set_overrides:
  "\<exists>st bits'. for_conditions (\<lambda>cond. SetOverride cond v) cs bits = Some (st, bits') \<and> same_actions bits bits' \<and>
     (PolicyOverrideIsValid v \<and> (\<forall>c\<in>set cs. field_offset c \<noteq> None) \<longrightarrow> st = ZX_OK \<and>
        (\<forall>d. GetOverride bits' d = (if d \<in> set cs then ucast v else GetOverride bits d)))"
proof (induction cs arbitrary: bits)
  case (Cons c cs)
  obtain st b1 where f: "SetOverride c v bits = Some (st, b1)" "same_actions bits b1"
    "PolicyOverrideIsValid v \<and> field_offset c \<noteq> None \<longrightarrow> st = ZX_OK \<and> GetOverride b1 c = ucast v \<and>
       (\<forall>d. d \<noteq> c \<longrightarrow> GetOverride b1 d = GetOverride bits d)" by (rule SetOverride_actions [of c v bits])
  obtain st2 b2 where g: "for_conditions (\<lambda>cond. SetOverride cond v) cs b1 = Some (st2, b2)" "same_actions b1 b2"
    "PolicyOverrideIsValid v \<and> (\<forall>c\<in>set cs. field_offset c \<noteq> None) \<longrightarrow> st2 = ZX_OK \<and>
        (\<forall>d. GetOverride b2 d = (if d \<in> set cs then ucast v else GetOverride b1 d))" using Cons.IH by blast
  show ?case
  proof (cases "st = ZX_OK")
    case True
    have "same_actions bits b2" using f(2) g(2) by (simp add: same_actions_def)
    then show ?thesis using f(1,3) g(1,3) True by (intro exI [of _ st2] exI [of _ b2]) auto
  next
    case False
    then show ?thesis using f by auto
  qed
qed (simp add: same_actions_def)

lemma AddBasicPolicy_cases:
  obtains (failed) st where "AddBasicPolicy mode ps jp = Some (st, jp)" "st \<noteq> ZX_OK"
  | (merged) bits where "AddBasicPolicy mode ps jp = Some (ZX_OK, jp\<lparr>cookie := bits\<rparr>)" "refines (cookie jp) bits"
      "merge_policies mode ps (cookie jp, None) = Some (ZX_OK, bits, None)"
  | (merged_any) bits bits' where "AddBasicPolicy mode ps jp = Some (ZX_OK, jp\<lparr>cookie := bits'\<rparr>)"
      "refines (cookie jp) bits" "same_actions bits bits'" "ZX_POL_NEW_ANY \<in> pb_condition ` set ps"
proof (cases "length ps > ZX_POL_MAX")
  case True
  then show thesis using failed by (simp add: AddBasicPolicy_def)
next
  case False
  obtain st bits any where m: "merge_policies mode ps (cookie jp, None) = Some (st, bits, any)"
    "refines (cookie jp) bits" "ZX_POL_NEW_ANY \<notin> pb_condition ` set ps \<longrightarrow> any = None"
    using merge_policies_refines [of mode ps "cookie jp" None] by blast
  show thesis
  proof (cases "st = ZX_OK")
    case fail: False
    then show thesis using failed [of st] m(1) False by (simp add: AddBasicPolicy_def)
  next
    case ok: True
    show thesis
    proof (cases any)
      case None
      then show thesis using merged [of bits] m ok False by (simp add: AddBasicPolicy_def)
    next
      case (Some v)
      obtain st2 b2 where s: "for_conditions (\<lambda>cond. SetOverride cond v) kNewObjectPolicies bits = Some (st2, b2)"
        "same_actions bits b2" using set_overrides by blast
      show thesis
      proof (cases "st2 = ZX_OK")
        case True
        then show thesis using merged_any [of b2 bits] m ok False Some s by (simp add: AddBasicPolicy_def)
      next
        case fail: False
        then show thesis using failed [of st2] m ok False Some s by (simp add: AddBasicPolicy_def)
      qed
    qed
  qed
qed

lemma GetOverride_bool: "GetOverride bits c \<noteq> 0 \<longleftrightarrow> GetOverride bits c = 1"
proof -
  have "field_get p 1 bits = 1" if "field_get p 1 bits \<noteq> 0" for p
  proof (rule bit_eqI)
    fix k
    have "bit (field_get p 1 bits) 0"
    proof (rule ccontr)
      assume "\<not> bit (field_get p 1 bits) 0"
      then have "field_get p 1 bits = 0" by (intro bit_eqI) (auto simp: field_get_bit)
      with that show False by simp
    qed
    then show "bit (field_get p 1 bits) k \<longleftrightarrow> bit (1 :: u64) k" by (auto simp: field_get_bit bit_1_iff)
  qed
  then show ?thesis by (auto simp: GetOverride_def ZX_POL_OVERRIDE_DENY_def split: option.splits)
qed

lemma locked_query: "locked (cookie jp) c \<longleftrightarrow> QueryBasicPolicyOverride c jp = ZX_POL_OVERRIDE_DENY"
proof -
  have "GetOverride (cookie jp) c = 0 \<or> GetOverride (cookie jp) c = 1" using GetOverride_bool by blast
  then show ?thesis by (auto simp: locked_def QueryBasicPolicyOverride_def ZX_POL_OVERRIDE_DENY_def)
qed

text \<open>
  C9. A locked policy cannot be changed by merging. Whatever list of entries is merged into a
  policy and in whichever mode, the assertions of the bit fields hold, a failing merge changes
  nothing, and the action of a condition whose override is denied is the same afterwards; if
  the list does not name \<open>ZX_POL_NEW_ANY\<close>, the condition also stays locked.
\<close>

theorem policy_lock_holds:
  "\<exists>st jp'. AddBasicPolicy mode ps jp = Some (st, jp') \<and> (st \<noteq> ZX_OK \<longrightarrow> jp' = jp) \<and>
     (\<forall>c. QueryBasicPolicyOverride c jp = ZX_POL_OVERRIDE_DENY \<longrightarrow>
        QueryBasicPolicy c jp' = QueryBasicPolicy c jp \<and>
        (ZX_POL_NEW_ANY \<notin> pb_condition ` set ps \<longrightarrow> QueryBasicPolicyOverride c jp' = ZX_POL_OVERRIDE_DENY))"
proof (cases rule: AddBasicPolicy_cases [of mode ps jp])
  case (failed st)
  then show ?thesis by auto
next
  case (merged bits)
  have "entry bits c = entry (cookie jp) c" if "QueryBasicPolicyOverride c jp = ZX_POL_OVERRIDE_DENY" for c
    using merged(2) that by (auto simp: refines_def locked_query)
  then show ?thesis using merged(1)
    by (auto simp: entry_def QueryBasicPolicy_def QueryBasicPolicyOverride_def)
next
  case (merged_any bits bits')
  have "GetAction bits' c = GetAction (cookie jp) c" if "QueryBasicPolicyOverride c jp = ZX_POL_OVERRIDE_DENY" for c
    using merged_any(2,3) that by (auto simp: refines_def locked_query entry_def same_actions_def)
  then show ?thesis using merged_any(1,4) by (auto simp: QueryBasicPolicy_def)
qed

theorem policy_lock_holds_witness:
  "\<exists>st jp'. AddBasicPolicy ZX_JOB_POL_RELATIVE
       [\<lparr>pb_condition = ZX_POL_NEW_VMO, pb_action = ZX_POL_ACTION_ALLOW, pb_flags = ZX_POL_OVERRIDE_ALLOW\<rparr>]
       \<lparr>cookie = push_bit 12 9, jp_slack = TimerSlack_none\<rparr> = Some (st, jp') \<and>
     QueryBasicPolicy ZX_POL_NEW_VMO jp' = ZX_POL_ACTION_DENY"
proof -
  let ?jp = "\<lparr>cookie = push_bit 12 9, jp_slack = TimerSlack_none\<rparr>"
  have "QueryBasicPolicyOverride ZX_POL_NEW_VMO ?jp = ZX_POL_OVERRIDE_DENY"
    "QueryBasicPolicy ZX_POL_NEW_VMO ?jp = ZX_POL_ACTION_DENY" by code_simp+
  then show ?thesis using policy_lock_holds [of ZX_JOB_POL_RELATIVE _ ?jp] by metis
qed

lemma narrow_widen: "ucast (ucast x :: u64) = x" for x :: u32
  by (rule bit_word_eqI) (simp add: bit_simps)

lemma AddPartial_unlocked:
  assumes "\<not> locked bits c" and "field_offset c \<noteq> None" and "action < ZX_POL_ACTION_MAX" and "PolicyOverrideIsValid override"
  obtains bits' where "AddPartial mode c action override bits = Some (ZX_OK, bits')"
    "entry_set c (ucast action, ucast override) bits bits'"
proof -
  obtain p where p: "field_offset c = Some p" using assms(2) by blast
  obtain bits' where "set_entry p action override bits = Some bits'"
    "entry_set c (ucast action, ucast override) bits bits'" by (rule set_entry_ok [OF p assms(3,4)])
  then show thesis using that assms p
    by (simp add: AddPartial_def locked_def GetOverride_def ZX_POL_OVERRIDE_ALLOW_def not_le [symmetric])
qed

lemma merge_absolute:
  "merge_policies ZX_JOB_POL_ABSOLUTE ps (bits, any) = Some (ZX_OK, bits', any') \<Longrightarrow>
   distinct (map pb_condition ps) \<Longrightarrow> ZX_POL_NEW_ANY \<notin> pb_condition ` set ps \<Longrightarrow>
   (\<forall>p\<in>set ps. entry bits' (pb_condition p) = (ucast (pb_action p), ucast (pb_flags p))) \<and>
   (\<forall>c. c \<notin> pb_condition ` set ps \<longrightarrow> entry bits' c = entry bits c)"
proof (induction ps arbitrary: bits)
  case (Cons p ps)
  have ne: "pb_condition p \<noteq> ZX_POL_NEW_ANY" using Cons.prems(3) by auto
  show ?case
  proof (cases rule: AddPartial_cases [of ZX_JOB_POL_ABSOLUTE "pb_condition p" "pb_action p" "pb_flags p" bits])
    case (rejected st)
    then show ?thesis using Cons.prems(1) ne by simp
  next
    case (written b1)
    then have "merge_policies ZX_JOB_POL_ABSOLUTE ps (b1, any) = Some (ZX_OK, bits', any')"
      using Cons.prems(1) ne by simp
    note IH = Cons.IH [OF this]
    show ?thesis using IH Cons.prems(2,3) written(6) by (auto simp: entry_set_def)
  next
    case kept
    then have m: "merge_policies ZX_JOB_POL_ABSOLUTE ps (bits, any) = Some (ZX_OK, bits', any')"
      using Cons.prems(1) ne by simp
    have e: "entry bits (pb_condition p) = (ucast (pb_action p), ucast (pb_flags p))"
      using kept(2,4) GetOverride_bool by (auto simp: entry_def locked_def ZX_POL_OVERRIDE_DENY_def)
    show ?thesis using Cons.IH [OF m] Cons.prems(2,3) e by auto
  qed
qed simp

text \<open>
  In absolute mode a policy is applied as given or not at all. If merging a list of distinct
  conditions without \<open>ZX_POL_NEW_ANY\<close> succeeds, every listed condition has exactly the action and
  override asked for, and all others are as before.
\<close>

theorem policy_absolute_exact:
  assumes "AddBasicPolicy ZX_JOB_POL_ABSOLUTE ps jp = Some (ZX_OK, jp')"
    and "distinct (map pb_condition ps)" and "ZX_POL_NEW_ANY \<notin> pb_condition ` set ps"
  shows "(\<forall>p\<in>set ps. QueryBasicPolicy (pb_condition p) jp' = pb_action p \<and>
      QueryBasicPolicyOverride (pb_condition p) jp' = pb_flags p) \<and>
    (\<forall>c. c \<notin> pb_condition ` set ps \<longrightarrow> QueryBasicPolicy c jp' = QueryBasicPolicy c jp \<and>
      QueryBasicPolicyOverride c jp' = QueryBasicPolicyOverride c jp)"
proof (cases rule: AddBasicPolicy_cases [of ZX_JOB_POL_ABSOLUTE ps jp])
  case (failed st)
  then show ?thesis using assms(1) by simp
next
  case (merged bits)
  have jp': "jp' = jp\<lparr>cookie := bits\<rparr>" using merged(1) assms(1) by simp
  show ?thesis using merge_absolute [OF merged(3) assms(2,3)]
    by (auto simp: jp' entry_def QueryBasicPolicy_def QueryBasicPolicyOverride_def narrow_widen)
next
  case (merged_any bits bits')
  then show ?thesis using assms(3) by simp
qed

theorem policy_absolute_exact_witness:
  "let ps = [\<lparr>pb_condition = ZX_POL_NEW_VMO, pb_action = ZX_POL_ACTION_KILL, pb_flags = ZX_POL_OVERRIDE_DENY\<rparr>]
   in \<exists>jp'. AddBasicPolicy ZX_JOB_POL_ABSOLUTE ps CreateRootPolicy = Some (ZX_OK, jp') \<and>
        QueryBasicPolicy ZX_POL_NEW_VMO jp' = ZX_POL_ACTION_KILL \<and>
        QueryBasicPolicy ZX_POL_NEW_FIFO jp' = ZX_POL_ACTION_ALLOW"
proof -
  let ?ps = "[\<lparr>pb_condition = ZX_POL_NEW_VMO, pb_action = ZX_POL_ACTION_KILL, pb_flags = ZX_POL_OVERRIDE_DENY\<rparr>]"
  have "map_option fst (AddBasicPolicy ZX_JOB_POL_ABSOLUTE ?ps CreateRootPolicy) = Some ZX_OK" by code_simp
  then obtain jp' where call: "AddBasicPolicy ZX_JOB_POL_ABSOLUTE ?ps CreateRootPolicy = Some (ZX_OK, jp')" by auto
  have "distinct (map pb_condition ?ps)" "ZX_POL_NEW_ANY \<notin> pb_condition ` set ?ps"
    "ZX_POL_NEW_FIFO \<notin> pb_condition ` set ?ps" "QueryBasicPolicy ZX_POL_NEW_FIFO CreateRootPolicy = ZX_POL_ACTION_ALLOW"
    by code_simp+
  with policy_absolute_exact [OF call] call show ?thesis by simp
qed

lemma new_object_offsets: "\<forall>c\<in>set kNewObjectPolicies. field_offset c \<noteq> None \<and> c \<noteq> ZX_POL_NEW_ANY"
  by code_simp

lemma for_conditions_relative:
  assumes "action < ZX_POL_ACTION_MAX"
  shows "\<forall>c\<in>set cs. field_offset c \<noteq> None \<Longrightarrow> \<exists>bits'.
    for_conditions (\<lambda>cond. AddPartial ZX_JOB_POL_RELATIVE cond action ZX_POL_OVERRIDE_ALLOW) cs bits = Some (ZX_OK, bits')"
proof (induction cs arbitrary: bits)
  case (Cons c cs)
  have "\<exists>b. AddPartial ZX_JOB_POL_RELATIVE c action ZX_POL_OVERRIDE_ALLOW bits = Some (ZX_OK, b)"
  proof (cases "field_offset c")
    case (Some p)
    have v: "PolicyOverrideIsValid ZX_POL_OVERRIDE_ALLOW" by (simp add: PolicyOverrideIsValid_def)
    obtain b where "set_entry p action ZX_POL_OVERRIDE_ALLOW bits = Some b" using set_entry_ok [OF Some assms v] by blast
    then show ?thesis using Some assms v
      by (auto simp: AddPartial_def not_le [symmetric] ZX_JOB_POL_RELATIVE_def ZX_JOB_POL_ABSOLUTE_def)
  qed (use Cons.prems in simp)
  then show ?case using Cons.IH Cons.prems by fastforce
qed simp

text \<open>
  C31. The lock on new objects can be taken off by \<open>ZX_POL_NEW_ANY\<close>. For every policy, and for
  every condition about new objects, however locked, merging \<open>ZX_POL_NEW_ANY\<close> with the override
  allowed in relative mode succeeds, and after it an entry that allows the condition is accepted
  even in absolute mode and takes effect.
\<close>

theorem policy_lock_bypass:
  assumes "c \<in> set kNewObjectPolicies"
  shows "\<exists>jp1 jp2.
    AddBasicPolicy ZX_JOB_POL_RELATIVE [\<lparr>pb_condition = ZX_POL_NEW_ANY, pb_action = ZX_POL_ACTION_ALLOW,
      pb_flags = ZX_POL_OVERRIDE_ALLOW\<rparr>] jp = Some (ZX_OK, jp1) \<and>
    AddBasicPolicy ZX_JOB_POL_ABSOLUTE [\<lparr>pb_condition = c, pb_action = ZX_POL_ACTION_ALLOW,
      pb_flags = ZX_POL_OVERRIDE_ALLOW\<rparr>] jp1 = Some (ZX_OK, jp2) \<and>
    QueryBasicPolicy c jp2 = ZX_POL_ACTION_ALLOW"
proof -
  have allow: "ZX_POL_ACTION_ALLOW < ZX_POL_ACTION_MAX" "PolicyOverrideIsValid ZX_POL_OVERRIDE_ALLOW"
    by (simp_all add: pol_actions PolicyOverrideIsValid_def)
  obtain b1 where b1: "for_conditions (\<lambda>cond. AddPartial ZX_JOB_POL_RELATIVE cond ZX_POL_ACTION_ALLOW ZX_POL_OVERRIDE_ALLOW)
      kNewObjectPolicies (cookie jp) = Some (ZX_OK, b1)"
    using for_conditions_relative [OF allow(1)] new_object_offsets by blast
  obtain b2 where b2: "for_conditions (\<lambda>cond. SetOverride cond ZX_POL_OVERRIDE_ALLOW) kNewObjectPolicies b1 = Some (ZX_OK, b2)"
    "GetOverride b2 c = ucast ZX_POL_OVERRIDE_ALLOW"
    using set_overrides [of ZX_POL_OVERRIDE_ALLOW kNewObjectPolicies b1] allow(2) new_object_offsets assms by auto
  have one: "AddBasicPolicy ZX_JOB_POL_RELATIVE [\<lparr>pb_condition = ZX_POL_NEW_ANY, pb_action = ZX_POL_ACTION_ALLOW,
      pb_flags = ZX_POL_OVERRIDE_ALLOW\<rparr>] jp = Some (ZX_OK, jp\<lparr>cookie := b2\<rparr>)"
    using b1 b2(1) by (simp add: AddBasicPolicy_def ZX_POL_MAX_def)
  have "\<not> locked b2 c" using b2(2) by (simp add: locked_def ZX_POL_OVERRIDE_ALLOW_def)
  then obtain b3 where b3: "AddPartial ZX_JOB_POL_ABSOLUTE c ZX_POL_ACTION_ALLOW ZX_POL_OVERRIDE_ALLOW b2 = Some (ZX_OK, b3)"
    "entry_set c (ucast ZX_POL_ACTION_ALLOW, ucast ZX_POL_OVERRIDE_ALLOW) b2 b3"
    using AddPartial_unlocked [OF _ _ allow] new_object_offsets assms by metis
  have "c \<noteq> ZX_POL_NEW_ANY" using new_object_offsets assms by blast
  then have two: "AddBasicPolicy ZX_JOB_POL_ABSOLUTE [\<lparr>pb_condition = c, pb_action = ZX_POL_ACTION_ALLOW,
      pb_flags = ZX_POL_OVERRIDE_ALLOW\<rparr>] (jp\<lparr>cookie := b2\<rparr>) = Some (ZX_OK, jp\<lparr>cookie := b3\<rparr>)"
    using b3(1) by (simp add: AddBasicPolicy_def ZX_POL_MAX_def)
  have "QueryBasicPolicy c (jp\<lparr>cookie := b3\<rparr>) = ZX_POL_ACTION_ALLOW"
    using b3(2) by (simp add: entry_set_def entry_def QueryBasicPolicy_def narrow_widen)
  with one two show ?thesis by blast
qed

theorem policy_lock_bypass_witness:
  "\<exists>jp1 jp2.
    QueryBasicPolicyOverride ZX_POL_NEW_VMO \<lparr>cookie = push_bit 12 9, jp_slack = TimerSlack_none\<rparr> = ZX_POL_OVERRIDE_DENY \<and>
    AddBasicPolicy ZX_JOB_POL_RELATIVE [\<lparr>pb_condition = ZX_POL_NEW_ANY, pb_action = ZX_POL_ACTION_ALLOW,
      pb_flags = ZX_POL_OVERRIDE_ALLOW\<rparr>] \<lparr>cookie = push_bit 12 9, jp_slack = TimerSlack_none\<rparr> = Some (ZX_OK, jp1) \<and>
    AddBasicPolicy ZX_JOB_POL_ABSOLUTE [\<lparr>pb_condition = ZX_POL_NEW_VMO, pb_action = ZX_POL_ACTION_ALLOW,
      pb_flags = ZX_POL_OVERRIDE_ALLOW\<rparr>] jp1 = Some (ZX_OK, jp2) \<and>
    QueryBasicPolicy ZX_POL_NEW_VMO jp2 = ZX_POL_ACTION_ALLOW"
proof -
  have "ZX_POL_NEW_VMO \<in> set kNewObjectPolicies" by (simp add: kNewObjectPolicies_def)
  moreover have "QueryBasicPolicyOverride ZX_POL_NEW_VMO \<lparr>cookie = push_bit 12 9, jp_slack = TimerSlack_none\<rparr> =
    ZX_POL_OVERRIDE_DENY" by code_simp
  ultimately show ?thesis
    using policy_lock_bypass [of ZX_POL_NEW_VMO "\<lparr>cookie = push_bit 12 9, jp_slack = TimerSlack_none\<rparr>"] by blast
qed

text \<open>The policies a job can have: the root policy, or one made from the parent's.\<close>

inductive policy_reach :: "job_policy \<Rightarrow> bool" where
  root: "policy_reach CreateRootPolicy"
| basic: "policy_reach jp \<Longrightarrow> AddBasicPolicy mode ps jp = Some (st, jp') \<Longrightarrow> policy_reach jp'"
| timer_slack: "policy_reach jp \<Longrightarrow> policy_reach (SetTimerSlack s jp)"

lemma actions_ok_root: "actions_ok 0"
  by (auto simp: actions_ok_def GetAction_def field_get_def ZX_POL_ACTION_DENY_def split: option.splits)

lemma policy_reach_actions: "policy_reach jp \<Longrightarrow> actions_ok (cookie jp)"
proof (induction rule: policy_reach.induct)
  case root
  then show ?case using actions_ok_root by (simp add: CreateRootPolicy_def)
next
  case (basic jp mode ps st jp')
  show ?case
  proof (cases rule: AddBasicPolicy_cases [of mode ps jp])
    case (merged_any bits bits')
    then show ?thesis using basic by (auto simp: refines_def same_actions_def actions_ok_def)
  qed (use basic in \<open>auto simp: refines_def\<close>)
qed (simp add: SetTimerSlack_def)



end
