(* ===== verification/Timer_Object.thy ===== *)
theory Timer_Object
  imports Peered Timer_Queue
begin

text \<open>
  Timer objects (\<^verbatim>\<open>kernel/object/timer_dispatcher.cc\<close>) on top of the kernel timers. Between a thread
  that sets or cancels the timer, the timer interrupt that queues a deferred call, and the
  thread that runs the deferred call, the object must neither signal a cancelled deadline nor
  lose one that was set. The state is the object and the kernel timers; \<open>dpc_queued\<close> is the
  deferred call on its queue and \<open>extra_refs\<close> the references taken by \<open>Set\<close> on behalf of the
  timer and the call. \<open>cpus\<close> lists the CPUs, \<open>cpu\<close> is the one the code runs on and \<open>i\<close> the
  identity of the kernel timer; \<open>None\<close> is a panic or a failed assertion.
\<close>

section \<open>State and operations\<close>

definition ZX_TIMER_SLACK_CENTER :: u32 where "ZX_TIMER_SLACK_CENTER = 0"
definition ZX_TIMER_SLACK_EARLY :: u32 where "ZX_TIMER_SLACK_EARLY = 1"
definition ZX_TIMER_SLACK_LATE :: u32 where "ZX_TIMER_SLACK_LATE = 2"

record timer_object =
  to_disp :: dispatcher
  to_options :: u32
  to_deadline :: zx_time
  to_slack :: zx_duration
  cancel_pending :: bool
  dpc_queued :: bool
  extra_refs :: nat

type_synonym timer_state = "timer_object \<times> timers"

definition TimerDispatcher_Create :: "bool \<Rightarrow> koid \<Rightarrow> u32 \<Rightarrow> zx_status + timer_object" where
  "TimerDispatcher_Create alloc k options =
     (if options > ZX_TIMER_SLACK_LATE then Inl ZX_ERR_INVALID_ARGS
      else if options \<noteq> ZX_TIMER_SLACK_CENTER \<and> options \<noteq> ZX_TIMER_SLACK_EARLY \<and> options \<noteq> ZX_TIMER_SLACK_LATE
      then Inl ZX_ERR_INVALID_ARGS
      else if \<not> alloc then Inl ZX_ERR_NO_MEMORY
      else Inr \<lparr>to_disp = Dispatcher_new k True 0, to_options = options, to_deadline = 0, to_slack = 0,
                cancel_pending = False, dpc_queued = False, extra_refs = 0\<rparr>)"

definition to_update_state :: "zx_signals \<Rightarrow> zx_signals \<Rightarrow> timer_object \<Rightarrow> timer_object" where
  "to_update_state c s t = t\<lparr>to_disp := update_state c s (to_disp t)\<rparr>"

definition SetTimerLocked :: "nat list \<Rightarrow> nat \<Rightarrow> nat \<Rightarrow> bool \<Rightarrow> timer_state \<Rightarrow> timer_state option" where
  "SetTimerLocked cpus cpu i cancel_first = (\<lambda>(t, ts).
     let ts1 = (if cancel_first then snd (snd (Timer_Cancel cpus cpu i ts)) else ts);
         mode = (if to_options t = ZX_TIMER_SLACK_CENTER then Some TIMER_SLACK_CENTER
                 else if to_options t = ZX_TIMER_SLACK_EARLY then Some TIMER_SLACK_EARLY
                 else if to_options t = ZX_TIMER_SLACK_LATE then Some TIMER_SLACK_LATE
                 else None)
     in case mode of
          None \<Rightarrow> None
        | Some m \<Rightarrow>
            (case Timer_Set cpus cpu i
                    \<lparr>dl_when = to_deadline t, dl_slack = \<lparr>ts_amount = to_slack t, ts_mode = m\<rparr>\<rparr> ts1 of
               None \<Rightarrow> None
             | Some ts2 \<Rightarrow> Some (t, ts2)))"

text \<open>The result says whether the kernel timer was asked to cancel.\<close>

definition CancelTimerLocked :: "nat list \<Rightarrow> nat \<Rightarrow> nat \<Rightarrow> timer_state \<Rightarrow> (bool \<times> timer_state) option" where
  "CancelTimerLocked cpus cpu i = (\<lambda>(t, ts).
     let t1 = to_update_state ZX_OBJECT_SIGNALED 0 t
     in if to_deadline t1 = 0 then Some (False, t1, ts)
        else
          let t2 = t1\<lparr>to_deadline := 0, to_slack := 0\<rparr>
          in if cancel_pending t2 then Some (False, t2, ts)
             else
               let (timer_canceled, waited, ts1) = Timer_Cancel cpus cpu i ts
               in if timer_canceled
                  then if extra_refs t2 = 0 then None
                       else Some (True, t2\<lparr>extra_refs := extra_refs t2 - 1\<rparr>, ts1)
                  else Some (True, t2\<lparr>cancel_pending := True\<rparr>, ts1))"

definition TimerDispatcher_Set ::
  "nat list \<Rightarrow> nat \<Rightarrow> nat \<Rightarrow> zx_time \<Rightarrow> zx_time \<Rightarrow> zx_duration \<Rightarrow> timer_state \<Rightarrow> (zx_status \<times> timer_state) option" where
  "TimerDispatcher_Set cpus cpu i now deadline slack_amount st =
     (case CancelTimerLocked cpus cpu i st of
        None \<Rightarrow> None
      | Some (did_cancel, t, ts) \<Rightarrow>
          if deadline = 0 \<or> deadline \<le> now
          then Some (ZX_OK, to_update_state 0 ZX_OBJECT_SIGNALED t, ts)
          else
            let t1 = t\<lparr>to_deadline := deadline, to_slack := slack_amount\<rparr>
            in if cancel_pending t1 then Some (ZX_OK, t1, ts)
               else map_option (Pair ZX_OK)
                      (SetTimerLocked cpus cpu i (\<not> did_cancel) (t1\<lparr>extra_refs := extra_refs t1 + 1\<rparr>, ts)))"

definition TimerDispatcher_Cancel :: "nat list \<Rightarrow> nat \<Rightarrow> nat \<Rightarrow> timer_state \<Rightarrow> (zx_status \<times> timer_state) option" where
  "TimerDispatcher_Cancel cpus cpu i st = map_option (\<lambda>(did, st'). (ZX_OK, st')) (CancelTimerLocked cpus cpu i st)"

definition Timer_on_zero_handles :: "nat list \<Rightarrow> nat \<Rightarrow> nat \<Rightarrow> timer_state \<Rightarrow> timer_state option" where
  "Timer_on_zero_handles cpus cpu i st =
     (case CancelTimerLocked cpus cpu i st of
        None \<Rightarrow> None
      | Some (did, t, ts) \<Rightarrow>
          Some (if did then (t, ts) else (t, snd (snd (Timer_Cancel cpus cpu i ts)))))"

text \<open>
  The callback of the kernel timer queues the deferred call; the deferred call runs
  \<open>OnTimerFired\<close>. Its last part drops the reference taken by \<open>Set\<close>.
\<close>

definition timer_irq_callback :: "timer_object \<Rightarrow> timer_object" where
  "timer_irq_callback t = t\<lparr>dpc_queued := True\<rparr>"

definition OnTimerFired :: "nat list \<Rightarrow> nat \<Rightarrow> nat \<Rightarrow> timer_state \<Rightarrow> timer_state option" where
  "OnTimerFired cpus cpu i = (\<lambda>(t, ts).
     if cancel_pending t then
       let t1 = t\<lparr>cancel_pending := False\<rparr>
       in if to_deadline t1 \<noteq> 0 then SetTimerLocked cpus cpu i True (t1, ts)
          else if extra_refs t1 = 0 then None
          else Some (t1\<lparr>extra_refs := extra_refs t1 - 1\<rparr>, ts)
     else
       let t1 = (to_update_state 0 ZX_OBJECT_SIGNALED t)\<lparr>to_deadline := 0, to_slack := 0\<rparr>
       in if extra_refs t1 = 0 then None
          else Some (t1\<lparr>extra_refs := extra_refs t1 - 1\<rparr>, ts))"

definition dpc_callback :: "nat list \<Rightarrow> nat \<Rightarrow> nat \<Rightarrow> timer_state \<Rightarrow> timer_state option" where
  "dpc_callback cpus cpu i = (\<lambda>(t, ts). OnTimerFired cpus cpu i (t\<lparr>dpc_queued := False\<rparr>, ts))"

record timer_info =
  ti_options :: u32
  ti_deadline :: zx_time
  ti_slack :: zx_duration

definition Timer_GetInfo :: "timer_object \<Rightarrow> timer_info" where
  "Timer_GetInfo t = \<lparr>ti_options = to_options t, ti_deadline = to_deadline t, ti_slack = to_slack t\<rparr>"

section \<open>The invariant\<close>

abbreviation armed :: "nat list \<Rightarrow> nat \<Rightarrow> timers \<Rightarrow> bool" where
  "armed \<equiv> InContainer"

text \<open>
  A timer that is set is either on a queue or has its call on the way, never both; the call of
  a cancelled timer is marked; the references match; and a signalled timer is not set.
\<close>

definition timer_inv :: "nat list \<Rightarrow> nat \<Rightarrow> timer_state \<Rightarrow> bool" where
  "timer_inv cpus i = (\<lambda>(t, ts).
     to_options t \<in> {ZX_TIMER_SLACK_CENTER, ZX_TIMER_SLACK_EARLY, ZX_TIMER_SLACK_LATE} \<and>
     int64 (to_deadline t) \<and> int64 (to_slack t) \<and> 0 \<le> to_slack t \<and>
     timers_inv cpus {} ts \<and> active_cpu (flags ts i) = None \<and>
     (armed cpus i ts \<longrightarrow> to_deadline t \<noteq> 0 \<and> \<not> cancel_pending t \<and> \<not> dpc_queued t) \<and>
     (cancel_pending t \<longrightarrow> dpc_queued t) \<and>
     (dpc_queued t \<and> \<not> cancel_pending t \<longrightarrow> to_deadline t \<noteq> 0) \<and>
     (to_deadline t \<noteq> 0 \<and> \<not> cancel_pending t \<longrightarrow> armed cpus i ts \<or> dpc_queued t) \<and>
     extra_refs t = (if armed cpus i ts \<or> dpc_queued t then 1 else 0) \<and>
     (bit (signals (to_disp t)) 3 \<longrightarrow> to_deadline t = 0))"

text \<open>What the operations on kernel timers do, as seen from this timer.\<close>

lemma Timer_Cancel_effect:
  assumes "active_cpu (flags ts i) = None" and "cpu \<in> set cpus" and "timers_inv cpus {} ts"
    and "Timer_Cancel cpus cpu i ts = (b, w, ts')"
  shows "b = armed cpus i ts \<and> \<not> armed cpus i ts' \<and> active_cpu (flags ts' i) = None \<and> timers_inv cpus {} ts'"
proof -
  have "b = armed cpus i ts \<and> \<not> armed cpus i ts' \<and> active_cpu (flags ts' i) = None" using assms(1,2,4)
    by (auto simp: Timer_Cancel_def InContainer_def queued_on_def remove_timer_def Let_def split: if_splits)
  then show ?thesis using Timer_Cancel_inv [OF assms(3,4)] by blast
qed

lemma Timer_Set_effect:
  assumes "active_cpu (flags ts i) = None" and "cpu \<in> set cpus" and "\<not> armed cpus i ts"
    and "valid_deadline dl" and "timers_inv cpus {} ts"
  obtains ts' where "Timer_Set cpus cpu i dl ts = Some ts'" "armed cpus i ts'" "active_cpu (flags ts' i) = None"
    "timers_inv cpus {} ts'"
proof -
  let ?q = "TimerQueue_Insert \<lparr>t_id = i, scheduled_time = dl_when dl, t_slack = 0\<rparr> (earliest dl) (latest dl) (queues ts cpu)"
  let ?ts = "set_queue cpu (if head_id ?q = Some i then UpdatePlatformTimer (dl_when dl) ?q else ?q)
      (set_flags i ((flags ts i)\<lparr>t_callback := True, t_cancel := False\<rparr>) ts)"
  have call: "Timer_Set cpus cpu i dl ts = Some ?ts" using assms(1,3) by (simp add: Timer_Set_def Let_def)
  have "i \<in> t_id ` set (timer_list ?q)" by (simp add: insert_queue_ids)
  then have "armed cpus i ?ts" using assms(2) by (auto simp: InContainer_def queued_on_def)
  moreover have "active_cpu (flags ?ts i) = None" using assms(1) by simp
  ultimately show thesis using that call Timer_Set_inv [OF assms(5,2,4) call] by blast
qed

text \<open>Operations on other timers, by their callbacks or by other objects.\<close>

fun other_timer :: "nat \<Rightarrow> timer_op \<Rightarrow> bool" where
  "other_timer i (OpSet cpu j dl) \<longleftrightarrow> j \<noteq> i"
| "other_timer i (OpCancel cpu j) \<longleftrightarrow> j \<noteq> i"
| "other_timer i (OpPreempt cpu d) \<longleftrightarrow> True"

definition same_for :: "nat list \<Rightarrow> nat \<Rightarrow> timers \<Rightarrow> timers \<Rightarrow> bool" where
  "same_for cpus i s s' \<longleftrightarrow> armed cpus i s' = armed cpus i s \<and> active_cpu (flags s' i) = active_cpu (flags s i)"

lemma same_for_trans: "same_for cpus i s s' \<Longrightarrow> same_for cpus i s' s'' \<Longrightarrow> same_for cpus i s s''"
  by (simp add: same_for_def)

lemma same_for_ids:
  "i \<in> t_id ` set (timer_list q) \<longleftrightarrow> i \<in> t_id ` set (timer_list (queues s cpu)) \<Longrightarrow> same_for cpus i s (set_queue cpu q s)"
  unfolding same_for_def InContainer_def queued_on_def set_queue_def by (rule conjI, rule bex_cong) simp_all

lemma same_for_queue: "timer_list q = timer_list (queues s cpu) \<Longrightarrow> same_for cpus i s (set_queue cpu q s)"
  by (rule same_for_ids) simp

lemma same_for_flags: "j \<noteq> i \<Longrightarrow> same_for cpus i s (set_flags j f s)"
  by (simp add: same_for_def InContainer_def set_flags_def)

lemma Timer_Set_other:
  assumes call: "Timer_Set cpus cpu j dl s = Some s'" and "j \<noteq> i" shows "same_for cpus i s s'"
proof (cases "active_cpu (flags s j) = Some cpu \<and> t_cancel (flags s j)")
  case True
  with call show ?thesis by (simp add: Timer_Set_def Let_def same_for_def split: if_splits)
next
  case False
  let ?q = "TimerQueue_Insert \<lparr>t_id = j, scheduled_time = dl_when dl, t_slack = 0\<rparr> (earliest dl) (latest dl) (queues s cpu)"
  let ?s = "set_flags j ((flags s j)\<lparr>t_callback := True, t_cancel := False\<rparr>) s"
  have "s' = set_queue cpu (if head_id ?q = Some j then UpdatePlatformTimer (dl_when dl) ?q else ?q) ?s"
    using call False by (auto simp: Timer_Set_def Let_def split: if_splits)
  moreover have "i \<in> t_id ` set (timer_list ?q) \<longleftrightarrow> i \<in> t_id ` set (timer_list (queues s cpu))"
    using assms(2) unfolding insert_queue_ids by simp
  ultimately have "same_for cpus i ?s s'" using same_for_ids [of i _ ?s cpu cpus] by simp
  then show ?thesis using same_for_trans [OF same_for_flags] assms(2) by blast
qed

lemma remove_timer_other: "j \<noteq> i \<Longrightarrow> i \<in> t_id ` set (timer_list (remove_timer j q)) \<longleftrightarrow> i \<in> t_id ` set (timer_list q)"
  by (auto simp: remove_timer_def image_iff)

lemma Timer_Cancel_other:
  assumes "j \<noteq> i" shows "same_for cpus i s (snd (snd (Timer_Cancel cpus cpu j s)))"
proof -
  let ?s1 = "set_flags j ((flags s j)\<lparr>t_cancel := True, t_callback := False\<rparr>) s"
  let ?s2 = "?s1\<lparr>queues := (\<lambda>c. remove_timer j (queues s c))\<rparr>"
  have s1: "same_for cpus i s ?s1" by (rule same_for_flags [OF assms])
  have "same_for cpus i ?s1 ?s2"
    by (simp add: same_for_def InContainer_def queued_on_def remove_timer_other [OF assms] set_flags_def)
  moreover have "same_for cpus i ?s2 (set_queue cpu (after_removal j (queues s cpu) (queues ?s2 cpu)) ?s2)"
    by (rule same_for_queue) simp
  ultimately show ?thesis using s1 same_for_trans unfolding Timer_Cancel_def Let_def by (smt (verit) snd_conv)
qed

lemma apply_op_other: "other_timer i op \<Longrightarrow> same_for cpus i s (apply_op cpus op s)"
proof (cases op)
  case (OpSet cpu j dl)
  then show "other_timer i op \<Longrightarrow> ?thesis"
    using Timer_Set_other [of cpus cpu j dl s _ i] by (auto simp: same_for_def split: option.splits)
qed (auto intro: Timer_Cancel_other same_for_queue simp: PreemptReset_def)

lemma apply_ops_other: "\<forall>op\<in>set ops. other_timer i op \<Longrightarrow> same_for cpus i s (fold (apply_op cpus) ops s)"
proof (induction ops arbitrary: s)
  case (Cons op ops)
  then have "same_for cpus i s (apply_op cpus op s)"
    "same_for cpus i (apply_op cpus op s) (fold (apply_op cpus) ops (apply_op cpus op s))"
    by (auto intro: apply_op_other)
  then show ?case using same_for_trans by fastforce
qed (simp add: same_for_def)

text \<open>
  The interrupt, when the callback of this timer does nothing to the kernel timers (it only
  queues the deferred call) and no other callback touches this timer: it fires if and only if it
  leaves its queue.
\<close>

definition callbacks_ok :: "nat list \<Rightarrow> nat \<Rightarrow> (nat \<Rightarrow> timer_op list) \<Rightarrow> bool" where
  "callbacks_ok cpus i ops \<longleftrightarrow> ops i = [] \<and> (\<forall>j. \<forall>op\<in>set (ops j). op_valid cpus op \<and> other_timer i op)"

lemma armed_at:
  "cpu \<in> set cpus \<Longrightarrow> armed cpus i s \<longleftrightarrow> i \<in> t_id ` set (timer_list (queues s cpu)) \<or>
     (\<exists>c\<in>set cpus. c \<noteq> cpu \<and> i \<in> t_id ` set (timer_list (queues s c)))"
  unfolding InContainer_def queued_on_def by metis

lemma tail_armed:
  assumes "timers_inv cpus M s" and "cpu \<in> set cpus" and "timer_list (queues s cpu) = t # ts"
  shows "armed cpus i (set_queue cpu ((queues s cpu)\<lparr>timer_list := ts\<rparr>) s) \<longleftrightarrow> armed cpus i s \<and> i \<noteq> t_id t"
proof -
  have inter: "t_id ` set (t # ts) \<inter> t_id ` set (timer_list (queues s c)) = {}" if "c \<in> set cpus" "c \<noteq> cpu" for c
    using assms that unfolding timers_inv_def ids_ok_def by metis
  then have no: "t_id t \<notin> t_id ` set (timer_list (queues s c))" if "c \<in> set cpus" "c \<noteq> cpu" for c
    using that by force
  have "distinct (map t_id (t # ts))" using assms unfolding timers_inv_def ids_ok_def by metis
  then have "t_id t \<notin> t_id ` set ts" by simp
  with no show ?thesis unfolding armed_at [OF assms(2)] by (cases "i = t_id t") (simp_all add: assms(3) cong: conj_cong)
qed

lemma TickInternal_fires:
  assumes ops: "callbacks_ok cpus i ops" and cpu: "cpu \<in> set cpus"
  shows "timers_inv cpus {cpu} s \<Longrightarrow> active_cpu (flags s i) = None \<Longrightarrow>
    TickInternal fuel (\<lambda>i now. fold (apply_op cpus) (ops i)) now cpu s = Some (fired, s') \<Longrightarrow>
    active_cpu (flags s' i) = None \<and> (armed cpus i s' \<longleftrightarrow> armed cpus i s \<and> i \<notin> set fired) \<and>
    (i \<in> set fired \<longrightarrow> armed cpus i s)"
proof (induction fuel arbitrary: s fired)
  case (Suc fuel)
  show ?case
  proof (cases "timer_list (queues s cpu)")
    case Nil
    with Suc.prems show ?thesis by simp
  next
    case (Cons t ts)
    show ?thesis
    proof (cases "now < scheduled_time t")
      case True
      with Suc.prems Cons show ?thesis by simp
    next
      case False
      define s1 where "s1 = set_queue cpu ((queues s cpu)\<lparr>timer_list := ts\<rparr>) s"
      define s2 where "s2 = set_flags (t_id t) ((flags s1 (t_id t))\<lparr>active_cpu := Some cpu\<rparr>) s1"
      define s3 where "s3 = fold (apply_op cpus) (ops (t_id t)) s2"
      define s4 where "s4 = set_flags (t_id t) ((flags s3 (t_id t))\<lparr>active_cpu := None\<rparr>) s3"
      have "timers_inv cpus {cpu} s1" unfolding s1_def by (rule tail_inv [OF Suc.prems(1) _ Cons]) simp
      then have "timers_inv cpus {cpu} s2" by (rule timers_inv_flags) (simp add: s2_def)
      then have "timers_inv cpus {cpu} s3" using ops by (auto simp: s3_def callbacks_ok_def intro: apply_ops_inv)
      then have s4: "timers_inv cpus {cpu} s4" by (rule timers_inv_flags) (simp add: s4_def)
      have "same_for cpus i s2 s3" using ops by (auto simp: s3_def callbacks_ok_def intro: apply_ops_other)
      moreover have "armed cpus i s2 \<longleftrightarrow> armed cpus i s \<and> i \<noteq> t_id t"
        using tail_armed [OF Suc.prems(1) cpu Cons] by (simp add: s1_def s2_def InContainer_def)
      ultimately have a4: "armed cpus i s4 \<longleftrightarrow> armed cpus i s \<and> i \<noteq> t_id t" and f4: "active_cpu (flags s4 i) = None"
        using Suc.prems(2) by (auto simp: s4_def s2_def s1_def same_for_def InContainer_def set_flags_def set_queue_def)
      have fires: "i = t_id t \<Longrightarrow> armed cpus i s"
        using Cons unfolding armed_at [OF cpu] by simp
      obtain rest where rest: "TickInternal fuel (\<lambda>i now. fold (apply_op cpus) (ops i)) now cpu s4 = Some (rest, s')"
        "fired = t_id t # rest"
        using Suc.prems(3) Cons False
        by (auto simp: Let_def s1_def s2_def s3_def s4_def split: option.splits)
      show ?thesis using Suc.IH [OF s4 f4 rest(1)] a4 fires rest(2) by auto
    qed
  qed
qed simp

lemma TimerQueue_Tick_fires:
  assumes ops: "callbacks_ok cpus i ops" and cpu: "cpu \<in> set cpus"
    and "timers_inv cpus {} s" and "active_cpu (flags s i) = None" and "r = None \<or> (\<exists>d\<le>ZX_TIME_INFINITE. r = Some d)"
    and "TimerQueue_Tick fuel (\<lambda>i now. fold (apply_op cpus) (ops i)) (sched_tick r) now cpu s = Some (fired, s')"
  shows "active_cpu (flags s' i) = None \<and> (armed cpus i s' \<longleftrightarrow> armed cpus i s \<and> i \<notin> set fired) \<and>
    (i \<in> set fired \<longrightarrow> armed cpus i s) \<and> timers_inv cpus {} s'"
proof -
  define q0 where "q0 = (queues s cpu)\<lparr>next_timer_deadline := ZX_TIME_INFINITE, platform_timer := None\<rparr>"
  define q1 where "q1 = (if now \<ge> preempt_timer_deadline q0
      then sched_tick r (q0\<lparr>preempt_timer_deadline := ZX_TIME_INFINITE\<rparr>) else q0)"
  have "queue_wf (queues s cpu)" using assms(2,3) by (simp add: timers_inv_def)
  then have "queue_wf q1" and list: "timer_list q1 = timer_list (queues s cpu)"
    by (auto simp: q1_def q0_def sched_tick_def PreemptReset_def UpdatePlatformTimer_def queue_wf_def split: option.splits)
  then have inv1: "timers_inv cpus {cpu} (set_queue cpu q1 s)" by (intro set_queue_inv [OF assms(3)]) auto
  obtain s1 q where tick: "TickInternal fuel (\<lambda>i now. fold (apply_op cpus) (ops i)) now cpu (set_queue cpu q1 s) = Some (fired, s1)"
    and s': "s' = set_queue cpu q s1" "timer_list q = timer_list (queues s1 cpu)"
    using assms(6) unfolding TimerQueue_Tick_def q0_def [symmetric] Let_def q1_def [symmetric]
    by (auto split: option.splits)
  have "active_cpu (flags (set_queue cpu q1 s) i) = None" using assms(4) by simp
  note fires = TickInternal_fires [OF ops cpu inv1 this tick]
  have "timers_inv cpus {} s'"
    using TimerQueue_Tick_inv [OF assms(3) _ cpu assms(5,6)] ops by (auto simp: callbacks_ok_def)
  moreover have "same_for cpus i s1 s'" using same_for_queue s' by blast
  moreover have "same_for cpus i s (set_queue cpu q1 s)" using same_for_queue list by blast
  ultimately show ?thesis using fires by (auto simp: same_for_def)
qed

section \<open>Every operation keeps the invariant\<close>

lemma to_update_state_fields [simp]:
  "to_options (to_update_state c s t) = to_options t" "to_deadline (to_update_state c s t) = to_deadline t"
  "to_slack (to_update_state c s t) = to_slack t" "cancel_pending (to_update_state c s t) = cancel_pending t"
  "dpc_queued (to_update_state c s t) = dpc_queued t" "extra_refs (to_update_state c s t) = extra_refs t"
  by (simp_all add: to_update_state_def)

lemma to_update_state_signal [simp]:
  "bit (signals (to_disp (to_update_state c s t))) 3 \<longleftrightarrow> (bit (signals (to_disp t)) 3 \<and> \<not> bit c 3) \<or> bit s 3"
  by (simp add: to_update_state_def update_state_signals bit_clear_set)

lemma int64_zero: "int64 0"
  by (simp add: int64_def time_limits)

lemma SetTimerLocked_effect:
  assumes "to_options t \<in> {ZX_TIMER_SLACK_CENTER, ZX_TIMER_SLACK_EARLY, ZX_TIMER_SLACK_LATE}"
    and "int64 (to_deadline t)" "int64 (to_slack t)" "0 \<le> to_slack t"
    and "active_cpu (flags ts i) = None" and "timers_inv cpus {} ts" and "cpu \<in> set cpus" and "cancel_first \<or> \<not> armed cpus i ts"
  obtains ts' where "SetTimerLocked cpus cpu i cancel_first (t, ts) = Some (t, ts')" "armed cpus i ts'"
    "active_cpu (flags ts' i) = None" "timers_inv cpus {} ts'"
proof -
  obtain b w ts0 where c: "Timer_Cancel cpus cpu i ts = (b, w, ts0)" by (metis prod_cases3)
  let ?ts1 = "if cancel_first then ts0 else ts"
  have ts1: "\<not> armed cpus i ?ts1" "active_cpu (flags ?ts1 i) = None" "timers_inv cpus {} ?ts1"
    using Timer_Cancel_effect [OF assms(5,7,6) c] assms(5,6,8) by auto
  have opt: "to_options t = ZX_TIMER_SLACK_CENTER \<or> to_options t = ZX_TIMER_SLACK_EARLY \<or> to_options t = ZX_TIMER_SLACK_LATE"
    using assms(1) by auto
  then obtain m where m: "(if to_options t = ZX_TIMER_SLACK_CENTER then Some TIMER_SLACK_CENTER
                 else if to_options t = ZX_TIMER_SLACK_EARLY then Some TIMER_SLACK_EARLY
                 else if to_options t = ZX_TIMER_SLACK_LATE then Some TIMER_SLACK_LATE else None) = Some m"
    by (auto simp: ZX_TIMER_SLACK_CENTER_def ZX_TIMER_SLACK_EARLY_def ZX_TIMER_SLACK_LATE_def)
  let ?dl = "\<lparr>dl_when = to_deadline t, dl_slack = \<lparr>ts_amount = to_slack t, ts_mode = m\<rparr>\<rparr>"
  have "valid_deadline ?dl" using assms(2-4) by (simp add: valid_deadline_def)
  then obtain ts' where "Timer_Set cpus cpu i ?dl ?ts1 = Some ts'"
    "armed cpus i ts'" "active_cpu (flags ts' i) = None" "timers_inv cpus {} ts'"
    using Timer_Set_effect [OF ts1(2) assms(7) ts1(1) _ ts1(3)] by blast
  then show thesis using that m c by (cases cancel_first) (simp_all add: SetTimerLocked_def)
qed

lemma CancelTimerLocked_effect:
  assumes "timer_inv cpus i (t, ts)" and "cpu \<in> set cpus"
  obtains did t' ts' where "CancelTimerLocked cpus cpu i (t, ts) = Some (did, t', ts')"
    "timer_inv cpus i (t', ts')" "to_deadline t' = 0" "\<not> bit (signals (to_disp t')) 3"
proof -
  obtain b w ts0 where c: "Timer_Cancel cpus cpu i ts = (b, w, ts0)" by (metis prod_cases3)
  have "active_cpu (flags ts i) = None" "timers_inv cpus {} ts" using assms(1) by (simp_all add: timer_inv_def)
  note e = Timer_Cancel_effect [OF this(1) assms(2) this(2) c]
  have "\<exists>did t' ts'. CancelTimerLocked cpus cpu i (t, ts) = Some (did, t', ts') \<and>
    timer_inv cpus i (t', ts') \<and> to_deadline t' = 0 \<and> \<not> bit (signals (to_disp t')) 3"
    using assms(1) e c
    by (cases "to_deadline t = 0"; cases "cancel_pending t"; cases "armed cpus i ts")
      (auto simp: CancelTimerLocked_def timer_inv_def Let_def bit_object_signals int64_zero)
  then show thesis using that by blast
qed

lemma Set_effect:
  assumes "timer_inv cpus i (t, ts)" and "cpu \<in> set cpus" and "int64 deadline" "int64 slack" "0 \<le> slack"
  obtains t' ts' where "TimerDispatcher_Set cpus cpu i now deadline slack (t, ts) = Some (ZX_OK, t', ts')"
    "timer_inv cpus i (t', ts')"
    "to_deadline t' = (if deadline = 0 \<or> deadline \<le> now then 0 else deadline)"
    "bit (signals (to_disp t')) 3 \<longleftrightarrow> deadline = 0 \<or> deadline \<le> now"
proof -
  obtain did t1 ts1 where c: "CancelTimerLocked cpus cpu i (t, ts) = Some (did, t1, ts1)"
    and inv: "timer_inv cpus i (t1, ts1)" and d: "to_deadline t1 = 0" "\<not> bit (signals (to_disp t1)) 3"
    using CancelTimerLocked_effect [OF assms(1,2)] by blast
  show thesis
  proof (cases "deadline = 0 \<or> deadline \<le> now")
    case True
    have "timer_inv cpus i (to_update_state 0 ZX_OBJECT_SIGNALED t1, ts1)"
      using inv d by (auto simp: timer_inv_def)
    with True c d show thesis by (intro that [of "to_update_state 0 ZX_OBJECT_SIGNALED t1" ts1]) (auto simp: TimerDispatcher_Set_def bit_object_signals)
  next
    case False
    let ?t = "t1\<lparr>to_deadline := deadline, to_slack := slack\<rparr>"
    show thesis
    proof (cases "cancel_pending t1")
      case True
      have "timer_inv cpus i (?t, ts1)" using True inv d assms by (auto simp: timer_inv_def)
      with True False c d show thesis by (intro that [of ?t ts1]) (auto simp: TimerDispatcher_Set_def)
    next
      case pending: False
      let ?t' = "?t\<lparr>extra_refs := extra_refs t1 + 1\<rparr>"
      have no: "\<not> armed cpus i ts1" "\<not> dpc_queued t1" using inv d pending by (auto simp: timer_inv_def)
      obtain ts2 where s: "SetTimerLocked cpus cpu i (\<not> did) (?t', ts1) = Some (?t', ts2)" "armed cpus i ts2"
        "active_cpu (flags ts2 i) = None" "timers_inv cpus {} ts2"
        by (rule SetTimerLocked_effect [of ?t' ts1 i cpus cpu "\<not> did"])
          (use inv assms no in \<open>auto simp: timer_inv_def\<close>)
      have "timer_inv cpus i (?t', ts2)" using s no inv assms(3-5) d pending False by (auto simp: timer_inv_def)
      with s False c d pending show thesis by (intro that [of ?t' ts2]) (auto simp: TimerDispatcher_Set_def Let_def)
    qed
  qed
qed

lemma dpc_effect:
  assumes "timer_inv cpus i (t, ts)" and "cpu \<in> set cpus" and "dpc_queued t"
  obtains t' ts' where "dpc_callback cpus cpu i (t, ts) = Some (t', ts')" "timer_inv cpus i (t', ts')"
    "bit (signals (to_disp t')) 3 \<longleftrightarrow> \<not> cancel_pending t \<or> bit (signals (to_disp t)) 3"
    "to_deadline t' = (if cancel_pending t then to_deadline t else 0)"
proof (cases "cancel_pending t \<and> to_deadline t \<noteq> 0")
  case True
  let ?t = "t\<lparr>dpc_queued := False, cancel_pending := False\<rparr>"
  obtain ts2 where s: "SetTimerLocked cpus cpu i True (?t, ts) = Some (?t, ts2)" "armed cpus i ts2"
    "active_cpu (flags ts2 i) = None" "timers_inv cpus {} ts2"
    by (rule SetTimerLocked_effect [of ?t ts i cpus cpu True]) (use assms in \<open>auto simp: timer_inv_def\<close>)
  have "timer_inv cpus i (?t, ts2)" using s True assms by (auto simp: timer_inv_def)
  with s True show thesis by (intro that [of ?t ts2]) (auto simp: dpc_callback_def OnTimerFired_def)
next
  case False
  have no: "\<not> armed cpus i ts" and refs: "extra_refs t = 1" using assms by (auto simp: timer_inv_def)
  show thesis
  proof (cases "cancel_pending t")
    case True
    let ?t = "t\<lparr>dpc_queued := False, cancel_pending := False, extra_refs := 0\<rparr>"
    have "timer_inv cpus i (?t, ts)" using no True False assms by (auto simp: timer_inv_def)
    with True False refs show thesis by (intro that [of ?t ts]) (auto simp: dpc_callback_def OnTimerFired_def)
  next
    case pending: False
    let ?t = "(to_update_state 0 ZX_OBJECT_SIGNALED (t\<lparr>dpc_queued := False\<rparr>))\<lparr>to_deadline := 0, to_slack := 0, extra_refs := 0\<rparr>"
    have "timer_inv cpus i (?t, ts)" using no pending assms by (auto simp: timer_inv_def int64_zero)
    with pending False refs show thesis
      by (intro that [of ?t ts]) (auto simp: dpc_callback_def OnTimerFired_def Let_def bit_object_signals)
  qed
qed

lemma zero_handles_effect:
  assumes "timer_inv cpus i (t, ts)" and "cpu \<in> set cpus"
  obtains t' ts' where "Timer_on_zero_handles cpus cpu i (t, ts) = Some (t', ts')" "timer_inv cpus i (t', ts')"
    "to_deadline t' = 0" "\<not> armed cpus i ts'" "\<not> bit (signals (to_disp t')) 3"
proof -
  obtain did t1 ts1 where c: "CancelTimerLocked cpus cpu i (t, ts) = Some (did, t1, ts1)"
    and inv: "timer_inv cpus i (t1, ts1)" and d: "to_deadline t1 = 0" "\<not> bit (signals (to_disp t1)) 3"
    using CancelTimerLocked_effect [OF assms] by blast
  obtain b w ts2 where k: "Timer_Cancel cpus cpu i ts1 = (b, w, ts2)" by (metis prod_cases3)
  have no: "\<not> armed cpus i ts1" "active_cpu (flags ts1 i) = None" "timers_inv cpus {} ts1"
    using inv d by (auto simp: timer_inv_def)
  have "timer_inv cpus i (t1, ts2)" "\<not> armed cpus i ts2"
    using Timer_Cancel_effect [OF no(2) assms(2) no(3) k] inv no by (auto simp: timer_inv_def)
  with c k inv d no show thesis by (cases did) (auto intro!: that simp: Timer_on_zero_handles_def)
qed

section \<open>Interleavings\<close>

text \<open>
  Every operation holds the lock of the object. An interrupt that finds this timer due queues
  the deferred call before a waiting \<open>Cancel\<close> on another CPU goes on, so each step is atomic;
  the deferred call runs at any time after it was queued. The other timers of the system are set,
  cancelled and moved between CPUs at any time.
\<close>

datatype timer_event = EvSet | EvCancel | EvZeroHandles | EvFire | EvDpc | EvOther

inductive timer_step :: "nat list \<Rightarrow> nat \<Rightarrow> timer_event \<Rightarrow> timer_state \<Rightarrow> timer_state \<Rightarrow> bool" for cpus i where
  step_Set: "cpu \<in> set cpus \<Longrightarrow> int64 deadline \<Longrightarrow> int64 slack \<Longrightarrow> 0 \<le> slack \<Longrightarrow>
    TimerDispatcher_Set cpus cpu i now deadline slack st = Some (r, st') \<Longrightarrow> timer_step cpus i EvSet st st'"
| step_Cancel: "cpu \<in> set cpus \<Longrightarrow>
    TimerDispatcher_Cancel cpus cpu i st = Some (r, st') \<Longrightarrow> timer_step cpus i EvCancel st st'"
| step_zero_handles: "cpu \<in> set cpus \<Longrightarrow>
    Timer_on_zero_handles cpus cpu i st = Some st' \<Longrightarrow> timer_step cpus i EvZeroHandles st st'"
| step_irq: "cpu \<in> set cpus \<Longrightarrow> callbacks_ok cpus i ops \<Longrightarrow> r = None \<or> (\<exists>d\<le>ZX_TIME_INFINITE. r = Some d) \<Longrightarrow>
    TimerQueue_Tick fuel (\<lambda>i now. fold (apply_op cpus) (ops i)) (sched_tick r) now cpu ts = Some (fired, ts') \<Longrightarrow>
    timer_step cpus i (if i \<in> set fired then EvFire else EvOther) (t, ts)
      (if i \<in> set fired then timer_irq_callback t else t, ts')"
| step_dpc: "cpu \<in> set cpus \<Longrightarrow> dpc_queued t \<Longrightarrow>
    dpc_callback cpus cpu i (t, ts) = Some st' \<Longrightarrow> timer_step cpus i EvDpc (t, ts) st'"
| step_other: "op_valid cpus op \<Longrightarrow> other_timer i op \<Longrightarrow> timer_step cpus i EvOther (t, ts) (t, apply_op cpus op ts)"
| step_off_cpu: "c \<in> set cpus \<Longrightarrow> d \<in> set cpus \<Longrightarrow> c \<noteq> d \<Longrightarrow> TransitionOffCpu (queues ts c) (queues ts d) = (q, source) \<Longrightarrow>
    timer_step cpus i EvOther (t, ts) (t, set_queue c q (set_queue d source ts))"

inductive timer_steps :: "nat list \<Rightarrow> nat \<Rightarrow> timer_event list \<Rightarrow> timer_state \<Rightarrow> timer_state \<Rightarrow> bool" for cpus i where
  steps_Nil: "timer_steps cpus i [] st st"
| steps_snoc: "timer_steps cpus i evs st st' \<Longrightarrow> timer_step cpus i ev st' st'' \<Longrightarrow> timer_steps cpus i (evs @ [ev]) st st''"

definition timer_initial :: "nat list \<Rightarrow> nat \<Rightarrow> timer_state \<Rightarrow> bool" where
  "timer_initial cpus i = (\<lambda>(t, ts). (\<exists>k options. TimerDispatcher_Create True k options = Inr t) \<and>
     (timers_step cpus)\<^sup>*\<^sup>* timers_boot ts \<and> \<not> armed cpus i ts \<and> active_cpu (flags ts i) = None)"

definition signaled :: "timer_state \<Rightarrow> bool" where
  "signaled st \<longleftrightarrow> bit (signals (to_disp (fst st))) 3"

lemma timer_initial_inv: "timer_initial cpus i st \<Longrightarrow> timer_inv cpus i st"
  using timers_reachable_inv [of cpus "snd st"]
  by (auto simp: timer_initial_def timer_inv_def TimerDispatcher_Create_def Dispatcher_new_def int64_zero split: if_splits)

lemma off_cpu_armed:
  assumes inv: "timers_inv cpus {} s" and cd: "c \<in> set cpus" "d \<in> set cpus" "c \<noteq> d"
    and call: "TransitionOffCpu (queues s c) (queues s d) = (q, source)"
  shows "same_for cpus i s (set_queue c q (set_queue d source s))"
proof -
  have disj: "t_id ` set (timer_list (queues s d)) \<inter> t_id ` set (timer_list (queues s c)) = {}"
    using inv cd by (simp add: timers_inv_def ids_ok_def)
  have r: "timer_list source = [] \<and>
    t_id ` set (timer_list q) = t_id ` set (timer_list (queues s d)) \<union> t_id ` set (timer_list (queues s c))"
    using TransitionOffCpu_queue [OF _ _ _ _ disj call] inv cd by (auto simp: timers_inv_def ids_ok_def)
  have "armed cpus i s \<longleftrightarrow> i \<in> t_id ` set (timer_list (queues s c)) \<or> i \<in> t_id ` set (timer_list (queues s d)) \<or>
      (\<exists>x\<in>set cpus - {c, d}. i \<in> t_id ` set (timer_list (queues s x)))"
    using cd unfolding InContainer_def queued_on_def by (metis Diff_iff insert_iff singletonD)
  moreover have "armed cpus i (set_queue c q (set_queue d source s)) \<longleftrightarrow> i \<in> t_id ` set (timer_list q) \<or>
      (\<exists>x\<in>set cpus - {c, d}. i \<in> t_id ` set (timer_list (queues s x)))"
    using cd r unfolding armed_at [OF cd(1)] by (auto simp: set_queue_def)
  ultimately show ?thesis using r unfolding same_for_def by (auto simp: set_queue_def)
qed

lemma same_for_timer_inv:
  "timer_inv cpus i (t, ts) \<Longrightarrow> same_for cpus i ts ts' \<Longrightarrow> timers_inv cpus {} ts' \<Longrightarrow> timer_inv cpus i (t, ts')"
  by (simp add: timer_inv_def same_for_def)

lemma fire_inv:
  assumes "timer_inv cpus i (t, ts)" and "active_cpu (flags ts' i) = None" and "timers_inv cpus {} ts'"
    and "armed cpus i ts' \<longleftrightarrow> armed cpus i ts \<and> \<not> f" and "f \<longrightarrow> armed cpus i ts"
  shows "timer_inv cpus i (if f then timer_irq_callback t else t, ts')"
  using assms by (cases f) (auto simp: timer_inv_def timer_irq_callback_def)

lemma Set_D:
  assumes "TimerDispatcher_Set cpus cpu i now deadline slack st = Some (r, st')" and "timer_inv cpus i st"
    and "cpu \<in> set cpus" and "int64 deadline" "int64 slack" "0 \<le> slack"
  shows "timer_inv cpus i st' \<and> (signaled st' \<longleftrightarrow> deadline = 0 \<or> deadline \<le> now) \<and>
    to_deadline (fst st') = (if deadline = 0 \<or> deadline \<le> now then 0 else deadline)"
proof -
  have inv: "timer_inv cpus i (fst st, snd st)" using assms(2) by simp
  show ?thesis
    by (rule Set_effect [OF inv assms(3-6), of now]) (use assms(1) in \<open>auto simp: signaled_def\<close>)
qed

lemma Cancel_D:
  assumes "TimerDispatcher_Cancel cpus cpu i st = Some (r, st')" and "timer_inv cpus i st" and "cpu \<in> set cpus"
  shows "timer_inv cpus i st' \<and> \<not> signaled st' \<and> to_deadline (fst st') = 0"
proof -
  have inv: "timer_inv cpus i (fst st, snd st)" using assms(2) by simp
  show ?thesis
    by (rule CancelTimerLocked_effect [OF inv assms(3)])
      (use assms(1) in \<open>auto simp: signaled_def TimerDispatcher_Cancel_def\<close>)
qed

lemma zero_handles_D:
  assumes "Timer_on_zero_handles cpus cpu i st = Some st'" and "timer_inv cpus i st" and "cpu \<in> set cpus"
  shows "timer_inv cpus i st' \<and> \<not> signaled st' \<and> to_deadline (fst st') = 0"
proof -
  have inv: "timer_inv cpus i (fst st, snd st)" using assms(2) by simp
  show ?thesis
    by (rule zero_handles_effect [OF inv assms(3)]) (use assms(1) in \<open>auto simp: signaled_def\<close>)
qed

lemma dpc_D:
  assumes "dpc_callback cpus cpu i (t, ts) = Some st'" and "timer_inv cpus i (t, ts)" and "cpu \<in> set cpus" and "dpc_queued t"
  shows "timer_inv cpus i st' \<and> (signaled st' \<longleftrightarrow> \<not> cancel_pending t \<or> signaled (t, ts)) \<and>
    to_deadline (fst st') = (if cancel_pending t then to_deadline t else 0)"
  by (rule dpc_effect [OF assms(2-4)]) (use assms(1) in \<open>auto simp: signaled_def\<close>)

lemma dpc_clears: "dpc_callback cpus cpu i (t, ts) = Some st' \<Longrightarrow> \<not> dpc_queued (fst st')"
  by (auto simp: dpc_callback_def OnTimerFired_def SetTimerLocked_def Let_def split: if_splits option.splits)

lemmas timer_ops_D = Set_D Cancel_D zero_handles_D dpc_D

lemma timer_step_inv: "timer_step cpus i ev st st' \<Longrightarrow> timer_inv cpus i st \<Longrightarrow> timer_inv cpus i st'"
proof (induction rule: timer_step.induct)
  case (step_Set cpu deadline slack now st r st')
  then show ?case using Set_D by blast
next
  case (step_Cancel cpu st r st')
  then show ?case using Cancel_D by blast
next
  case (step_zero_handles cpu st st')
  then show ?case using zero_handles_D by blast
next
  case (step_irq cpu ops r fuel now ts fired ts' t)
  have "timers_inv cpus {} ts" "active_cpu (flags ts i) = None"
    using step_irq.prems by (simp_all add: timer_inv_def)
  from TimerQueue_Tick_fires [OF step_irq.hyps(2,1) this step_irq.hyps(3,4)]
  show ?case by (intro fire_inv [OF step_irq.prems]) auto
next
  case (step_dpc cpu t ts st')
  then show ?case using dpc_D by blast
next
  case (step_other op t ts)
  then have "timers_inv cpus {} (apply_op cpus op ts)" by (simp add: timer_inv_def apply_op_inv)
  then show ?case using step_other same_for_timer_inv [OF _ apply_op_other] by blast
next
  case (step_off_cpu c d ts q source t)
  then have inv: "timers_inv cpus {} ts" by (simp add: timer_inv_def)
  from step_off_cpu TransitionOffCpu_inv [OF inv] off_cpu_armed [OF inv] same_for_timer_inv show ?case by blast
qed

lemma timer_steps_inv: "timer_steps cpus i evs st st' \<Longrightarrow> timer_inv cpus i st \<Longrightarrow> timer_inv cpus i st'"
  by (induction rule: timer_steps.induct) (auto dest: timer_step_inv)

text \<open>Nothing but \<open>Set\<close> gives a timer a deadline, and nothing signals a timer without one.\<close>

lemma idle_step:
  assumes "timer_step cpus i ev st st'" and "ev \<noteq> EvSet" and "timer_inv cpus i st"
    and "to_deadline (fst st) = 0" and "\<not> signaled st"
  shows "to_deadline (fst st') = 0 \<and> \<not> signaled st'"
  using assms
proof (induction rule: timer_step.induct)
  case (step_Cancel cpu st r st')
  then show ?case using Cancel_D by blast
next
  case (step_zero_handles cpu st st')
  then show ?case using zero_handles_D by blast
next
  case (step_dpc cpu t ts st')
  then have "cancel_pending t" by (auto simp: timer_inv_def)
  then show ?case using step_dpc dpc_D by fastforce
qed (auto simp: signaled_def timer_irq_callback_def)

text \<open>A call that was queued before the last \<open>Set\<close> is marked as cancelled until it has run.\<close>

lemma idle_pending:
  "timer_inv cpus i st \<Longrightarrow> to_deadline (fst st) = 0 \<Longrightarrow> dpc_queued (fst st) \<longrightarrow> cancel_pending (fst st)"
  by (cases st) (simp add: timer_inv_def)

lemma pending_step:
  assumes "timer_step cpus i ev st st'" and "ev \<noteq> EvSet" "ev \<noteq> EvFire" and "timer_inv cpus i st"
    and "dpc_queued (fst st) \<longrightarrow> cancel_pending (fst st)" and "\<not> signaled st"
  shows "(dpc_queued (fst st') \<longrightarrow> cancel_pending (fst st')) \<and> \<not> signaled st'"
  using assms
proof (induction rule: timer_step.induct)
  case (step_Cancel cpu st r st')
  then show ?case using Cancel_D idle_pending by blast
next
  case (step_zero_handles cpu st st')
  then show ?case using zero_handles_D idle_pending by blast
next
  case (step_dpc cpu t ts st')
  then have "cancel_pending t" "\<not> signaled (t, ts)" "timer_inv cpus i (t, ts)" by simp_all
  then show ?case using dpc_D [OF step_dpc(3) _ step_dpc(1,2)] dpc_clears [OF step_dpc(3)] by blast
qed (simp_all add: signaled_def split: if_splits)

section \<open>Properties\<close>

lemma idle_steps:
  assumes "timer_steps cpus i evs st st'" and "EvSet \<notin> set evs" and "timer_inv cpus i st"
    and "to_deadline (fst st) = 0" and "\<not> signaled st"
  shows "to_deadline (fst st') = 0 \<and> \<not> signaled st'"
  using assms
proof (induction rule: timer_steps.induct)
  case (steps_snoc evs st st' ev st'')
  then have "timer_inv cpus i st'" using timer_steps_inv by blast
  with steps_snoc show ?case using idle_step [of cpus i ev st' st''] by auto
qed simp

lemma pending_steps:
  assumes "timer_steps cpus i evs st st'" and "EvSet \<notin> set evs" "EvFire \<notin> set evs" and "timer_inv cpus i st"
    and "dpc_queued (fst st) \<longrightarrow> cancel_pending (fst st)" and "\<not> signaled st"
  shows "(dpc_queued (fst st') \<longrightarrow> cancel_pending (fst st')) \<and> \<not> signaled st'"
  using assms
proof (induction rule: timer_steps.induct)
  case (steps_snoc evs st st' ev st'')
  then have "timer_inv cpus i st'" using timer_steps_inv by blast
  with steps_snoc show ?case using pending_step [of cpus i ev st' st''] by auto
qed simp

lemma Set_pending:
  assumes "TimerDispatcher_Set cpus cpu i now deadline slack st = Some (r, st')" and "timer_inv cpus i st" and "cpu \<in> set cpus"
  shows "dpc_queued (fst st') \<longrightarrow> cancel_pending (fst st')"
proof -
  have inv: "timer_inv cpus i (fst st, snd st)" using assms(2) by simp
  obtain did t1 ts1 where c: "CancelTimerLocked cpus cpu i (fst st, snd st) = Some (did, t1, ts1)"
    and "timer_inv cpus i (t1, ts1)" "to_deadline t1 = 0" using CancelTimerLocked_effect [OF inv assms(3)] by metis
  then have "dpc_queued t1 \<longrightarrow> cancel_pending t1" using idle_pending [of cpus i "(t1, ts1)"] by simp
  with c assms(1) show ?thesis
    by (auto simp: TimerDispatcher_Set_def SetTimerLocked_def Let_def split: if_splits option.splits)
qed

text \<open>
  C7. A timer object never panics and never loses a deadline. Whatever the interleaving of
  calls, interrupts and deferred calls since it was created, on any CPUs and among any other
  timers: setting, cancelling and closing it succeed, as does a deferred call that is queued; a
  deadline that is set is waited for by exactly one of the kernel timer and a queued call; and
  one reference is held on behalf of them, if and only if there is one.
\<close>

theorem timer_object_sound:
  assumes "timer_initial cpus i st0" and "timer_steps cpus i evs st0 (t, ts)" and "cpu \<in> set cpus"
    and "int64 deadline" and "int64 slack" and "0 \<le> slack"
  shows "(\<exists>st. TimerDispatcher_Set cpus cpu i now deadline slack (t, ts) = Some (ZX_OK, st)) \<and>
    (\<exists>st. TimerDispatcher_Cancel cpus cpu i (t, ts) = Some (ZX_OK, st)) \<and>
    (\<exists>st. Timer_on_zero_handles cpus cpu i (t, ts) = Some st) \<and>
    (dpc_queued t \<longrightarrow> (\<exists>st. dpc_callback cpus cpu i (t, ts) = Some st)) \<and>
    (to_deadline t \<noteq> 0 \<longrightarrow> InContainer cpus i ts \<or> dpc_queued t) \<and>
    \<not> (InContainer cpus i ts \<and> dpc_queued t) \<and>
    extra_refs t = (if InContainer cpus i ts \<or> dpc_queued t then 1 else 0)"
proof -
  have inv: "timer_inv cpus i (t, ts)" using timer_steps_inv [OF assms(2)] timer_initial_inv assms(1) by blast
  have "\<exists>st. TimerDispatcher_Set cpus cpu i now deadline slack (t, ts) = Some (ZX_OK, st)"
    using Set_effect [OF inv assms(3-6), of now] by metis
  moreover have "\<exists>st. TimerDispatcher_Cancel cpus cpu i (t, ts) = Some (ZX_OK, st)"
    using CancelTimerLocked_effect [OF inv assms(3)] unfolding TimerDispatcher_Cancel_def by fastforce
  moreover have "\<exists>st. Timer_on_zero_handles cpus cpu i (t, ts) = Some st"
    using zero_handles_effect [OF inv assms(3)] by metis
  moreover have "dpc_queued t \<longrightarrow> (\<exists>st. dpc_callback cpus cpu i (t, ts) = Some st)"
    using dpc_effect [OF inv assms(3)] by metis
  moreover have "(to_deadline t \<noteq> 0 \<longrightarrow> InContainer cpus i ts \<or> dpc_queued t) \<and> \<not> (InContainer cpus i ts \<and> dpc_queued t) \<and>
      extra_refs t = (if InContainer cpus i ts \<or> dpc_queued t then 1 else 0)"
    using inv by (auto simp: timer_inv_def)
  ultimately show ?thesis by blast
qed

lemma initial_example: "timer_initial [0] 7 (\<lparr>to_disp = Dispatcher_new 1 True 0, to_options = 0, to_deadline = 0,
    to_slack = 0, cancel_pending = False, dpc_queued = False, extra_refs = 0\<rparr>, timers_boot)"
proof -
  have "TimerDispatcher_Create True 1 0 = Inr \<lparr>to_disp = Dispatcher_new 1 True 0, to_options = 0, to_deadline = 0,
      to_slack = 0, cancel_pending = False, dpc_queued = False, extra_refs = 0\<rparr>"
    by (simp add: TimerDispatcher_Create_def ZX_TIMER_SLACK_CENTER_def ZX_TIMER_SLACK_LATE_def)
  then show ?thesis
    by (auto simp: timer_initial_def timers_boot_def InContainer_def queued_on_def TimerQueue_new_def Timer_new_def)
qed

theorem timer_object_sound_witness:
  "\<exists>t ts st. timer_initial [0] 7 (t, ts) \<and> TimerDispatcher_Set [0] 0 7 10 50 5 (t, ts) = Some (ZX_OK, st)"
  using timer_object_sound [OF initial_example steps_Nil, of 0 50 5 10] initial_example
  by (auto simp: int64_def time_limits)

text \<open>
  C10. No stale signal. After \<open>Cancel\<close>, and after \<open>Set\<close> with a deadline in the future, the timer
  is not signaled, even if a deferred call of an earlier deadline is still queued: after
  \<open>Cancel\<close> it is never signaled again before the next \<open>Set\<close>, and after \<open>Set\<close> it is not signaled
  before an interrupt has found the new deadline due.
\<close>

theorem timer_no_stale_signal:
  assumes "timer_initial cpus i st0" and "timer_steps cpus i evs0 st0 st" and "cpu \<in> set cpus"
    and "timer_steps cpus i evs st' st''" and "EvSet \<notin> set evs"
    and "TimerDispatcher_Cancel cpus cpu i st = Some (r, st') \<or>
      (TimerDispatcher_Set cpus cpu i now deadline slack st = Some (r, st') \<and> 0 < deadline \<and> now < deadline \<and>
       int64 deadline \<and> int64 slack \<and> 0 \<le> slack \<and> EvFire \<notin> set evs)"
  shows "\<not> signaled st''"
proof -
  have inv: "timer_inv cpus i st" using timer_steps_inv [OF assms(2)] timer_initial_inv assms(1) by blast
  show ?thesis using assms(6)
  proof
    assume c: "TimerDispatcher_Cancel cpus cpu i st = Some (r, st')"
    from Cancel_D [OF c inv assms(3)] show ?thesis using idle_steps [OF assms(4,5)] by blast
  next
    assume s: "TimerDispatcher_Set cpus cpu i now deadline slack st = Some (r, st') \<and> 0 < deadline \<and> now < deadline \<and>
       int64 deadline \<and> int64 slack \<and> 0 \<le> slack \<and> EvFire \<notin> set evs"
    then have "timer_inv cpus i st' \<and> \<not> signaled st'" using Set_D [OF _ inv assms(3)] by fastforce
    moreover have "dpc_queued (fst st') \<longrightarrow> cancel_pending (fst st')" using Set_pending [OF _ inv assms(3)] s by blast
    ultimately show ?thesis using pending_steps [OF assms(4,5)] s by blast
  qed
qed

theorem timer_no_stale_signal_witness:
  "\<exists>t ts r st. timer_initial [0] 7 (t, ts) \<and> TimerDispatcher_Cancel [0] 0 7 (t, ts) = Some (r, st) \<and> \<not> signaled st"
proof -
  let ?t = "\<lparr>to_disp = Dispatcher_new 1 True 0, to_options = 0, to_deadline = 0,
    to_slack = 0, cancel_pending = False, dpc_queued = False, extra_refs = 0\<rparr>"
  have c: "TimerDispatcher_Cancel [0] 0 7 (?t, timers_boot) = Some (ZX_OK, to_update_state ZX_OBJECT_SIGNALED 0 ?t, timers_boot)"
    by (simp add: TimerDispatcher_Cancel_def CancelTimerLocked_def)
  have "\<not> signaled (to_update_state ZX_OBJECT_SIGNALED 0 ?t, timers_boot)"
    by (rule timer_no_stale_signal [OF initial_example steps_Nil _ steps_Nil]) (use c in auto)
  with c initial_example show ?thesis by blast
qed

end
