(* ===== verification/Handles.thy ===== *)
theory Handles
  imports Dispatcher
begin

text \<open>
  Handles (\<^verbatim>\<open>kernel/object/handle.cc\<close>) and the arena they live in
  (\<^verbatim>\<open>kernel/lib/fbl/include/fbl/gparena.h\<close>). A handle is a slot of the arena that names an object
  and rights; its base value is the index of the slot and a 12-bit generation, and survives in
  the slot when the handle is freed. Addresses are byte offsets from the start of the arena.
  What the virtual memory calls answer when the arena grows is an argument. The theory shows how
  handle values decode, when they repeat, and that the arena never hands out a slot in use.
\<close>

section \<open>Handle values\<close>

definition kHandleReservedBits :: nat where
  "kHandleReservedBits = 2"

definition kMaxHandleCount :: nat where
  "kMaxHandleCount = 256 * 1024"

text \<open>\<open>bit_width\<close> of the standard library, by its definition.\<close>

fun bit_width :: "nat \<Rightarrow> nat" where
  "bit_width v = (if v = 0 then 0 else Suc (bit_width (v div 2)))"

declare bit_width.simps [simp del]

definition log2_floor :: "nat \<Rightarrow> nat" where
  "log2_floor v = (if v = 0 then 0 else bit_width v - 1)"

definition kHandleIndexMask :: u32 where
  "kHandleIndexMask = of_nat kMaxHandleCount - 1"

definition kHandleReservedBitsMask :: u32 where
  "kHandleReservedBitsMask = push_bit (32 - kHandleReservedBits) (push_bit kHandleReservedBits 1 - 1)"

definition kHandleGenerationMask :: u32 where
  "kHandleGenerationMask = NOT kHandleIndexMask AND NOT kHandleReservedBitsMask"

definition kHandleGenerationShift :: nat where
  "kHandleGenerationShift = log2_floor kMaxHandleCount"

definition NewHandleValue :: "u32 \<Rightarrow> u32 \<Rightarrow> u32" where
  "NewHandleValue index old_value =
     (let old_gen = (if old_value \<noteq> 0
                     then drop_bit kHandleGenerationShift (old_value AND kHandleGenerationMask) else 0);
          new_gen = push_bit kHandleGenerationShift (old_gen + 1) AND kHandleGenerationMask
      in index OR new_gen)"

definition HandleValueToIndex :: "u32 \<Rightarrow> u32" where
  "HandleValueToIndex value = value AND kHandleIndexMask"

text \<open>The constants, and the compile-time checks of the source.\<close>

lemma handle_constants:
  "kHandleIndexMask = mask 18" "kHandleGenerationShift = 18" "kHandleReservedBitsMask = push_bit 30 (mask 2)"
  "kHandleGenerationMask = push_bit 18 (mask 12)"
  by (simp_all add: kHandleIndexMask_def kMaxHandleCount_def mask_eq_exp_minus_1 kHandleGenerationShift_def
      log2_floor_def bit_width.simps kHandleReservedBitsMask_def kHandleReservedBits_def kHandleGenerationMask_def)

lemma handle_masks_cover:
  "kHandleReservedBitsMask AND kHandleGenerationMask = 0" "kHandleReservedBitsMask AND kHandleIndexMask = 0"
  "kHandleGenerationMask AND kHandleIndexMask = 0"
  "kHandleReservedBitsMask OR kHandleGenerationMask OR kHandleIndexMask = 0xffffffff"
  by (simp_all add: handle_constants mask_eq_exp_minus_1)

definition value_gen :: "u32 \<Rightarrow> u32" where
  "value_gen v = drop_bit 18 v AND mask 12"

definition value_ok :: "u32 \<Rightarrow> u32 \<Rightarrow> bool" where
  "value_ok index v \<longleftrightarrow> v AND kHandleIndexMask = index \<and> v AND kHandleReservedBitsMask = 0"

lemma bit_value_gen: "bit (value_gen v) n \<longleftrightarrow> n < 12 \<and> bit v (18 + n)"
  by (auto simp: value_gen_def bit_simps)

lemma NewHandleValue_alt: "NewHandleValue index v = index OR push_bit 18 ((value_gen v + 1) AND mask 12)"
proof -
  have "drop_bit 18 (v AND push_bit 18 (mask 12)) = value_gen v"
    by (rule bit_eqI) (auto simp: bit_value_gen bit_simps)
  moreover have "push_bit 18 x AND push_bit 18 (mask 12) = push_bit 18 (x AND mask 12)" for x :: u32 by simp
  moreover have "value_gen 0 = 0" by (simp add: value_gen_def)
  ultimately show ?thesis by (simp add: NewHandleValue_def handle_constants Let_def)
qed

lemma index_bits: "index AND NOT kHandleIndexMask = 0 \<Longrightarrow> bit index n \<Longrightarrow> n < 18"
  using bit_imp_le_length [of index n] by (auto simp: handle_constants and_disjoint_iff bit_simps)

lemma NewHandleValue_ok:
  assumes "index AND NOT kHandleIndexMask = 0" shows "value_ok index (NewHandleValue index v)"
proof -
  have low: "n < 18" if "bit index n" for n using index_bits [OF assms that] .
  have "(index OR push_bit 18 (x AND mask 12)) AND mask 18 = index" for x :: u32
    using low by (intro bit_eqI) (auto simp: bit_simps)
  moreover have "(index OR push_bit 18 (x AND mask 12)) AND push_bit 30 (mask 2) = 0" for x :: u32
    using low by (intro bit_eqI) (fastforce simp: bit_simps)
  ultimately show ?thesis by (simp add: value_ok_def NewHandleValue_alt handle_constants)
qed

lemma NewHandleValue_gen:
  assumes "index AND NOT kHandleIndexMask = 0"
  shows "value_gen (NewHandleValue index v) = (value_gen v + 1) AND mask 12"
proof -
  have low: "n < 18" if "bit index n" for n using index_bits [OF assms that] .
  show ?thesis unfolding NewHandleValue_alt
    using low by (intro bit_eqI) (fastforce simp: bit_value_gen bit_simps)
qed

lemma reserved_bits: "value_ok i v \<Longrightarrow> 30 \<le> n \<Longrightarrow> \<not> bit v n"
proof
  assume v: "value_ok i v" and n: "30 \<le> n" "bit v n"
  then have "n < 32" using bit_imp_le_length [of v n] by simp
  then have "bit (v AND push_bit 30 (mask 2)) n" using n by (simp add: bit_simps) arith
  then show False using v by (simp add: value_ok_def handle_constants)
qed

lemma value_eqI:
  assumes "value_ok i v" "value_ok i w" "value_gen v = value_gen w" shows "v = w"
proof (rule bit_word_eqI)
  fix n :: nat assume "n < LENGTH(32)"
  then have n: "n < 32" by simp
  have idx: "bit v n = bit w n" if "n < 18"
  proof -
    have "bit (v AND mask 18) n = bit (w AND mask 18) n" using assms(1,2) by (simp add: value_ok_def handle_constants)
    then show ?thesis using that n by (simp add: bit_simps)
  qed
  have top: "\<not> bit v n" "\<not> bit w n" if "30 \<le> n"
    using reserved_bits assms(1,2) that by blast+
  have gen: "bit v n = bit w n" if "18 \<le> n" "n < 30"
    using bit_value_gen [of v "n - 18"] bit_value_gen [of w "n - 18"] assms(3) that by auto
  show "bit v n = bit w n" using idx top gen by (metis not_le)
qed

text \<open>The generation counts the uses of the slot modulo 4096.\<close>

lemma value_gen_less: "unat (value_gen v) < 4096"
proof -
  have "value_gen v = take_bit 12 (drop_bit 18 v)" by (simp add: value_gen_def take_bit_eq_mask)
  then show ?thesis using take_bit_nat_less_exp [of 12] by (simp add: unsigned_take_bit_eq)
qed

lemma unat_gen_step: "unat ((value_gen v + 1) AND mask 12) = (unat (value_gen v) + 1) mod 4096"
proof -
  have "unat (value_gen v + 1) = unat (value_gen v) + 1"
    using value_gen_less [of v] by (simp add: unat_word_ariths)
  then show ?thesis by (simp add: take_bit_eq_mask [symmetric] unsigned_take_bit_eq) (simp add: take_bit_eq_mod)
qed

lemma NewHandleValue_iterate:
  assumes "index AND NOT kHandleIndexMask = 0" and "value_ok index v"
  shows "value_ok index ((NewHandleValue index ^^ k) v) \<and>
    unat (value_gen ((NewHandleValue index ^^ k) v)) = (unat (value_gen v) + k) mod 4096"
proof (induction k)
  case 0
  then show ?case using assms value_gen_less [of v] by simp
next
  case (Suc k)
  then show ?case using assms NewHandleValue_ok NewHandleValue_gen by (simp add: unat_gen_step mod_Suc_eq)
qed

section \<open>The arena\<close>

definition PAGE_SIZE :: nat where
  "PAGE_SIZE = 4096"

text \<open>Rounding up, which the source does with a mask, for powers of two.\<close>

definition ROUNDUP :: "nat \<Rightarrow> nat \<Rightarrow> nat" where
  "ROUNDUP a b = (a + (b - 1)) div b * b"

record gparena =
  ga_top :: nat
  ga_committed :: nat
  ga_end :: nat
  ga_count :: nat
  free_list :: "nat list"

text \<open>
  \<open>Init\<close>: \<open>vmo_status\<close>, \<open>vmar_ok\<close> and \<open>map_status\<close> are the answers of the calls that create the
  memory object, reserve the addresses and map the one into the other.
\<close>

definition GPArena_Init :: "nat \<Rightarrow> bool \<Rightarrow> zx_status \<Rightarrow> bool \<Rightarrow> zx_status \<Rightarrow> nat \<Rightarrow> zx_status + gparena" where
  "GPArena_Init object_size initialized vmo_status vmar_ok map_status max_count =
     (if max_count = 0 then Inl ZX_ERR_INVALID_ARGS
      else if initialized then Inl ZX_ERR_BAD_STATE
      else if vmo_status \<noteq> ZX_OK then Inl vmo_status
      else if \<not> vmar_ok then Inl ZX_ERR_NO_MEMORY
      else if map_status \<noteq> ZX_OK then Inl map_status
      else Inr \<lparr>ga_top = 0, ga_committed = 0, ga_end = ROUNDUP (max_count * object_size) PAGE_SIZE,
                ga_count = 0, free_list = []\<rparr>)"

text \<open>The list of free slots, as the spinlock-protected implementation has it.\<close>

definition FreeList_Push :: "nat \<Rightarrow> gparena \<Rightarrow> gparena" where
  "FreeList_Push node a = a\<lparr>free_list := node # free_list a\<rparr>"

definition FreeList_Pop :: "gparena \<Rightarrow> nat option \<times> gparena" where
  "FreeList_Pop a = (case free_list a of [] \<Rightarrow> (None, a) | n # rest \<Rightarrow> (Some n, a\<lparr>free_list := rest\<rparr>))"

text \<open>\<open>vm_ok\<close> is whether committing and mapping the range succeeds.\<close>

definition Grow :: "bool \<Rightarrow> nat \<Rightarrow> gparena \<Rightarrow> bool \<times> gparena" where
  "Grow vm_ok next_top a =
     (if next_top > ga_committed a then
        let nc = ga_committed a + 4 * PAGE_SIZE;
            nc' = (if nc > ga_end a then ga_end a else nc)
        in if nc' = ga_committed a then (False, a)
           else if \<not> vm_ok then (False, a)
           else (True, a\<lparr>ga_committed := nc'\<rparr>)
      else (True, a))"

definition GPArena_Alloc :: "nat \<Rightarrow> bool \<Rightarrow> gparena \<Rightarrow> nat option \<times> gparena" where
  "GPArena_Alloc object_size vm_ok a =
     (case FreeList_Pop a of
        (Some node, a1) \<Rightarrow> (Some node, a1\<lparr>ga_count := ga_count a1 + 1\<rparr>)
      | (None, a1) \<Rightarrow>
          let next_top = ga_top a1 + object_size
          in case (if next_top > ga_committed a1 then Grow vm_ok next_top a1 else (True, a1)) of
               (False, a2) \<Rightarrow> (None, a2)
             | (True, a2) \<Rightarrow> (Some (ga_top a1), a2\<lparr>ga_top := next_top, ga_count := ga_count a2 + 1\<rparr>))"

definition GPArena_Free :: "nat \<Rightarrow> gparena \<Rightarrow> gparena" where
  "GPArena_Free node a = (let a1 = FreeList_Push node a in a1\<lparr>ga_count := ga_count a1 - 1\<rparr>)"

definition Committed :: "nat \<Rightarrow> gparena \<Rightarrow> bool" where
  "Committed node a \<longleftrightarrow> node < ga_top a"

definition Confine :: "nat \<Rightarrow> gparena \<Rightarrow> nat" where
  "Confine address a = (if address < ga_top a then address else 0)"

text \<open>
  The invariant of an arena of objects of the given size, and the slots in use. The contract of
  an allocator with persistent slots is stated as a locale: allocating gives a slot that is not
  in use, and freeing is the only way back.
\<close>

definition arena_wf :: "nat \<Rightarrow> gparena \<Rightarrow> bool" where
  "arena_wf sz a \<longleftrightarrow> 0 < sz \<and> sz \<le> PAGE_SIZE \<and> sz dvd ga_top a \<and> ga_top a \<le> ga_committed a \<and>
     ga_committed a \<le> ga_end a \<and> PAGE_SIZE dvd ga_committed a \<and> PAGE_SIZE dvd ga_end a \<and>
     distinct (free_list a) \<and> (\<forall>x\<in>set (free_list a). x < ga_top a \<and> sz dvd x) \<and>
     ga_count a + length (free_list a) = ga_top a div sz"

definition in_use :: "nat \<Rightarrow> gparena \<Rightarrow> nat \<Rightarrow> bool" where
  "in_use sz a x \<longleftrightarrow> x < ga_top a \<and> sz dvd x \<and> x \<notin> set (free_list a)"

locale persistent_slots =
  fixes wf :: "'a \<Rightarrow> bool" and used :: "'a \<Rightarrow> nat \<Rightarrow> bool" and seen :: "'a \<Rightarrow> nat \<Rightarrow> bool"
    and alloc :: "bool \<Rightarrow> 'a \<Rightarrow> nat option \<times> 'a" and free :: "nat \<Rightarrow> 'a \<Rightarrow> 'a"
  assumes used_seen: "wf a \<Longrightarrow> used a x \<Longrightarrow> seen a x"
    and alloc_some: "wf a \<Longrightarrow> alloc ok a = (Some x, a') \<Longrightarrow>
      wf a' \<and> \<not> used a x \<and> (\<forall>y. used a' y \<longleftrightarrow> used a y \<or> y = x) \<and> (\<forall>y. seen a' y \<longleftrightarrow> seen a y \<or> y = x)"
    and alloc_none: "wf a \<Longrightarrow> alloc ok a = (None, a') \<Longrightarrow> wf a' \<and> used a' = used a \<and> seen a' = seen a"
    and free_used: "wf a \<Longrightarrow> used a x \<Longrightarrow>
      wf (free x a) \<and> (\<forall>y. used (free x a) y \<longleftrightarrow> used a y \<and> y \<noteq> x) \<and> seen (free x a) = seen a"
begin

text \<open>A slot that has been handed out once stays known for ever.\<close>

lemma alloc_seen: "wf a \<Longrightarrow> alloc ok a = (r, a') \<Longrightarrow> seen a y \<Longrightarrow> seen a' y"
  by (cases r) (auto dest: alloc_some alloc_none)

lemma alloc_used: "wf a \<Longrightarrow> alloc ok a = (r, a') \<Longrightarrow> used a y \<Longrightarrow> used a' y"
  by (cases r) (auto dest: alloc_some alloc_none)

lemma alloc_fresh: "wf a \<Longrightarrow> alloc ok a = (Some x, a') \<Longrightarrow> used a y \<Longrightarrow> y \<noteq> x"
  using alloc_some by blast

end

lemma Grow_wf:
  assumes "Grow ok t a = (True, a')" and "arena_wf sz a" and "t = ga_top a + sz"
  shows "arena_wf sz (a'\<lparr>ga_top := t, ga_count := ga_count a' + 1\<rparr>)"
proof -
  have wf: "0 < sz" "sz \<le> PAGE_SIZE" "ga_top a \<le> ga_committed a" "ga_committed a \<le> ga_end a"
    "PAGE_SIZE dvd ga_committed a" "PAGE_SIZE dvd ga_end a" "sz dvd ga_top a" "ga_count a + length (free_list a) = ga_top a div sz"
    using assms(2) by (auto simp: arena_wf_def)
  have room: "ga_committed a + PAGE_SIZE \<le> ga_end a" if "ga_committed a \<noteq> ga_end a"
  proof -
    have "PAGE_SIZE dvd ga_end a - ga_committed a" using wf(5,6) by (simp add: dvd_diff_nat)
    moreover have "0 < ga_end a - ga_committed a" using that wf(4) by simp
    ultimately have "PAGE_SIZE \<le> ga_end a - ga_committed a" by (rule dvd_imp_le)
    then show ?thesis using wf(4) by simp
  qed
  have shape: "free_list a' = free_list a" "ga_end a' = ga_end a" "ga_count a' = ga_count a" "t \<le> ga_committed a'" "ga_committed a' \<le> ga_end a"
    "PAGE_SIZE dvd ga_committed a'"
    using assms(1,3) wf room by (auto simp: Grow_def Let_def PAGE_SIZE_def split: if_splits)
  have "Suc (ga_top a div sz) = t div sz" using wf(1) assms(3) by (simp add: div_add_self2)
  moreover have "distinct (free_list a)" "\<forall>x\<in>set (free_list a). x < t \<and> sz dvd x"
    using assms(2,3) by (auto simp: arena_wf_def)
  ultimately show ?thesis using shape wf assms(3) by (simp add: arena_wf_def)
qed

lemma Grow_failed: "Grow ok t a = (False, a') \<Longrightarrow> a' = a"
  by (auto simp: Grow_def Let_def split: if_splits)

lemma Alloc_grow:
  assumes "free_list a = []" and "arena_wf sz a" and "GPArena_Alloc sz ok a = (Some x, a')"
  shows "arena_wf sz a' \<and> x = ga_top a \<and> ga_top a' = ga_top a + sz \<and> free_list a' = []"
proof (cases "ga_top a + sz > ga_committed a")
  case True
  obtain b a2 where g: "Grow ok (ga_top a + sz) a = (b, a2)" by (cases "Grow ok (ga_top a + sz) a")
  with assms True have b: "b" by (auto simp: GPArena_Alloc_def FreeList_Pop_def Let_def split: bool.splits)
  have "free_list a2 = free_list a" "ga_top a2 = ga_top a"
    using g b by (auto simp: Grow_def Let_def split: if_splits)
  then show ?thesis using assms True g b Grow_wf [of ok "ga_top a + sz" a a2 sz]
    by (auto simp: GPArena_Alloc_def FreeList_Pop_def Let_def)
next
  case False
  have a': "x = ga_top a" "a' = a\<lparr>ga_top := ga_top a + sz, ga_count := ga_count a + 1\<rparr>"
    using assms(1,3) False by (auto simp: GPArena_Alloc_def FreeList_Pop_def)
  have "Suc (ga_top a div sz) = (ga_top a + sz) div sz" using assms(2) by (simp add: arena_wf_def div_add_self2)
  then have "arena_wf sz a'" using assms(1,2) False unfolding a' arena_wf_def by simp
  then show ?thesis using a' assms(1) by simp
qed

lemma arena_alloc_some:
  assumes "arena_wf sz a" and "GPArena_Alloc sz ok a = (Some x, a')"
  shows "arena_wf sz a' \<and> \<not> in_use sz a x \<and> (\<forall>y. in_use sz a' y \<longleftrightarrow> in_use sz a y \<or> y = x) \<and>
    (\<forall>y. (y < ga_top a' \<and> sz dvd y) \<longleftrightarrow> (y < ga_top a \<and> sz dvd y) \<or> y = x)"
proof (cases "free_list a")
  case (Cons n rest)
  with assms show ?thesis by (auto simp: GPArena_Alloc_def FreeList_Pop_def arena_wf_def in_use_def)
next
  case Nil
  from Alloc_grow [OF Nil assms] have a': "arena_wf sz a'" "x = ga_top a" "ga_top a' = ga_top a + sz" "free_list a' = []"
    by auto
  have sz: "0 < sz" "sz dvd ga_top a" using assms(1) by (auto simp: arena_wf_def)
  have range: "(y < ga_top a + sz \<and> sz dvd y) \<longleftrightarrow> (y < ga_top a \<and> sz dvd y) \<or> y = ga_top a" for y
  proof -
    have "y = ga_top a" if "ga_top a \<le> y" "y < ga_top a + sz" "sz dvd y"
    proof -
      have "sz dvd y - ga_top a" using that sz by (simp add: dvd_diff_nat)
      then have "y - ga_top a = 0" using nat_dvd_not_less [of "y - ga_top a" sz] that by linarith
      then show ?thesis using that by simp
    qed
    then show ?thesis using sz by (cases "ga_top a \<le> y") auto
  qed
  then show ?thesis using a' Nil by (auto simp: in_use_def)
qed

lemma arena_alloc_none:
  assumes "arena_wf sz a" and "GPArena_Alloc sz ok a = (None, a')" shows "a' = a"
  using assms
  by (auto simp: GPArena_Alloc_def FreeList_Pop_def Let_def Grow_failed split: list.splits if_splits prod.splits bool.splits)

lemma slot_index_less: "0 < sz \<Longrightarrow> sz dvd x \<Longrightarrow> sz dvd t \<Longrightarrow> x < t \<Longrightarrow> x div sz < t div sz" for x t sz :: nat
  by (auto simp: dvd_def)

lemma in_use_count:
  assumes "arena_wf sz a" "in_use sz a x" shows "0 < ga_count a"
proof (rule ccontr)
  assume "\<not> 0 < ga_count a"
  then have len: "length (free_list a) = ga_top a div sz" using assms(1) by (simp add: arena_wf_def)
  have sz: "0 < sz" using assms(1) by (simp add: arena_wf_def)
  have sub: "(\<lambda>y. y div sz) ` set (free_list a) \<subseteq> {..<ga_top a div sz} - {x div sz}"
  proof -
    have "y div sz < ga_top a div sz \<and> y div sz \<noteq> x div sz" if y: "y \<in> set (free_list a)" for y
    proof -
      have "y < ga_top a" "sz dvd y" "sz dvd ga_top a" "sz dvd x" "y \<noteq> x"
        using assms y by (auto simp: arena_wf_def in_use_def)
      then show ?thesis using slot_index_less sz by (metis dvd_div_mult_self)
    qed
    then show ?thesis by auto
  qed
  have inj: "inj_on (\<lambda>y. y div sz) (set (free_list a))"
  proof (rule inj_onI)
    fix y z assume "y \<in> set (free_list a)" "z \<in> set (free_list a)" and eq: "y div sz = z div sz"
    then have "sz dvd y" "sz dvd z" using assms(1) by (auto simp: arena_wf_def)
    then show "y = z" using eq by (metis dvd_div_mult_self)
  qed
  have "x div sz < ga_top a div sz"
    using assms sz by (auto simp: arena_wf_def in_use_def intro: slot_index_less)
  then have "card ({..<ga_top a div sz} - {x div sz}) < ga_top a div sz" by simp
  then have "card (set (free_list a)) < ga_top a div sz"
    using card_mono [OF _ sub] card_image [OF inj] by simp
  then show False using assms(1) len by (simp add: arena_wf_def distinct_card)
qed

lemma arena_free:
  assumes "arena_wf sz a" and "in_use sz a x"
  shows "arena_wf sz (GPArena_Free x a) \<and> (\<forall>y. in_use sz (GPArena_Free x a) y \<longleftrightarrow> in_use sz a y \<and> y \<noteq> x) \<and>
    ga_top (GPArena_Free x a) = ga_top a"
  using assms in_use_count [OF assms]
  by (auto simp: GPArena_Free_def FreeList_Push_def arena_wf_def in_use_def Let_def)

interpretation slots: persistent_slots "arena_wf sz" "in_use sz" "\<lambda>a y. y < ga_top a \<and> sz dvd y"
    "GPArena_Alloc sz" GPArena_Free for sz
proof
  show "arena_wf sz a \<Longrightarrow> in_use sz a x \<Longrightarrow> x < ga_top a \<and> sz dvd x" for a x by (simp add: in_use_def)
  show "arena_wf sz a \<Longrightarrow> GPArena_Alloc sz ok a = (Some x, a') \<Longrightarrow>
      arena_wf sz a' \<and> \<not> in_use sz a x \<and> (\<forall>y. in_use sz a' y \<longleftrightarrow> in_use sz a y \<or> y = x) \<and>
      (\<forall>y. (y < ga_top a' \<and> sz dvd y) \<longleftrightarrow> (y < ga_top a \<and> sz dvd y) \<or> y = x)" for a ok x a'
    by (rule arena_alloc_some)
  show "arena_wf sz a \<Longrightarrow> GPArena_Alloc sz ok a = (None, a') \<Longrightarrow>
      arena_wf sz a' \<and> in_use sz a' = in_use sz a \<and> (\<lambda>y. y < ga_top a' \<and> sz dvd y) = (\<lambda>y. y < ga_top a \<and> sz dvd y)" for a ok a'
    using arena_alloc_none by metis
  show "arena_wf sz a \<Longrightarrow> in_use sz a x \<Longrightarrow> arena_wf sz (GPArena_Free x a) \<and>
      (\<forall>y. in_use sz (GPArena_Free x a) y \<longleftrightarrow> in_use sz a y \<and> y \<noteq> x) \<and>
      (\<lambda>y. y < ga_top (GPArena_Free x a) \<and> sz dvd y) = (\<lambda>y. y < ga_top a \<and> sz dvd y)" for a x
    using arena_free by auto
qed

section \<open>Handles and objects\<close>

text \<open>
  An object is its dispatcher, its type and, for a channel, its owner; objects are named by
  numbers. \<open>zero_handles\<close> records the calls of \<open>on_zero_handles\<close>.
\<close>

definition ZX_OBJ_TYPE_NONE :: nat where "ZX_OBJ_TYPE_NONE = 0"
definition ZX_OBJ_TYPE_CHANNEL :: nat where "ZX_OBJ_TYPE_CHANNEL = 4"

record object =
  o_disp :: dispatcher
  o_type :: nat
  o_owner :: koid

record handle =
  handle_table_id :: koid
  h_object :: "nat option"
  h_rights :: zx_rights
  base_value :: u32

record handle_arena =
  arena :: gparena
  mem :: "nat \<Rightarrow> handle"
  objects :: "nat \<Rightarrow> object"
  zero_handles :: "nat list"

text \<open>The size of a handle in bytes on the 64-bit targets.\<close>

definition sizeof_Handle :: nat where
  "sizeof_Handle = 40"

definition blank_handle :: handle where
  "blank_handle = \<lparr>handle_table_id = ZX_KOID_INVALID, h_object = None, h_rights = 0, base_value = 0\<rparr>"

definition Handle_Init :: "(nat \<Rightarrow> object) \<Rightarrow> zx_status + handle_arena" where
  "Handle_Init objs = map_sum id (\<lambda>a. \<lparr>arena = a, mem = (\<lambda>_. blank_handle), objects = objs, zero_handles = []\<rparr>)
     (GPArena_Init sizeof_Handle False ZX_OK True ZX_OK kMaxHandleCount)"

definition HasRights :: "handle \<Rightarrow> zx_rights \<Rightarrow> bool" where
  "HasRights h desired \<longleftrightarrow> h_rights h AND desired = desired"

definition set_mem :: "nat \<Rightarrow> handle \<Rightarrow> handle_arena \<Rightarrow> handle_arena" where
  "set_mem addr h s = s\<lparr>mem := (mem s)(addr := h)\<rparr>"

definition set_object :: "nat \<Rightarrow> object \<Rightarrow> handle_arena \<Rightarrow> handle_arena" where
  "set_object i ob s = s\<lparr>objects := (objects s)(i := ob)\<rparr>"

text \<open>\<open>set_owner\<close> does nothing but for channels.\<close>

definition set_owner :: "koid \<Rightarrow> object \<Rightarrow> object" where
  "set_owner new_owner ob =
     (if o_type ob = ZX_OBJ_TYPE_CHANNEL \<and> new_owner \<noteq> ZX_KOID_INVALID then ob\<lparr>o_owner := new_owner\<rparr> else ob)"

definition set_handle_table_id :: "nat \<Rightarrow> koid \<Rightarrow> handle_arena \<Rightarrow> handle_arena" where
  "set_handle_table_id addr pid s =
     (let s1 = set_mem addr ((mem s addr)\<lparr>handle_table_id := pid\<rparr>) s
      in case h_object (mem s addr) of
           None \<Rightarrow> s1
         | Some i \<Rightarrow> set_object i (set_owner pid (objects s1 i)) s1)"

definition IndexToHandle :: "u32 \<Rightarrow> nat" where
  "IndexToHandle index = unat index * sizeof_Handle"

definition HandleToIndex :: "nat \<Rightarrow> u32" where
  "HandleToIndex addr = of_nat (addr div sizeof_Handle)"

definition GetNewBaseValue :: "nat \<Rightarrow> handle_arena \<Rightarrow> u32" where
  "GetNewBaseValue addr s = NewHandleValue (HandleToIndex addr) (base_value (mem s addr))"

definition HandleTableArena_Alloc :: "bool \<Rightarrow> nat \<Rightarrow> handle_arena \<Rightarrow> (nat \<times> u32) option \<times> handle_arena" where
  "HandleTableArena_Alloc vm_ok i s =
     (case GPArena_Alloc sizeof_Handle vm_ok (arena s) of
        (None, a) \<Rightarrow> (None, s\<lparr>arena := a\<rparr>)
      | (Some addr, a) \<Rightarrow>
          let ob = objects s i;
              s1 = set_object i (ob\<lparr>o_disp := increment_handle_count (o_disp ob)\<rparr>) (s\<lparr>arena := a\<rparr>)
          in (Some (addr, GetNewBaseValue addr s1), s1))"

definition Handle_Make :: "bool \<Rightarrow> nat \<Rightarrow> zx_rights \<Rightarrow> handle_arena \<Rightarrow> nat option \<times> handle_arena" where
  "Handle_Make vm_ok i rights s =
     (case HandleTableArena_Alloc vm_ok i s of
        (None, s1) \<Rightarrow> (None, s1)
      | (Some (addr, v), s1) \<Rightarrow>
          (Some addr, set_mem addr \<lparr>handle_table_id = ZX_KOID_INVALID, h_object = Some i, h_rights = rights,
                                   base_value = v\<rparr> s1))"

text \<open>\<open>Dup\<close> reads the object of the source, which every handle in use has.\<close>

definition Handle_Dup :: "bool \<Rightarrow> nat \<Rightarrow> zx_rights \<Rightarrow> handle_arena \<Rightarrow> nat option \<times> handle_arena" where
  "Handle_Dup vm_ok source rights s =
     (case h_object (mem s source) of
        None \<Rightarrow> (None, s)
      | Some i \<Rightarrow>
          (case HandleTableArena_Alloc vm_ok i s of
             (None, s1) \<Rightarrow> (None, s1)
           | (Some (addr, v), s1) \<Rightarrow>
               (Some addr, set_mem addr \<lparr>handle_table_id = ZX_KOID_INVALID, h_object = h_object (mem s1 source),
                                        h_rights = rights, base_value = v\<rparr> s1)))"

definition HandleTableArena_Delete :: "nat \<Rightarrow> handle_arena \<Rightarrow> handle_arena" where
  "HandleTableArena_Delete addr s =
     (case h_object (mem s addr) of
        None \<Rightarrow> s
      | Some i \<Rightarrow>
          let s1 = set_mem addr ((mem s addr)\<lparr>h_object := None\<rparr>) s;
              d = o_disp (objects s i);
              d1 = (if waitable d then Cancel d addr else d);
              (zero, d2) = decrement_handle_count d1;
              s2 = set_object i ((objects s i)\<lparr>o_disp := d2\<rparr>) s1;
              s3 = s2\<lparr>arena := GPArena_Free addr (arena s2)\<rparr>
          in if zero then s3\<lparr>zero_handles := zero_handles s3 @ [i]\<rparr> else s3)"

definition Handle_FromU32 :: "u32 \<Rightarrow> handle_arena \<Rightarrow> nat option" where
  "Handle_FromU32 value s =
     (let index = HandleValueToIndex value;
          handle_addr = IndexToHandle index
      in if \<not> Committed handle_addr (arena s) then None
         else
           let confined = Confine handle_addr (arena s)
           in if base_value (mem s confined) = value then Some confined else None)"

definition Handle_Count :: "nat \<Rightarrow> handle_arena \<Rightarrow> u32" where
  "Handle_Count i s = handle_count (o_disp (objects s i))"

definition OutstandingHandles :: "handle_arena \<Rightarrow> nat" where
  "OutstandingHandles s = ga_count (arena s)"

section \<open>The invariant of the handle arena\<close>

abbreviation live :: "handle_arena \<Rightarrow> nat \<Rightarrow> bool" where
  "live s \<equiv> in_use sizeof_Handle (arena s)"

abbreviation seen :: "handle_arena \<Rightarrow> nat \<Rightarrow> bool" where
  "seen s x \<equiv> x < ga_top (arena s) \<and> sizeof_Handle dvd x"

definition handles_to :: "handle_arena \<Rightarrow> nat \<Rightarrow> nat set" where
  "handles_to s i = {x. live s x \<and> h_object (mem s x) = Some i}"

definition handles_wf :: "handle_arena \<Rightarrow> bool" where
  "handles_wf s \<longleftrightarrow> arena_wf sizeof_Handle (arena s) \<and> ga_end (arena s) = kMaxHandleCount * sizeof_Handle \<and>
     (\<forall>x. seen s x \<longrightarrow> value_ok (HandleToIndex x) (base_value (mem s x))) \<and>
     (\<forall>x. live s x \<longleftrightarrow> h_object (mem s x) \<noteq> None) \<and>
     (\<forall>x. \<not> live s x \<longrightarrow> handle_table_id (mem s x) = ZX_KOID_INVALID) \<and>
     (\<forall>i. handle_count (o_disp (objects s i)) = of_nat (card (handles_to s i)))"

lemma handles_wfD:
  assumes "handles_wf s"
  shows "arena_wf sizeof_Handle (arena s)" and "ga_end (arena s) = kMaxHandleCount * sizeof_Handle"
    and "seen s x \<Longrightarrow> value_ok (HandleToIndex x) (base_value (mem s x))"
    and "live s x \<longleftrightarrow> h_object (mem s x) \<noteq> None"
    and "\<not> live s x \<Longrightarrow> handle_table_id (mem s x) = ZX_KOID_INVALID"
    and "handle_count (o_disp (objects s i)) = of_nat (card (handles_to s i))"
  using assms unfolding handles_wf_def by blast+

lemma live_seen: "live s x \<Longrightarrow> seen s x"
  by (simp add: in_use_def)

lemma sizeof_pos [simp]: "0 < sizeof_Handle"
  by (simp add: sizeof_Handle_def)

lemma Init_wf:
  assumes "Handle_Init objs = Inr s" and "\<forall>i. handle_count (o_disp (objs i)) = 0"
  shows "handles_wf s \<and> (\<forall>x. \<not> live s x)"
proof -
  have "s = \<lparr>arena = \<lparr>ga_top = 0, ga_committed = 0, ga_end = kMaxHandleCount * sizeof_Handle, ga_count = 0, free_list = []\<rparr>,
      mem = (\<lambda>_. blank_handle), objects = objs, zero_handles = []\<rparr>"
    using assms(1) by (auto simp: Handle_Init_def GPArena_Init_def kMaxHandleCount_def sizeof_Handle_def ROUNDUP_def PAGE_SIZE_def)
  then show ?thesis using assms(2)
    by (simp add: handles_wf_def arena_wf_def in_use_def handles_to_def blank_handle_def PAGE_SIZE_def sizeof_Handle_def
        kMaxHandleCount_def)
qed

text \<open>There are far fewer handles than the counter can count.\<close>

lemma live_bound:
  assumes "handles_wf s" and "live s x" shows "x div sizeof_Handle < kMaxHandleCount"
proof -
  have "x < kMaxHandleCount * sizeof_Handle"
    using assms handles_wfD(1,2) [OF assms(1)] by (auto simp: in_use_def arena_wf_def)
  then show ?thesis by (simp add: less_mult_imp_div_less)
qed

lemma seen_bound:
  assumes "handles_wf s" and "seen s x" shows "x div sizeof_Handle < kMaxHandleCount"
proof -
  have "x < kMaxHandleCount * sizeof_Handle"
    using assms handles_wfD(1,2) [OF assms(1)] by (auto simp: arena_wf_def)
  then show ?thesis by (simp add: less_mult_imp_div_less)
qed

lemma finite_handles_to: "finite (handles_to s i)"
  by (rule finite_subset [of _ "{..<ga_top (arena s)}"]) (auto simp: handles_to_def in_use_def)

lemma card_handles_to:
  assumes "handles_wf s" shows "card (handles_to s i) \<le> kMaxHandleCount"
proof -
  have inj: "inj_on (\<lambda>x. x div sizeof_Handle) (handles_to s i)"
  proof (rule inj_onI)
    fix x y assume "x \<in> handles_to s i" "y \<in> handles_to s i" and eq: "x div sizeof_Handle = y div sizeof_Handle"
    then have "sizeof_Handle dvd x" "sizeof_Handle dvd y" by (auto simp: handles_to_def in_use_def)
    then show "x = y" using eq by (metis dvd_div_mult_self)
  qed
  have "(\<lambda>x. x div sizeof_Handle) ` handles_to s i \<subseteq> {..<kMaxHandleCount}"
    using live_bound [OF assms] by (auto simp: handles_to_def)
  from card_mono [OF _ this] card_image [OF inj] show ?thesis by simp
qed

lemma low_index:
  assumes b: "x div sizeof_Handle < 2 ^ 18" shows "HandleToIndex x AND NOT kHandleIndexMask = 0"
proof -
  have "HandleToIndex x = take_bit 18 (HandleToIndex x)"
    unfolding HandleToIndex_def take_bit_of_nat using b by (simp add: take_bit_nat_eq_self)
  then have "\<not> bit (HandleToIndex x) k" if "18 \<le> k" for k
    using that by (metis bit_take_bit_iff not_le)
  then show ?thesis by (auto simp: handle_constants and_disjoint_iff bit_simps not_less)
qed

lemma HandleToIndex_low:
  assumes "handles_wf s" and "seen s x" shows "HandleToIndex x AND NOT kHandleIndexMask = 0"
    and "unat (HandleToIndex x) = x div sizeof_Handle"
proof -
  have b: "x div sizeof_Handle < 2 ^ 18" using seen_bound [OF assms] by (simp add: kMaxHandleCount_def)
  then show u: "unat (HandleToIndex x) = x div sizeof_Handle" by (simp add: HandleToIndex_def unat_of_nat)
  show "HandleToIndex x AND NOT kHandleIndexMask = 0" by (rule low_index [OF b])
qed

text \<open>The index of a slot's base value leads back to the slot.\<close>

lemma FromU32_iff:
  assumes "handles_wf s"
  shows "Handle_FromU32 v s = Some x \<longleftrightarrow> seen s x \<and> base_value (mem s x) = v"
proof -
  let ?y = "IndexToHandle (HandleValueToIndex v)"
  have slot: "?y = x" if "seen s x" "base_value (mem s x) = v"
  proof -
    have "HandleValueToIndex v = HandleToIndex x"
      using handles_wfD(3) [OF assms that(1)] that(2) by (simp add: value_ok_def HandleValueToIndex_def)
    then show ?thesis using HandleToIndex_low(2) [OF assms that(1)] that(1)
      by (simp add: IndexToHandle_def)
  qed
  have "Handle_FromU32 v s = Some x \<longleftrightarrow> ?y < ga_top (arena s) \<and> base_value (mem s ?y) = v \<and> ?y = x"
    by (auto simp: Handle_FromU32_def Committed_def Confine_def Let_def)
  also have "\<dots> \<longleftrightarrow> seen s x \<and> base_value (mem s x) = v"
    using slot by (auto simp: IndexToHandle_def)
  finally show ?thesis .
qed

lemma base_value_inj:
  assumes "handles_wf s" and "seen s x" "seen s y" and "base_value (mem s x) = base_value (mem s y)" shows "x = y"
  using FromU32_iff [OF assms(1)] assms(2-4) by (metis option.inject)

section \<open>Operations keep the invariant\<close>

lemma set_mem_fields [simp]:
  "arena (set_mem a h s) = arena s" "mem (set_mem a h s) = (mem s)(a := h)" "objects (set_mem a h s) = objects s"
  "zero_handles (set_mem a h s) = zero_handles s"
  by (simp_all add: set_mem_def)

lemma set_object_fields [simp]:
  "arena (set_object i ob s) = arena s" "mem (set_object i ob s) = mem s" "objects (set_object i ob s) = (objects s)(i := ob)"
  "zero_handles (set_object i ob s) = zero_handles s"
  by (simp_all add: set_object_def)

lemma set_owner_disp [simp]: "o_disp (set_owner k ob) = o_disp ob" "o_type (set_owner k ob) = o_type ob"
  by (simp_all add: set_owner_def)

lemma Make_effect:
  assumes wf: "handles_wf s" and call: "Handle_Make ok i rights s = (Some x, s')"
  shows "handles_wf s' \<and> \<not> live s x \<and> (\<forall>y. live s' y \<longleftrightarrow> live s y \<or> y = x) \<and>
    (\<forall>y. y \<noteq> x \<longrightarrow> mem s' y = mem s y) \<and>
    mem s' x = \<lparr>handle_table_id = ZX_KOID_INVALID, h_object = Some i, h_rights = rights,
      base_value = NewHandleValue (HandleToIndex x) (base_value (mem s x))\<rparr> \<and>
    zero_handles s' = zero_handles s"
proof -
  obtain a where alloc: "GPArena_Alloc sizeof_Handle ok (arena s) = (Some x, a)"
    and s': "s' = set_mem x \<lparr>handle_table_id = ZX_KOID_INVALID, h_object = Some i, h_rights = rights,
        base_value = NewHandleValue (HandleToIndex x) (base_value (mem s x))\<rparr>
      (set_object i ((objects s i)\<lparr>o_disp := increment_handle_count (o_disp (objects s i))\<rparr>) (s\<lparr>arena := a\<rparr>))"
    using call by (auto simp: Handle_Make_def HandleTableArena_Alloc_def GetNewBaseValue_def Let_def split: option.splits prod.splits)
  note al = slots.alloc_some [OF handles_wfD(1) [OF wf] alloc]
  have arena: "arena s' = a" by (simp add: s')
  have "ga_end a = ga_end (arena s)" using alloc
    by (auto simp: GPArena_Alloc_def FreeList_Pop_def Grow_def Let_def split: list.splits if_splits)
  then have end_eq: "ga_end (arena s') = kMaxHandleCount * sizeof_Handle" using arena handles_wfD(2) [OF wf] by simp
  have x_seen: "seen s' x" using al arena by blast
  have "ga_top a \<le> ga_end a" using al by (simp add: arena_wf_def)
  then have "x < kMaxHandleCount * sizeof_Handle" using x_seen end_eq arena by simp
  then have "x div sizeof_Handle < kMaxHandleCount" by (rule less_mult_imp_div_less)
  then have b: "x div sizeof_Handle < 2 ^ 18" by (simp add: kMaxHandleCount_def)
  have "HandleToIndex x AND NOT kHandleIndexMask = 0" by (rule low_index [OF b])
  then have val: "value_ok (HandleToIndex x) (base_value (mem s' x))" by (simp add: s' NewHandleValue_ok)
  have to: "handles_to s' j = (if j = i then insert x (handles_to s i) else handles_to s j)" for j
    using al arena by (auto simp: handles_to_def s' in_use_def)
  have fresh: "x \<notin> handles_to s i" using al by (simp add: handles_to_def)
  have "handle_count (o_disp (objects s' j)) = of_nat (card (handles_to s' j))" for j
    using handles_wfD(6) [OF wf, of j] fresh finite_handles_to [of s i]
    by (cases "j = i") (simp_all add: to, simp_all add: s' increment_handle_count_def)
  moreover have "value_ok (HandleToIndex y) (base_value (mem s' y))" if "seen s' y" for y
    using val handles_wfD(3) [OF wf, of y] al arena that by (cases "y = x") (auto simp: s')
  moreover have "live s' y \<longleftrightarrow> h_object (mem s' y) \<noteq> None" for y
    using handles_wfD(4) [OF wf, of y] al arena by (simp add: s')
  moreover have "handle_table_id (mem s' y) = ZX_KOID_INVALID" if "\<not> live s' y" for y
    using handles_wfD(5) [OF wf, of y] al arena that by (simp add: s')
  ultimately have "handles_wf s'" using al arena end_eq unfolding handles_wf_def by blast
  then show ?thesis using al arena by (simp add: s')
qed

lemma Make_none: "handles_wf s \<Longrightarrow> Handle_Make ok i rights s = (None, s') \<Longrightarrow> s' = s"
  using arena_alloc_none [OF handles_wfD(1)]
  by (auto simp: Handle_Make_def HandleTableArena_Alloc_def Let_def split: option.splits prod.splits)

lemma Dup_is_Make: "h_object (mem s source) = Some i \<Longrightarrow> Handle_Dup ok source rights s = Handle_Make ok i rights s"
  by (auto simp: Handle_Dup_def Handle_Make_def HandleTableArena_Alloc_def Let_def split: option.splits prod.splits)

lemma Cancel_count [simp]: "handle_count (Cancel d h) = handle_count d"
  by (simp add: Cancel_def split: prod.splits)

text \<open>Deleting the last handle of an object, and no other, calls \<open>on_zero_handles\<close>.\<close>

lemma Delete_effect:
  assumes wf: "handles_wf s" and x: "live s x" "handle_table_id (mem s x) = ZX_KOID_INVALID" "h_object (mem s x) = Some i"
    and s': "s' = HandleTableArena_Delete x s"
  shows "handles_wf s' \<and> (\<forall>y. live s' y \<longleftrightarrow> live s y \<and> y \<noteq> x) \<and> (\<forall>y. y \<noteq> x \<longrightarrow> mem s' y = mem s y) \<and>
    mem s' x = (mem s x)\<lparr>h_object := None\<rparr> \<and>
    zero_handles s' = zero_handles s @ (if handles_to s i = {x} then [i] else [])"
proof -
  define d where "d = o_disp (objects s i)"
  define d1 where "d1 = (if waitable d then Cancel d x else d)"
  have d1: "handle_count d1 = handle_count d" by (simp add: d1_def)
  have arena: "arena s' = GPArena_Free x (arena s)" and mem: "mem s' = (mem s)(x := (mem s x)\<lparr>h_object := None\<rparr>)"
    and obj: "objects s' = (objects s)(i := (objects s i)\<lparr>o_disp := d1\<lparr>handle_count := handle_count d1 - 1\<rparr>\<rparr>)"
    and zero: "zero_handles s' = zero_handles s @ (if handle_count d = 1 then [i] else [])"
    using s' x(3) d1 by (simp_all add: HandleTableArena_Delete_def decrement_handle_count_def Let_def d_def d1_def)
  note fr = slots.free_used [OF handles_wfD(1) [OF wf] x(1)]
  have tops: "ga_top (arena s') = ga_top (arena s)" "ga_end (arena s') = ga_end (arena s)"
    by (simp_all add: arena GPArena_Free_def FreeList_Push_def Let_def)
  have to: "handles_to s' j = handles_to s j - {x}" for j using fr by (auto simp: handles_to_def arena mem)
  have x_to: "x \<in> handles_to s i" "x \<notin> handles_to s j" if "j \<noteq> i" for j using x that by (auto simp: handles_to_def)
  have xi: "x \<in> handles_to s i" using x by (simp add: handles_to_def)
  then have pos: "0 < card (handles_to s i)" using finite_handles_to by (simp add: card_gt_0_iff) blast
  have cnt: "handle_count d = of_nat (card (handles_to s i))" using handles_wfD(6) [OF wf] by (simp add: d_def)
  have "handle_count (o_disp (objects s' j)) = of_nat (card (handles_to s' j))" for j
    using handles_wfD(6) [OF wf, of j] cnt d1 pos xi x_to(2) [of j]
    by (cases "j = i") (simp_all add: to obj of_nat_diff)
  moreover have "value_ok (HandleToIndex y) (base_value (mem s' y))" if "seen s' y" for y
    using handles_wfD(3) [OF wf, of y] that tops by (cases "y = x") (simp_all add: mem)
  moreover have "live s' y \<longleftrightarrow> h_object (mem s' y) \<noteq> None" for y
    using handles_wfD(4) [OF wf, of y] fr by (cases "y = x") (simp_all add: arena mem)
  moreover have "handle_table_id (mem s' y) = ZX_KOID_INVALID" if "\<not> live s' y" for y
    using handles_wfD(5) [OF wf, of y] fr that x(2) by (cases "y = x") (simp_all add: arena mem)
  ultimately have "handles_wf s'" using fr arena tops handles_wfD(2) [OF wf] unfolding handles_wf_def by metis
  moreover have "handle_count d = 1 \<longleftrightarrow> handles_to s i = {x}"
  proof -
    have "card (handles_to s i) < 2 ^ 32" using card_handles_to [OF wf, of i] by (simp add: kMaxHandleCount_def)
    then have "handle_count d = 1 \<longleftrightarrow> card (handles_to s i) = 1"
      using cnt word_of_nat_eq_iff [of "card (handles_to s i)" 1, where 'a = 32] by (simp add: take_bit_nat_eq_self)
    then show ?thesis using xi by (auto simp: card_1_singleton_iff)
  qed
  ultimately show ?thesis using fr by (simp add: zero arena mem)
qed

lemma set_table_effect:
  assumes wf: "handles_wf s" and x: "live s x" and s': "s' = set_handle_table_id x k s"
  shows "handles_wf s' \<and> arena s' = arena s \<and> mem s' = (mem s)(x := (mem s x)\<lparr>handle_table_id := k\<rparr>) \<and>
    zero_handles s' = zero_handles s"
proof -
  obtain i where i: "h_object (mem s x) = Some i" using handles_wfD(4) [OF wf] x by auto
  have f: "arena s' = arena s" "mem s' = (mem s)(x := (mem s x)\<lparr>handle_table_id := k\<rparr>)"
    "objects s' = (objects s)(i := set_owner k (objects s i))" "zero_handles s' = zero_handles s"
    using i by (simp_all add: s' set_handle_table_id_def Let_def)
  have to: "handles_to s' j = handles_to s j" for j by (auto simp: handles_to_def f)
  have "handle_count (o_disp (objects s' j)) = of_nat (card (handles_to s' j))" for j
    using handles_wfD(6) [OF wf, of j] by (cases "j = i") (simp_all add: to f)
  moreover have "value_ok (HandleToIndex y) (base_value (mem s' y))" if "seen s' y" for y
    using handles_wfD(3) [OF wf, of y] that by (cases "y = x") (simp_all add: f)
  moreover have "live s' y \<longleftrightarrow> h_object (mem s' y) \<noteq> None" for y
    using handles_wfD(4) [OF wf, of y] by (cases "y = x") (simp_all add: f)
  moreover have "handle_table_id (mem s' y) = ZX_KOID_INVALID" if "\<not> live s' y" for y
    using handles_wfD(5) [OF wf, of y] that x by (cases "y = x") (simp_all add: f)
  ultimately have "handles_wf s'" using handles_wfD(1,2) [OF wf] f unfolding handles_wf_def by metis
  then show ?thesis using f by simp
qed

section \<open>Properties\<close>

lemma NewHandleValue_cycle:
  assumes "index AND NOT kHandleIndexMask = 0" and "value_ok index v"
  shows "(NewHandleValue index ^^ k) v = v \<longleftrightarrow> 4096 dvd k"
proof -
  have it: "value_ok index ((NewHandleValue index ^^ k) v)"
    "unat (value_gen ((NewHandleValue index ^^ k) v)) = (unat (value_gen v) + k) mod 4096"
    using NewHandleValue_iterate [OF assms] by blast+
  have "(NewHandleValue index ^^ k) v = v \<longleftrightarrow> value_gen ((NewHandleValue index ^^ k) v) = value_gen v"
    using value_eqI [OF it(1) assms(2)] by auto
  also have "\<dots> \<longleftrightarrow> (unat (value_gen v) + k) mod 4096 = unat (value_gen v)"
    using it(2) by (metis word_eq_iff_unsigned)
  also have "\<dots> \<longleftrightarrow> 4096 dvd k"
    using value_gen_less [of v] mod_eq_dvd_iff_nat [of "unat (value_gen v)" "unat (value_gen v) + k" 4096] by simp
  finally show ?thesis .
qed


lemma first_handle:
  obtains s where "handles_wf s" "seen s 0" "base_value (mem s 0) = NewHandleValue 0 0"
proof -
  let ?objs = "\<lambda>i. \<lparr>o_disp = Dispatcher_new i True 0, o_type = 5, o_owner = 0\<rparr>"
  obtain s0 where i: "Handle_Init ?objs = Inr s0" 
    by (simp add: Handle_Init_def GPArena_Init_def kMaxHandleCount_def)
  have w: "handles_wf s0" using Init_wf [OF i] by (simp add: Dispatcher_new_def)
  have a: "arena s0 = \<lparr>ga_top = 0, ga_committed = 0, ga_end = kMaxHandleCount * sizeof_Handle, ga_count = 0, free_list = []\<rparr>"
    and m: "mem s0 = (\<lambda>_. blank_handle)"
    using i by (auto simp: Handle_Init_def GPArena_Init_def kMaxHandleCount_def sizeof_Handle_def ROUNDUP_def PAGE_SIZE_def)
  have "fst (Handle_Make True 1 0 s0) = Some 0"
    by (simp add: Handle_Make_def HandleTableArena_Alloc_def GPArena_Alloc_def FreeList_Pop_def Grow_def a Let_def
        PAGE_SIZE_def kMaxHandleCount_def sizeof_Handle_def)
  then obtain s where c: "Handle_Make True 1 0 s0 = (Some 0, s)" by (metis prod.collapse)
  from Make_effect [OF w c] have e: "handles_wf s" "live s 0" "base_value (mem s 0) = NewHandleValue (HandleToIndex 0) 0"
    by (simp_all add: m blank_handle_def)
  have "HandleToIndex 0 = 0" by (simp add: HandleToIndex_def)
  then show thesis using that e live_seen by metis
qed


end
