(* ===== verification/Message_Packet.thy ===== *)
theory Message_Packet
  imports Prelude
begin

text \<open>
  Channel messages (\<^verbatim>\<open>kernel/object/message_packet.cc\<close>) and the chains of pages they are kept in
  (\<^verbatim>\<open>kernel/object/include/object/buffer_chain.h\<close>). The first page of a chain holds, in this
  order, the chain object, the message object, the pointers to its handles, and the first bytes
  of the payload; the other pages hold payload only. The objects are fields of records here; the
  bytes of a page are kept in full, so that one can tell that copies of the payload leave the
  bytes alone in which the objects lie. Sizes of objects are those of 64-bit targets. The page
  cache is a parameter: it gives a number of pages with arbitrary content, or nothing.
\<close>

unbundle bit_operations_syntax

section \<open>Buffer chains\<close>

definition kSizeOfBuffer :: nat where "kSizeOfBuffer = 4096"
definition kSizeOfBufferFields :: nat where "kSizeOfBufferFields = 16"
definition kRawDataSize :: nat where "kRawDataSize = kSizeOfBuffer - kSizeOfBufferFields"

text \<open>A list head, two list nodes, a size and an iterator.\<close>

definition kSizeOfBufferChain :: nat where "kSizeOfBufferChain = 8 + 2 * 16 + 8 + 8"
definition kContig :: nat where "kContig = kRawDataSize - kSizeOfBufferChain"

record buffer =
  reserved :: nat
  raw_data :: "byte list"

definition Buffer_data :: "buffer \<Rightarrow> byte list" where
  "Buffer_data b = drop (reserved b) (raw_data b)"

definition Buffer_size :: "buffer \<Rightarrow> nat" where
  "Buffer_size b = kRawDataSize - reserved b"

text \<open>\<open>buffer_tail\<close> is the index of the last buffer, \<open>None\<close> for \<open>buffers_.end()\<close>. An unused page is its content.\<close>

record buffer_chain =
  buffers :: "buffer list"
  buffer_tail :: "nat option"
  buffer_offset :: nat
  unused_pages :: "byte list list"

type_synonym page_cache = "nat \<Rightarrow> byte list list option"

definition AddNextBuffer :: "buffer_chain \<Rightarrow> zx_status \<times> buffer_chain" where
  "AddNextBuffer c =
     (case unused_pages c of
        [] \<Rightarrow> (ZX_ERR_OUT_OF_RANGE, c)
      | page # rest \<Rightarrow> (ZX_OK, c\<lparr>unused_pages := rest, buffers := buffers c @ [\<lparr>reserved = 0, raw_data = page\<rparr>]\<rparr>))"

definition BufferChain_Alloc :: "page_cache \<Rightarrow> nat \<Rightarrow> buffer_chain option" where
  "BufferChain_Alloc cache sz =
     (let num_buffers = (sz + kSizeOfBufferChain + kRawDataSize - 1) div kRawDataSize
      in case cache num_buffers of
           None \<Rightarrow> None
         | Some pages \<Rightarrow>
             (case AddNextBuffer \<lparr>buffers = [], buffer_tail = None, buffer_offset = 0, unused_pages = pages\<rparr> of
                (status, c) \<Rightarrow>
                  if status \<noteq> ZX_OK then None
                  else Some (c\<lparr>buffers := (buffers c)[0 := (buffers c ! 0)\<lparr>reserved := kSizeOfBufferChain\<rparr>], buffer_tail := Some 0\<rparr>)))"

definition Skip :: "nat \<Rightarrow> buffer_chain \<Rightarrow> buffer_chain" where
  "Skip n c = c\<lparr>buffer_offset := buffer_offset c + n\<rparr>"

definition FreeUnusedBuffers :: "buffer_chain \<Rightarrow> buffer_chain" where
  "FreeUnusedBuffers c = c\<lparr>unused_pages := []\<rparr>"

definition store_in :: "nat \<Rightarrow> nat \<Rightarrow> byte list \<Rightarrow> buffer_chain \<Rightarrow> buffer_chain" where
  "store_in i p bs c =
     c\<lparr>buffers := (buffers c)[i := (buffers c ! i)\<lparr>raw_data := overwrite (raw_data (buffers c ! i)) (reserved (buffers c ! i) + p) bs\<rparr>]\<rparr>"

text \<open>The loop of \<open>AppendCommon\<close>: \<open>i\<close> is the tail, \<open>p\<close> how far \<open>src\<close> has advanced.\<close>

lemma AddNextBuffer_unused:
  "AddNextBuffer c = (ZX_OK, c') \<Longrightarrow> length (unused_pages c') < length (unused_pages c)"
  by (auto simp: AddNextBuffer_def split: list.splits)

function append_loop :: "user_in \<Rightarrow> nat \<Rightarrow> nat \<Rightarrow> nat \<Rightarrow> buffer_chain \<Rightarrow> zx_status \<times> buffer_chain" where
  "append_loop src p rem i c =
     (let copy_len = min rem (Buffer_size (buffers c ! i) - buffer_offset c);
          uc = src p copy_len;
          c1 = store_in i (buffer_offset c) (uc_bytes uc) c
      in if uc_status uc \<noteq> ZX_OK then (uc_status uc, c1\<lparr>buffer_tail := None\<rparr>)
         else
           let c2 = c1\<lparr>buffer_offset := buffer_offset c1 + copy_len\<rparr>
           in if rem - copy_len = 0 then (ZX_OK, c2)
              else case AddNextBuffer c2 of
                     (status, c3) \<Rightarrow>
                       if status \<noteq> ZX_OK then (status, c3\<lparr>buffer_tail := None\<rparr>)
                       else append_loop src (p + copy_len) (rem - copy_len) (i + 1)
                              (c3\<lparr>buffer_offset := 0, buffer_tail := Some (i + 1)\<rparr>))"
  by pat_completeness auto

termination
  by (relation "measure (\<lambda>(src, p, rem, i, c). length (unused_pages c))")
    (auto simp: store_in_def dest!: AddNextBuffer_unused [OF sym])

declare append_loop.simps [simp del]

definition AppendCommon :: "user_in \<Rightarrow> nat \<Rightarrow> buffer_chain \<Rightarrow> zx_status \<times> buffer_chain" where
  "AppendCommon src sz c =
     (if sz = 0 then (ZX_OK, c)
      else case buffer_tail c of
             None \<Rightarrow> (ZX_ERR_OUT_OF_RANGE, c)
           | Some i \<Rightarrow> append_loop src 0 sz i c)"

definition Append :: "user_in \<Rightarrow> nat \<Rightarrow> buffer_chain \<Rightarrow> zx_status \<times> buffer_chain" where
  "Append = AppendCommon"

text \<open>A pointer into kernel memory always copies.\<close>

definition KernelPtrAdapter :: "byte list \<Rightarrow> user_in" where
  "KernelPtrAdapter data p n = \<lparr>uc_bytes = bytes_at data p n, uc_status = ZX_OK, uc_fault = False\<rparr>"

definition AppendKernel :: "byte list \<Rightarrow> nat \<Rightarrow> buffer_chain \<Rightarrow> zx_status \<times> buffer_chain" where
  "AppendKernel data sz = AppendCommon (KernelPtrAdapter data) sz"

text \<open>\<open>CopyOut\<close> returns its status and the bytes that reached the user.\<close>

fun copy_out_loop :: "user_out \<Rightarrow> nat \<Rightarrow> nat \<Rightarrow> nat \<Rightarrow> buffer list \<Rightarrow> zx_status \<times> byte list" where
  "copy_out_loop dst p copy_offset rem [] = (ZX_OK, [])"
| "copy_out_loop dst p copy_offset rem (b # bs) =
     (if rem = 0 then (ZX_OK, [])
      else
        let copy_len = min rem (Buffer_size b - copy_offset);
            uc = dst p (bytes_at (Buffer_data b) copy_offset copy_len)
        in if uc_status uc \<noteq> ZX_OK then (uc_status uc, uc_bytes uc)
           else case copy_out_loop dst (p + copy_len) 0 (rem - copy_len) bs of
                  (status, rest) \<Rightarrow> (status, uc_bytes uc @ rest))"

definition CopyOut :: "user_out \<Rightarrow> nat \<Rightarrow> nat \<Rightarrow> buffer_chain \<Rightarrow> zx_status \<times> byte list" where
  "CopyOut dst src_offset sz c = copy_out_loop dst 0 src_offset sz (buffers c)"

section \<open>Message packets\<close>

definition kMaxMessageSize :: nat where "kMaxMessageSize = 65536"
definition kMaxMessageHandles :: nat where "kMaxMessageHandles = 64"
definition kMaxIovecsCount :: nat where "kMaxIovecsCount = 8192"
definition kIovecChunkSize :: nat where "kIovecChunkSize = 16"

text \<open>The size of the message object: two links, two pointers, two words of 32 bits, one of 16, and a flag.\<close>

definition kHandlesOffset :: nat where "kHandlesOffset = 48"

definition PayloadOffset :: "nat \<Rightarrow> nat" where
  "PayloadOffset num_handles = kHandlesOffset + num_handles * 8"

record message_packet =
  mp_chain :: buffer_chain
  mp_handles :: "nat option list"
  mp_data_size :: nat
  mp_payload_offset :: nat
  mp_num_handles :: nat
  mp_owns_handles :: bool

definition CreateCommon :: "page_cache \<Rightarrow> nat \<Rightarrow> nat \<Rightarrow> zx_status + message_packet" where
  "CreateCommon cache data_size num_handles =
     (if data_size > kMaxMessageSize \<or> num_handles > kMaxMessageHandles then Inl ZX_ERR_OUT_OF_RANGE
      else
        let payload_offset = PayloadOffset num_handles
        in case BufferChain_Alloc cache (payload_offset + data_size) of
             None \<Rightarrow> Inl ZX_ERR_NO_MEMORY
           | Some chain \<Rightarrow>
               Inr \<lparr>mp_chain = Skip payload_offset chain, mp_handles = replicate num_handles None, mp_data_size = data_size,
                    mp_payload_offset = payload_offset, mp_num_handles = num_handles, mp_owns_handles = False\<rparr>)"

definition append_to :: "user_in \<Rightarrow> nat \<Rightarrow> message_packet \<Rightarrow> zx_status + message_packet" where
  "append_to src n msg =
     (case Append src n (mp_chain msg) of
        (status, chain) \<Rightarrow> if status \<noteq> ZX_OK then Inl status else Inr (msg\<lparr>mp_chain := chain\<rparr>))"

definition MessagePacket_Create :: "page_cache \<Rightarrow> user_in \<Rightarrow> nat \<Rightarrow> nat \<Rightarrow> zx_status + message_packet" where
  "MessagePacket_Create cache data data_size num_handles =
     (case CreateCommon cache data_size num_handles of
        Inl e \<Rightarrow> Inl e
      | Inr new_msg \<Rightarrow> append_to data data_size new_msg)"

definition MessagePacket_CreateKernel :: "page_cache \<Rightarrow> byte list \<Rightarrow> nat \<Rightarrow> nat \<Rightarrow> zx_status + message_packet" where
  "MessagePacket_CreateKernel cache data data_size num_handles =
     (case CreateCommon cache data_size num_handles of
        Inl e \<Rightarrow> Inl e
      | Inr new_msg \<Rightarrow>
          (case AppendKernel data data_size (mp_chain new_msg) of
             (status, chain) \<Rightarrow> if status \<noteq> ZX_OK then Inl status else Inr (new_msg\<lparr>mp_chain := chain\<rparr>)))"

text \<open>
  An entry of an array of buffers, with the user memory its pointer leads to. Copying \<open>n\<close> entries
  from index \<open>k\<close> of the user's array gives them or an error.
\<close>

record zx_channel_iovec =
  iov_buffer :: user_in
  iov_capacity :: u32
  iov_reserved :: u32

type_synonym user_iovecs = "nat \<Rightarrow> nat \<Rightarrow> zx_status + zx_channel_iovec list"

fun iovec_total :: "zx_channel_iovec list \<Rightarrow> nat \<Rightarrow> zx_status + nat" where
  "iovec_total [] message_size = Inr message_size"
| "iovec_total (v # vs) message_size =
     (if iov_reserved v \<noteq> 0 then Inl ZX_ERR_INVALID_ARGS else iovec_total vs (message_size + unat (iov_capacity v)))"

fun append_iovecs :: "zx_channel_iovec list \<Rightarrow> message_packet \<Rightarrow> zx_status + message_packet" where
  "append_iovecs [] msg = Inr msg"
| "append_iovecs (v # vs) msg =
     (case append_to (iov_buffer v) (unat (iov_capacity v)) msg of Inl e \<Rightarrow> Inl e | Inr msg1 \<Rightarrow> append_iovecs vs msg1)"

definition CreateIovecBounded :: "page_cache \<Rightarrow> user_iovecs \<Rightarrow> nat \<Rightarrow> nat \<Rightarrow> zx_status + message_packet" where
  "CreateIovecBounded cache iovs num_iovecs num_handles =
     (case (if num_iovecs > 0 then iovs 0 num_iovecs else Inr []) of
        Inl e \<Rightarrow> Inl e
      | Inr vs \<Rightarrow>
          (case iovec_total vs 0 of
             Inl e \<Rightarrow> Inl e
           | Inr message_size \<Rightarrow>
               (case CreateCommon cache message_size num_handles of
                  Inl e \<Rightarrow> Inl e
                | Inr new_msg \<Rightarrow> append_iovecs vs new_msg)))"

text \<open>One chunk of the unbounded case: each entry is checked, counted and appended before the next.\<close>

fun append_chunk :: "zx_channel_iovec list \<Rightarrow> nat \<Rightarrow> message_packet \<Rightarrow> zx_status + nat \<times> message_packet" where
  "append_chunk [] message_size msg = Inr (message_size, msg)"
| "append_chunk (v # vs) message_size msg =
     (if iov_reserved v \<noteq> 0 then Inl ZX_ERR_INVALID_ARGS
      else case append_to (iov_buffer v) (unat (iov_capacity v)) msg of
             Inl e \<Rightarrow> Inl e
           | Inr msg1 \<Rightarrow> append_chunk vs (message_size + unat (iov_capacity v)) msg1)"

function append_chunks :: "user_iovecs \<Rightarrow> nat \<Rightarrow> nat \<Rightarrow> nat \<Rightarrow> message_packet \<Rightarrow> zx_status + nat \<times> message_packet" where
  "append_chunks iovs k num_iovecs message_size msg =
     (if num_iovecs = 0 then Inr (message_size, msg)
      else
        let chunk_iovecs = min num_iovecs kIovecChunkSize
        in case iovs k chunk_iovecs of
             Inl e \<Rightarrow> Inl e
           | Inr vs \<Rightarrow>
               (case append_chunk vs message_size msg of
                  Inl e \<Rightarrow> Inl e
                | Inr (message_size1, msg1) \<Rightarrow>
                    append_chunks iovs (k + chunk_iovecs) (num_iovecs - chunk_iovecs) message_size1 msg1))"
  by pat_completeness auto

termination
  by (relation "measure (\<lambda>(iovs, k, n, s, msg). n)") (auto simp: kIovecChunkSize_def)

declare append_chunks.simps [simp del]

definition CreateIovecUnbounded :: "page_cache \<Rightarrow> user_iovecs \<Rightarrow> nat \<Rightarrow> nat \<Rightarrow> zx_status + message_packet" where
  "CreateIovecUnbounded cache iovs num_iovecs num_handles =
     (case CreateCommon cache kMaxMessageSize num_handles of
        Inl e \<Rightarrow> Inl e
      | Inr new_msg \<Rightarrow>
          (case append_chunks iovs 0 num_iovecs 0 new_msg of
             Inl e \<Rightarrow> Inl e
           | Inr (message_size, msg1) \<Rightarrow>
               Inr (msg1\<lparr>mp_chain := FreeUnusedBuffers (mp_chain msg1), mp_data_size := message_size mod 2 ^ 32\<rparr>)))"

definition MessagePacket_CreateIovec :: "page_cache \<Rightarrow> user_iovecs \<Rightarrow> nat \<Rightarrow> nat \<Rightarrow> zx_status + message_packet" where
  "MessagePacket_CreateIovec cache iovs num_iovecs num_handles =
     (if num_iovecs > kMaxIovecsCount then Inl ZX_ERR_OUT_OF_RANGE
      else if num_iovecs \<le> kIovecChunkSize then CreateIovecBounded cache iovs num_iovecs num_handles
      else CreateIovecUnbounded cache iovs num_iovecs num_handles)"

definition CopyDataTo :: "user_out \<Rightarrow> message_packet \<Rightarrow> zx_status \<times> byte list" where
  "CopyDataTo buf msg = CopyOut buf (mp_payload_offset msg) (mp_data_size msg) (mp_chain msg)"

text \<open>A 32-bit number in memory, least significant byte first.\<close>

definition le32 :: "byte list \<Rightarrow> u32" where
  "le32 bs = ucast (bs ! 0) OR push_bit 8 (ucast (bs ! 1)) OR push_bit 16 (ucast (bs ! 2)) OR push_bit 24 (ucast (bs ! 3))"

definition le32_bytes :: "u32 \<Rightarrow> byte list" where
  "le32_bytes w = [ucast w, ucast (drop_bit 8 w), ucast (drop_bit 16 w), ucast (drop_bit 24 w)]"

definition get_txid :: "message_packet \<Rightarrow> u32" where
  "get_txid msg =
     (if mp_data_size msg < 4 then 0
      else le32 (bytes_at (Buffer_data (buffers (mp_chain msg) ! 0)) (mp_payload_offset msg) 4))"

definition set_txid :: "u32 \<Rightarrow> message_packet \<Rightarrow> message_packet" where
  "set_txid txid msg =
     (if mp_data_size msg \<ge> 4
      then msg\<lparr>mp_chain := store_in 0 (mp_payload_offset msg) (le32_bytes txid) (mp_chain msg)\<rparr> else msg)"

section \<open>What is in a chain\<close>

definition page_ok :: "byte list \<Rightarrow> bool" where
  "page_ok page \<longleftrightarrow> length page = kRawDataSize"

definition page_cache_ok :: "page_cache \<Rightarrow> bool" where
  "page_cache_ok cache \<longleftrightarrow> (\<forall>n pages. cache n = Some pages \<longrightarrow> length pages = n \<and> (\<forall>page\<in>set pages. page_ok page))"

text \<open>The buffer list of a chain that can be appended to: the first buffer holds the chain object.\<close>

definition chain_ok :: "buffer_chain \<Rightarrow> bool" where
  "chain_ok c \<longleftrightarrow> buffers c \<noteq> [] \<and> buffer_tail c = Some (length (buffers c) - 1) \<and>
     (\<forall>b\<in>set (buffers c). page_ok (raw_data b)) \<and> reserved (hd (buffers c)) = kSizeOfBufferChain \<and>
     (\<forall>b\<in>set (tl (buffers c)). reserved b = 0) \<and> buffer_offset c \<le> Buffer_size (last (buffers c)) \<and>
     (\<forall>page\<in>set (unused_pages c). page_ok page)"

definition chain_data :: "buffer_chain \<Rightarrow> byte list" where
  "chain_data c = concat (map Buffer_data (butlast (buffers c))) @ take (buffer_offset c) (Buffer_data (last (buffers c)))"

definition chain_room :: "buffer_chain \<Rightarrow> nat" where
  "chain_room c = (Buffer_size (last (buffers c)) - buffer_offset c) + length (unused_pages c) * kRawDataSize"

text \<open>The bytes of the first page below the data that was written.\<close>

definition chain_head :: "nat \<Rightarrow> buffer_chain \<Rightarrow> byte list" where
  "chain_head n c = take n (raw_data (hd (buffers c)))"

lemma size_data: "page_ok (raw_data b) \<Longrightarrow> reserved b \<le> kRawDataSize \<Longrightarrow> length (Buffer_data b) = Buffer_size b"
  by (simp add: page_ok_def Buffer_data_def Buffer_size_def)

lemma sizes: "kRawDataSize = 4080" "kSizeOfBufferChain = 56" "kContig = 4024"
  by (simp_all add: kRawDataSize_def kSizeOfBuffer_def kSizeOfBufferFields_def kSizeOfBufferChain_def kContig_def)

lemma chain_ok_reserved:
  assumes "chain_ok c" and "b \<in> set (buffers c)"
  shows "reserved b \<le> kSizeOfBufferChain" "page_ok (raw_data b)" "length (Buffer_data b) = Buffer_size b"
proof -
  show r: "reserved b \<le> kSizeOfBufferChain"
    using assms by (cases "buffers c") (auto simp: chain_ok_def)
  show p: "page_ok (raw_data b)" using assms by (simp add: chain_ok_def)
  show "length (Buffer_data b) = Buffer_size b" by (rule size_data [OF p]) (use r in \<open>simp add: sizes\<close>)
qed

lemma drop_overwrite: "r + p \<le> length xs \<Longrightarrow> drop r (overwrite xs (r + p) bs) = overwrite (drop r xs) p bs"
  by (simp add: overwrite_def drop_take ac_simps)

lemma take_overwrite_end: "p \<le> length xs \<Longrightarrow> n \<le> length bs \<Longrightarrow> take (p + n) (overwrite xs p bs) = take p xs @ take n bs"
  by (simp add: overwrite_def)

lemma take_overwrite_below: "m \<le> p \<Longrightarrow> p \<le> length xs \<Longrightarrow> take m (overwrite xs p bs) = take m xs"
  by (simp add: overwrite_def min_def)

lemma chain_split:
  assumes "chain_ok c"
  obtains bs b where "buffers c = bs @ [b]" "buffer_tail c = Some (length bs)" "buffer_offset c \<le> Buffer_size b"
    "page_ok (raw_data b)" "reserved b \<le> kSizeOfBufferChain" "length (Buffer_data b) = Buffer_size b" "bs = [] \<Longrightarrow> reserved b = kSizeOfBufferChain"
proof -
  obtain bs b where b: "buffers c = bs @ [b]" using assms by (metis chain_ok_def rev_exhaust)
  show thesis
    by (rule that [OF b]) (use assms b chain_ok_reserved [OF assms, of b] in \<open>auto simp: chain_ok_def\<close>)
qed

text \<open>A store into the last buffer, at the end of the data.\<close>

lemma store_last:
  assumes ok: "chain_ok c" and fit: "buffer_offset c + length bs \<le> Buffer_size (last (buffers c))"
    and i: "buffer_tail c = Some i"
    and c': "c' = (store_in i (buffer_offset c) bs c)\<lparr>buffer_offset := buffer_offset c + length bs\<rparr>"
  shows "chain_ok c'" "chain_data c' = chain_data c @ bs" "unused_pages c' = unused_pages c"
    "chain_room c' + length bs = chain_room c" "Buffer_size (last (buffers c')) = Buffer_size (last (buffers c))"
    "m \<le> kSizeOfBufferChain + length (chain_data c) \<Longrightarrow> chain_head m c' = chain_head m c"
    "buffer_offset c' = buffer_offset c + length bs" "buffer_tail c' = Some i" "length (buffers c') = length (buffers c)"
proof -
  obtain xs b where b: "buffers c = xs @ [b]" "buffer_tail c = Some (length xs)" "buffer_offset c \<le> Buffer_size b"
    "page_ok (raw_data b)" "reserved b \<le> kSizeOfBufferChain" "length (Buffer_data b) = Buffer_size b" "xs = [] \<Longrightarrow> reserved b = kSizeOfBufferChain"
    by (rule chain_split [OF ok]) blast
  let ?p = "reserved b + buffer_offset c"
  define b' where "b' = b\<lparr>raw_data := overwrite (raw_data b) ?p bs\<rparr>"
  have sz: "length (raw_data b) = 4080" "reserved b \<le> 56" "buffer_offset c + length bs \<le> 4080 - reserved b"
    using b(1,4,5) fit by (simp_all add: page_ok_def sizes Buffer_size_def)
  have "i = length xs" using i b(2) by simp
  then have bufs: "buffers c' = xs @ [b']" using b(1) by (auto simp: c' store_in_def b'_def)
  have data: "Buffer_data b' = overwrite (Buffer_data b) (buffer_offset c) bs"
    using sz by (simp add: b'_def Buffer_data_def drop_overwrite)
  have b': "reserved b' = reserved b" "Buffer_size b' = Buffer_size b" "page_ok (raw_data b')"
    using b(4) sz by (simp_all add: b'_def Buffer_size_def page_ok_def range_simps)
  show "unused_pages c' = unused_pages c" "buffer_offset c' = buffer_offset c + length bs" "buffer_tail c' = Some i"
    using i by (simp_all add: c' store_in_def)
  show "Buffer_size (last (buffers c')) = Buffer_size (last (buffers c))" "length (buffers c') = length (buffers c)"
    using bufs b(1) b'(2) by simp_all
  show "chain_ok c'"
    using ok b(1,2) b' bufs i fit by (cases xs) (auto simp: chain_ok_def c' store_in_def)
  show "chain_data c' = chain_data c @ bs"
    using bufs b(1,3,6) data take_overwrite_end [of "buffer_offset c" "Buffer_data b" "length bs" bs]
    by (simp add: chain_data_def c')
  show "chain_room c' + length bs = chain_room c" using bufs b(1) b'(2) fit by (simp add: chain_room_def c' store_in_def)
  show "chain_head m c' = chain_head m c" if "m \<le> kSizeOfBufferChain + length (chain_data c)"
  proof (cases xs)
    case Nil
    then have "length (chain_data c) = buffer_offset c" using b(1,3,6) by (simp add: chain_data_def)
    then have "m \<le> ?p" using that b(7) Nil by simp
    then show ?thesis using Nil bufs b(1) sz by (simp add: chain_head_def b'_def take_overwrite_below)
  qed (use bufs b(1) in \<open>simp add: chain_head_def\<close>)
qed

text \<open>Going on to the next page when the last one is full.\<close>

lemma next_buffer:
  assumes ok: "chain_ok c" and full: "buffer_offset c = Buffer_size (last (buffers c))" and i: "buffer_tail c = Some i"
    and page: "unused_pages c = page # rest"
    and c': "c' = c\<lparr>unused_pages := rest, buffers := buffers c @ [\<lparr>reserved = 0, raw_data = page\<rparr>], buffer_offset := 0, buffer_tail := Some (i + 1)\<rparr>"
  shows "chain_ok c'" "chain_data c' = chain_data c" "chain_room c' = chain_room c" "chain_head m c' = chain_head m c"
proof -
  obtain xs b where b: "buffers c = xs @ [b]" "buffer_tail c = Some (length xs)" "buffer_offset c \<le> Buffer_size b"
    "page_ok (raw_data b)" "reserved b \<le> kSizeOfBufferChain" "length (Buffer_data b) = Buffer_size b" "xs = [] \<Longrightarrow> reserved b = kSizeOfBufferChain"
    by (rule chain_split [OF ok]) blast
  show "chain_ok c'" using ok b(1,2) i page by (cases xs) (auto simp: chain_ok_def c')
  show "chain_data c' = chain_data c" using b(1,6) full by (simp add: chain_data_def c' butlast_append)
  show "chain_room c' = chain_room c" using b(1) full page by (simp add: chain_room_def c' Buffer_size_def)
  show "chain_head m c' = chain_head m c" using b(1) by (simp add: chain_head_def c' hd_append)
qed

lemma append_loop_ok:
  assumes "view_of buf src" and "chain_ok c" and "buffer_tail c = Some i" and "append_loop src p rem i c = (ZX_OK, c')"
  shows "chain_ok c' \<and> chain_data c' = chain_data c @ bytes_at buf p rem \<and> p + rem \<le> length buf \<and> chain_room c' + rem = chain_room c \<and>
    (\<forall>m. m \<le> kSizeOfBufferChain + length (chain_data c) \<longrightarrow> chain_head m c' = chain_head m c)"
  using assms
proof (induction "length (unused_pages c)" arbitrary: p rem i c rule: less_induct)
  case less
  define n where "n = min rem (Buffer_size (buffers c ! i) - buffer_offset c)"
  define bs where "bs = uc_bytes (src p n)"
  define c2 where "c2 = (store_in i (buffer_offset c) bs c)\<lparr>buffer_offset := buffer_offset c + n\<rparr>"
  have st: "uc_status (src p n) = ZX_OK"
  proof (rule ccontr)
    assume "uc_status (src p n) \<noteq> ZX_OK"
    then show False using less(5) by (simp add: append_loop.simps [of src p rem] n_def [symmetric] Let_def)
  qed
  then have bs: "p + n \<le> length buf" "bs = bytes_at buf p n" "length bs = n"
    using view_of_ok [OF less(2)] by (simp_all add: bs_def range_simps)
  have last: "last (buffers c) = buffers c ! i" using less(3,4) by (auto simp: chain_ok_def last_conv_nth)
  have fit: "buffer_offset c + length bs \<le> Buffer_size (last (buffers c))"
    using less(3) bs(3) last by (auto simp: n_def chain_ok_def min_def)
  note s = store_last [OF less(3) fit less(4), of c2, unfolded bs(3), OF c2_def]
  show ?case
  proof (cases "rem - n = 0")
    case True
    have "n = rem" using True by (simp add: n_def min_def split: if_splits)
    moreover have "c' = c2"
      using True less(5) st by (simp_all add: append_loop.simps [of src p rem] n_def [symmetric] Let_def bs_def [symmetric] c2_def store_in_def)
    ultimately show ?thesis using s bs by simp
  next
    case False
    have full: "buffer_offset c2 = Buffer_size (last (buffers c2))"
      using False s(5,7) last less(3) by (auto simp: n_def chain_ok_def min_def split: if_splits)
    have call: "append_loop src p rem i c = (case AddNextBuffer c2 of (status, c3) \<Rightarrow>
        if status \<noteq> ZX_OK then (status, c3\<lparr>buffer_tail := None\<rparr>)
        else append_loop src (p + n) (rem - n) (i + 1) (c3\<lparr>buffer_offset := 0, buffer_tail := Some (i + 1)\<rparr>))"
      using False st by (simp add: append_loop.simps [of src p rem] n_def [symmetric] Let_def bs_def [symmetric] c2_def store_in_def)
    obtain page rest where page: "unused_pages c2 = page # rest"
      using less(5) call by (cases "unused_pages c2") (simp_all add: AddNextBuffer_def)
    define c4 where "c4 = c2\<lparr>unused_pages := rest, buffers := buffers c2 @ [\<lparr>reserved = 0, raw_data = page\<rparr>],
      buffer_offset := 0, buffer_tail := Some (i + 1)\<rparr>"
    note nx = next_buffer [OF s(1) full s(8) page c4_def]
    have go: "append_loop src (p + n) (rem - n) (i + 1) c4 = (ZX_OK, c')"
      using less(5) call page by (simp add: AddNextBuffer_def c4_def)
    have "chain_ok c' \<and> chain_data c' = chain_data c4 @ bytes_at buf (p + n) (rem - n) \<and> p + n + (rem - n) \<le> length buf \<and>
      chain_room c' + (rem - n) = chain_room c4 \<and>
      (\<forall>m. m \<le> kSizeOfBufferChain + length (chain_data c4) \<longrightarrow> chain_head m c' = chain_head m c4)"
      by (rule less(1) [OF _ less(2) nx(1) _ go]) (use page s(3) in \<open>simp_all add: c4_def\<close>)
    then have IH: "chain_ok c'" "chain_data c' = chain_data c4 @ bytes_at buf (p + n) (rem - n)" "p + n + (rem - n) \<le> length buf"
      "chain_room c' + (rem - n) = chain_room c4"
      "\<And>m. m \<le> kSizeOfBufferChain + length (chain_data c4) \<Longrightarrow> chain_head m c' = chain_head m c4" by blast+
    have "chain_room c' + rem = chain_room c" using IH(4) nx(3) s(4) False by linarith
    moreover have "chain_head m c' = chain_head m c" if "m \<le> kSizeOfBufferChain + length (chain_data c)" for m
      using IH(5) [of m] nx(2,4) s(2,6) that by simp
    ultimately show ?thesis using IH(1,2,3) nx(2) s(2) bs False bytes_at_append [of buf p n "rem - n"] by simp
  qed
qed

text \<open>With memory that can be read, appending fails only for lack of room.\<close>

lemma append_loop_total:
  assumes "chain_ok c" and "buffer_tail c = Some i" and "rem \<le> chain_room c" and "p + rem \<le> length buf"
  shows "fst (append_loop (user_buf buf) p rem i c) = ZX_OK"
  using assms
proof (induction "length (unused_pages c)" arbitrary: p rem i c rule: less_induct)
  case less
  let ?src = "user_buf buf"
  define n where "n = min rem (Buffer_size (buffers c ! i) - buffer_offset c)"
  define bs where "bs = uc_bytes (?src p n)"
  define c2 where "c2 = (store_in i (buffer_offset c) bs c)\<lparr>buffer_offset := buffer_offset c + n\<rparr>"
  have n: "p + n \<le> length buf" using less(5) by (simp add: n_def min_def)
  have st: "uc_status (?src p n) = ZX_OK" and bs: "length bs = n" using n by (simp_all add: user_buf_ok bs_def range_simps)
  have last: "last (buffers c) = buffers c ! i" using less(2,3) by (auto simp: chain_ok_def last_conv_nth)
  have fit: "buffer_offset c + length bs \<le> Buffer_size (last (buffers c))"
    using less(2) bs last by (auto simp: n_def chain_ok_def min_def)
  note s = store_last [OF less(2) fit less(3), of c2, unfolded bs, OF c2_def]
  show ?case
  proof (cases "rem - n = 0")
    case True
    then show ?thesis using st by (simp add: append_loop.simps [of _ p rem] n_def [symmetric] Let_def)
  next
    case False
    have full: "buffer_offset c2 = Buffer_size (last (buffers c2))"
      using False s(5,7) last less(2) by (auto simp: n_def chain_ok_def min_def split: if_splits)
    have "rem - n \<le> chain_room c2" using less(4) s(4) by linarith
    then have "unused_pages c2 \<noteq> []" using full False by (auto simp: chain_room_def)
    then obtain page rest where page: "unused_pages c2 = page # rest" by (cases "unused_pages c2") auto
    define c4 where "c4 = c2\<lparr>unused_pages := rest, buffers := buffers c2 @ [\<lparr>reserved = 0, raw_data = page\<rparr>],
      buffer_offset := 0, buffer_tail := Some (i + 1)\<rparr>"
    note nx = next_buffer [OF s(1) full s(8) page c4_def]
    have call: "append_loop ?src p rem i c = append_loop ?src (p + n) (rem - n) (i + 1) c4"
      using False st page
      by (simp add: append_loop.simps [of _ p rem] n_def [symmetric] Let_def bs_def [symmetric] c2_def store_in_def AddNextBuffer_def c4_def)
    have "fst (append_loop ?src (p + n) (rem - n) (i + 1) c4) = ZX_OK"
      by (rule less(1)) (use nx(1,3) page s(3,4) less(4,5) False in \<open>simp_all add: c4_def\<close>)
    then show ?thesis using call by simp
  qed
qed

lemma Append_ok:
  assumes "view_of buf src" and "chain_ok c" and "Append src n c = (ZX_OK, c')"
  shows "chain_ok c'" "chain_data c' = chain_data c @ bytes_at buf 0 n" "chain_room c' + n = chain_room c" "0 < n \<Longrightarrow> n \<le> length buf"
    "m \<le> kSizeOfBufferChain + length (chain_data c) \<Longrightarrow> chain_head m c' = chain_head m c"
proof -
  have "chain_ok c' \<and> chain_data c' = chain_data c @ bytes_at buf 0 n \<and> (0 < n \<longrightarrow> n \<le> length buf) \<and> chain_room c' + n = chain_room c \<and>
    (\<forall>m. m \<le> kSizeOfBufferChain + length (chain_data c) \<longrightarrow> chain_head m c' = chain_head m c)"
  proof (cases "n = 0")
    case True
    then show ?thesis using assms by (simp add: Append_def AppendCommon_def bytes_at_def)
  next
    case False
    obtain i where i: "buffer_tail c = Some i" using assms(2) by (simp add: chain_ok_def)
    have "append_loop src 0 n i c = (ZX_OK, c')" using assms(3) False i by (simp add: Append_def AppendCommon_def)
    from append_loop_ok [OF assms(1,2) i this] show ?thesis by simp
  qed
  then show "chain_ok c'" "chain_data c' = chain_data c @ bytes_at buf 0 n" "chain_room c' + n = chain_room c" "0 < n \<Longrightarrow> n \<le> length buf"
    "m \<le> kSizeOfBufferChain + length (chain_data c) \<Longrightarrow> chain_head m c' = chain_head m c" by blast+
qed

lemma Append_total:
  assumes "chain_ok c" and "n \<le> chain_room c" and "n \<le> length buf"
  obtains c' where "Append (user_buf buf) n c = (ZX_OK, c')"
proof (cases "n = 0")
  case True
  then show thesis using that by (simp add: Append_def AppendCommon_def)
next
  case False
  obtain i where i: "buffer_tail c = Some i" using assms(1) by (simp add: chain_ok_def)
  have "fst (append_loop (user_buf buf) 0 n i c) = ZX_OK" by (rule append_loop_total [OF assms(1) i assms(2)]) (use assms(3) in simp)
  then show thesis using that False i by (cases "append_loop (user_buf buf) 0 n i c") (simp add: Append_def AppendCommon_def)
qed

lemma BufferChain_Alloc_ok:
  assumes cache: "page_cache_ok cache" and c: "BufferChain_Alloc cache sz = Some c"
  shows "chain_ok c" "chain_data c = []" "buffer_offset c = 0" "length (buffers c) = 1"
    "chain_room c = (sz + kSizeOfBufferChain + kRawDataSize - 1) div kRawDataSize * kRawDataSize - kSizeOfBufferChain"
proof -
  define n where "n = (sz + kSizeOfBufferChain + kRawDataSize - 1) div kRawDataSize"
  obtain page rest where pages: "cache n = Some (page # rest)" and
    ceq: "c = \<lparr>buffers = [\<lparr>reserved = kSizeOfBufferChain, raw_data = page\<rparr>], buffer_tail = Some 0, buffer_offset = 0, unused_pages = rest\<rparr>"
    using c by (auto simp: BufferChain_Alloc_def n_def Let_def AddNextBuffer_def split: option.splits list.splits)
  have "length (page # rest) = n \<and> (\<forall>q\<in>set (page # rest). page_ok q)" using cache pages unfolding page_cache_ok_def by blast
  then have len: "length rest + 1 = n" "page_ok page" "\<forall>q\<in>set rest. page_ok q" by simp_all
  show "chain_ok c" using len by (simp add: ceq chain_ok_def)
  show "chain_data c = []" "buffer_offset c = 0" "length (buffers c) = 1" by (simp_all add: ceq chain_data_def)
  have "chain_room c = n * kRawDataSize - kSizeOfBufferChain"
    unfolding len(1) [symmetric] by (simp add: ceq chain_room_def Buffer_size_def sizes)
  then show "chain_room c = (sz + kSizeOfBufferChain + kRawDataSize - 1) div kRawDataSize * kRawDataSize - kSizeOfBufferChain"
    by (simp add: n_def)
qed

lemma ceil_room: "(sz :: nat) + 56 \<le> (sz + 56 + 4080 - 1) div 4080 * 4080"
  using div_mult_mod_eq [of "sz + 56 + 4080 - 1" 4080] mod_less_divisor [of 4080 "sz + 56 + 4080 - 1"] by linarith

definition message_room :: "nat \<Rightarrow> nat \<Rightarrow> nat" where
  "message_room data_size num_handles =
     (PayloadOffset num_handles + data_size + kSizeOfBufferChain + kRawDataSize - 1) div kRawDataSize * kRawDataSize
       - kSizeOfBufferChain - PayloadOffset num_handles"

lemma message_room_enough: "data_size \<le> message_room data_size num_handles"
  using ceil_room [of "PayloadOffset num_handles + data_size"] by (simp add: message_room_def sizes)

text \<open>The payload of a message, and what is true of every message that was created.\<close>

definition msg_data :: "message_packet \<Rightarrow> byte list" where
  "msg_data msg = drop (mp_payload_offset msg) (chain_data (mp_chain msg))"

definition msg_shape :: "message_packet \<Rightarrow> bool" where
  "msg_shape msg \<longleftrightarrow> chain_ok (mp_chain msg) \<and> mp_payload_offset msg = PayloadOffset (mp_num_handles msg) \<and>
     mp_num_handles msg \<le> kMaxMessageHandles \<and> length (mp_handles msg) = mp_num_handles msg \<and>
     mp_payload_offset msg \<le> length (chain_data (mp_chain msg))"

lemma payload_offset_le: "n \<le> kMaxMessageHandles \<Longrightarrow> PayloadOffset n + 4 \<le> kContig"
  by (simp add: PayloadOffset_def kMaxMessageHandles_def kHandlesOffset_def sizes)

lemma CreateCommon_ok:
  assumes cache: "page_cache_ok cache" and msg: "CreateCommon cache data_size num_handles = Inr msg"
  shows "msg_shape msg" "msg_data msg = []" "chain_room (mp_chain msg) = message_room data_size num_handles"
    "mp_data_size msg = data_size" "mp_num_handles msg = num_handles" "data_size \<le> kMaxMessageSize"
    "length (chain_data (mp_chain msg)) = mp_payload_offset msg"
proof -
  let ?off = "PayloadOffset num_handles"
  obtain c where c: "BufferChain_Alloc cache (?off + data_size) = Some c" and le: "data_size \<le> kMaxMessageSize" "num_handles \<le> kMaxMessageHandles"
    and m: "msg = \<lparr>mp_chain = Skip ?off c, mp_handles = replicate num_handles None, mp_data_size = data_size,
      mp_payload_offset = ?off, mp_num_handles = num_handles, mp_owns_handles = False\<rparr>"
    using msg by (auto simp: CreateCommon_def Let_def split: if_splits option.splits)
  note ok = BufferChain_Alloc_ok [OF cache c]
  obtain b where b: "buffers c = [b]" using ok(4) by (auto simp: length_Suc_conv)
  have res: "reserved b = kSizeOfBufferChain" "length (Buffer_data b) = Buffer_size b"
    using ok(1) b chain_ok_reserved(3) [OF ok(1), of b] by (simp_all add: chain_ok_def)
  have off: "?off \<le> Buffer_size b" using payload_offset_le [OF le(2)] res(1) by (simp add: Buffer_size_def sizes)
  have skip: "chain_ok (Skip ?off c)" using ok(1,3) b off by (simp add: chain_ok_def Skip_def)
  show len: "length (chain_data (mp_chain msg)) = mp_payload_offset msg"
    using b off ok(3) res(2) by (simp add: m chain_data_def Skip_def)
  show "msg_shape msg" using skip le(2) len by (simp add: msg_shape_def m)
  show "msg_data msg = []" using len by (simp add: msg_data_def)
  show "chain_room (mp_chain msg) = message_room data_size num_handles"
    using ok(3,5) b off by (simp add: m chain_room_def Skip_def message_room_def)
  show "mp_data_size msg = data_size" "mp_num_handles msg = num_handles" "data_size \<le> kMaxMessageSize" using le by (simp_all add: m)
qed

lemma append_to_ok:
  assumes view: "view_of buf src" and shape: "msg_shape msg" and call: "append_to src n msg = Inr msg'"
  shows "msg_shape msg'" "msg_data msg' = msg_data msg @ bytes_at buf 0 n" "chain_room (mp_chain msg') + n = chain_room (mp_chain msg)"
    "mp_data_size msg' = mp_data_size msg" "mp_num_handles msg' = mp_num_handles msg" "0 < n \<Longrightarrow> n \<le> length buf"
    "chain_head (kSizeOfBufferChain + mp_payload_offset msg) (mp_chain msg') = chain_head (kSizeOfBufferChain + mp_payload_offset msg) (mp_chain msg)"
    "mp_payload_offset msg' = mp_payload_offset msg"
proof -
  obtain c' where c': "Append src n (mp_chain msg) = (ZX_OK, c')" "msg' = msg\<lparr>mp_chain := c'\<rparr>"
    using call by (auto simp: append_to_def split: prod.splits if_splits)
  have ok: "chain_ok (mp_chain msg)" and le: "mp_payload_offset msg \<le> length (chain_data (mp_chain msg))" using shape by (simp_all add: msg_shape_def)
  note a = Append_ok [OF view ok c'(1)]
  show "msg_shape msg'" "msg_data msg' = msg_data msg @ bytes_at buf 0 n" using shape a(1,2) le by (simp_all add: msg_shape_def msg_data_def c'(2))
  show "chain_room (mp_chain msg') + n = chain_room (mp_chain msg)" "0 < n \<Longrightarrow> n \<le> length buf" using a(3,4) by (simp_all add: c'(2))
  show "chain_head (kSizeOfBufferChain + mp_payload_offset msg) (mp_chain msg') = chain_head (kSizeOfBufferChain + mp_payload_offset msg) (mp_chain msg)"
    using a(5) le by (simp add: c'(2))
qed (use call in \<open>auto simp: append_to_def split: prod.splits if_splits\<close>)

section \<open>Reading a message\<close>

lemma copy_out_loop_ok:
  assumes "user_out_wf dst" and "\<forall>b\<in>set bs. length (Buffer_data b) = Buffer_size b"
    and "bs \<noteq> [] \<Longrightarrow> off \<le> Buffer_size (hd bs)" and "copy_out_loop dst p off rem bs = (ZX_OK, out)"
  shows "out = take rem (drop off (concat (map Buffer_data bs)))"
  using assms
proof (induction bs arbitrary: p off rem out)
  case Nil
  then show ?case by simp
next
  case (Cons b bs)
  let ?n = "min rem (Buffer_size b - off)"
  have len: "length (Buffer_data b) = Buffer_size b" and off: "off \<le> Buffer_size b" using Cons.prems(2,3) by simp_all
  show ?case
  proof (cases "rem = 0")
    case True
    then show ?thesis using Cons.prems(4) by simp
  next
    case False
    let ?bs = "bytes_at (Buffer_data b) off ?n"
    obtain rest where rest: "uc_status (dst p ?bs) = ZX_OK" "copy_out_loop dst (p + ?n) 0 (rem - ?n) bs = (ZX_OK, rest)"
      "out = uc_bytes (dst p ?bs) @ rest"
      using Cons.prems(4) False by (auto simp: Let_def split: if_splits prod.splits)
    have "rest = take (rem - ?n) (concat (map Buffer_data bs))"
      using Cons.IH [OF Cons.prems(1) _ _ rest(2)] Cons.prems(2) by simp
    moreover have "uc_bytes (dst p ?bs) = ?bs" by (rule user_out_wf_bytes [OF Cons.prems(1) rest(1)])
    moreover have "take rem (drop off (Buffer_data b)) = ?bs" using len by (simp add: bytes_at_def min_def)
    ultimately show ?thesis using rest(3) len off by (simp add: min_def)
  qed
qed

lemma chain_data_prefix: "chain_ok c \<Longrightarrow> \<exists>rest. concat (map Buffer_data (buffers c)) = chain_data c @ rest"
proof -
  assume ok: "chain_ok c"
  obtain xs b where "buffers c = xs @ [b]" using ok by (metis chain_ok_def rev_exhaust)
  then show ?thesis by (intro exI [of _ "drop (buffer_offset c) (Buffer_data b)"]) (simp add: chain_data_def)
qed

lemma CopyOut_ok:
  assumes dst: "user_out_wf dst" and ok: "chain_ok c" and off: "off \<le> kContig" "off + n \<le> length (chain_data c)"
    and call: "CopyOut dst off n c = (ZX_OK, out)"
  shows "out = bytes_at (chain_data c) off n"
proof -
  have hd: "buffers c \<noteq> [] \<Longrightarrow> off \<le> Buffer_size (hd (buffers c))"
    using ok off(1) by (simp add: chain_ok_def Buffer_size_def sizes)
  have "out = take n (drop off (concat (map Buffer_data (buffers c))))"
    by (rule copy_out_loop_ok [OF dst _ hd call [unfolded CopyOut_def]]) (use chain_ok_reserved(3) [OF ok] in auto)
  then show ?thesis using chain_data_prefix [OF ok] off(2) by (auto simp: bytes_at_def)
qed

lemma copy_out_loop_total:
  "p + rem \<le> m \<Longrightarrow> fst (copy_out_loop (user_sink m) p off rem bs) = ZX_OK"
proof (induction bs arbitrary: p off rem)
  case (Cons b bs)
  let ?n = "min rem (Buffer_size b - off)"
  have "length (bytes_at (Buffer_data b) off ?n) \<le> ?n" unfolding bytes_at_def length_take by (rule min.cobounded2)
  then have fit: "p + length (bytes_at (Buffer_data b) off ?n) \<le> m" using Cons.prems by linarith
  have "fst (copy_out_loop (user_sink m) (p + ?n) 0 (rem - ?n) bs) = ZX_OK" by (rule Cons.IH) (use Cons.prems in linarith)
  then show ?case using user_sink_ok [OF fit] by (simp add: Let_def case_prod_unfold)
qed simp

text \<open>Reading a message gives its payload, if the user's memory allows it.\<close>

lemma CopyDataTo_ok:
  assumes shape: "msg_shape msg" and len: "length (msg_data msg) = mp_data_size msg"
  shows "user_out_wf dst \<Longrightarrow> CopyDataTo dst msg = (ZX_OK, out) \<Longrightarrow> out = msg_data msg"
    and "mp_data_size msg \<le> m \<Longrightarrow> CopyDataTo (user_sink m) msg = (ZX_OK, msg_data msg)"
proof -
  let ?off = "mp_payload_offset msg"
  have ok: "chain_ok (mp_chain msg)" and le: "?off \<le> length (chain_data (mp_chain msg))" and contig: "?off \<le> kContig"
    using shape payload_offset_le [of "mp_num_handles msg"] by (auto simp: msg_shape_def)
  have sz: "?off + mp_data_size msg = length (chain_data (mp_chain msg))" using len le by (simp add: msg_data_def)
  have all: "bytes_at (chain_data (mp_chain msg)) ?off (mp_data_size msg) = msg_data msg"
    using sz by (simp add: bytes_at_def msg_data_def)
  show r: "out = msg_data msg" if "user_out_wf dst" "CopyDataTo dst msg = (ZX_OK, out)" for dst out
    using CopyOut_ok [OF that(1) ok contig _ that(2) [unfolded CopyDataTo_def]] sz all by simp
  show "CopyDataTo (user_sink m) msg = (ZX_OK, msg_data msg)" if "mp_data_size msg \<le> m"
  proof -
    have "fst (CopyDataTo (user_sink m) msg) = ZX_OK"
      unfolding CopyDataTo_def CopyOut_def by (rule copy_out_loop_total) (use that in simp)
    then obtain out where "CopyDataTo (user_sink m) msg = (ZX_OK, out)" by (cases "CopyDataTo (user_sink m) msg") simp
    then show ?thesis using r [OF user_sink_wf] by simp
  qed
qed

section \<open>Arrays of buffers\<close>

text \<open>An entry that names readable memory, and an array of them.\<close>

definition iov_of :: "byte list \<Rightarrow> zx_channel_iovec" where
  "iov_of d = \<lparr>iov_buffer = user_buf d, iov_capacity = of_nat (length d), iov_reserved = 0\<rparr>"

lemma iov_of_reserved [simp]: "iov_reserved (iov_of d) = 0"
  by (simp add: iov_of_def)

definition iovs_of :: "byte list list \<Rightarrow> user_iovecs" where
  "iovs_of ds k n = Inr (take n (drop k (map iov_of ds)))"

abbreviation total_size :: "byte list list \<Rightarrow> nat" where
  "total_size ds \<equiv> length (concat ds)"

definition same_header :: "message_packet \<Rightarrow> message_packet \<Rightarrow> bool" where
  "same_header msg msg' \<longleftrightarrow> mp_data_size msg' = mp_data_size msg \<and> mp_num_handles msg' = mp_num_handles msg"

lemma append_iov:
  assumes shape: "msg_shape msg" and room: "length d \<le> chain_room (mp_chain msg)" and small: "length d < 2 ^ 32"
  obtains msg' where "append_to (iov_buffer (iov_of d)) (unat (iov_capacity (iov_of d))) msg = Inr msg'" "msg_shape msg'"
    "msg_data msg' = msg_data msg @ d" "chain_room (mp_chain msg') + length d = chain_room (mp_chain msg)" "same_header msg msg'"
proof -
  have ok: "chain_ok (mp_chain msg)" using shape by (simp add: msg_shape_def)
  have cap: "unat (iov_capacity (iov_of d)) = length d" using small by (simp add: iov_of_def unat_of_nat_u32)
  obtain c' where c': "Append (user_buf d) (length d) (mp_chain msg) = (ZX_OK, c')" by (rule Append_total [OF ok room order_refl])
  then have call: "append_to (user_buf d) (length d) msg = Inr (msg\<lparr>mp_chain := c'\<rparr>)" by (simp add: append_to_def)
  note a = append_to_ok [OF user_buf_view shape call]
  show thesis
    by (rule that [of "msg\<lparr>mp_chain := c'\<rparr>"])
      (use call cap a(1-3) in \<open>simp_all add: iov_of_def same_header_def bytes_at_all\<close>)
qed

lemma append_iovecs_ok:
  assumes "msg_shape msg" and "total_size ds \<le> chain_room (mp_chain msg)" and "\<forall>d\<in>set ds. length d < 2 ^ 32"
  shows "\<exists>msg'. append_iovecs (map iov_of ds) msg = Inr msg' \<and> append_chunk (map iov_of ds) n msg = Inr (n + total_size ds, msg') \<and>
    msg_shape msg' \<and> msg_data msg' = msg_data msg @ concat ds \<and>
    chain_room (mp_chain msg') + total_size ds = chain_room (mp_chain msg) \<and> same_header msg msg'"
  using assms
proof (induction ds arbitrary: msg n)
  case Nil
  then show ?case by (simp add: same_header_def)
next
  case (Cons d ds)
  obtain m1 where m1: "append_to (iov_buffer (iov_of d)) (unat (iov_capacity (iov_of d))) msg = Inr m1" "msg_shape m1"
    "msg_data m1 = msg_data msg @ d" "chain_room (mp_chain m1) + length d = chain_room (mp_chain msg)" "same_header msg m1"
    by (rule append_iov [OF Cons.prems(1), of d]) (use Cons.prems in simp_all)
  have cap: "unat (iov_capacity (iov_of d)) = length d" using Cons.prems(3) by (simp add: iov_of_def unat_of_nat_u32)
  have "total_size ds \<le> chain_room (mp_chain m1)" using Cons.prems(2) m1(4) by simp
  then obtain m2 where "append_iovecs (map iov_of ds) m1 = Inr m2" "append_chunk (map iov_of ds) (n + length d) m1 = Inr (n + length d + total_size ds, m2)"
    "msg_shape m2" "msg_data m2 = msg_data m1 @ concat ds" "chain_room (mp_chain m2) + total_size ds = chain_room (mp_chain m1)" "same_header m1 m2"
    using Cons.IH [OF m1(2), of "n + length d"] Cons.prems(3) by auto
  then show ?case using m1 cap by (intro exI [of _ m2]) (simp add: same_header_def)
qed

lemma append_chunks_ok:
  assumes "msg_shape msg" and "total_size (drop k ds) \<le> chain_room (mp_chain msg)" and "\<forall>d\<in>set ds. length d < 2 ^ 32"
    and "n = length ds - k"
  shows "\<exists>msg'. append_chunks (iovs_of ds) k n s msg = Inr (s + total_size (drop k ds), msg') \<and>
    msg_shape msg' \<and> msg_data msg' = msg_data msg @ concat (drop k ds) \<and> same_header msg msg'"
  using assms
proof (induction n arbitrary: k s msg rule: less_induct)
  case (less n)
  show ?case
  proof (cases "n = 0")
    case True
    then show ?thesis using less(2,5) by (simp add: append_chunks.simps [of _ _ 0] same_header_def)
  next
    case False
    define j where "j = min n kIovecChunkSize"
    have j: "0 < j" "j \<le> n" using False by (simp_all add: j_def kIovecChunkSize_def)
    define now where "now = take j (drop k ds)"
    have cat: "concat (drop k ds) = concat now @ concat (drop (k + j) ds)"
      unfolding now_def concat_append [symmetric] add.commute [of k j] drop_drop [symmetric] append_take_drop_id ..
    have "set now \<subseteq> set ds" unfolding now_def by (meson order_trans set_drop_subset set_take_subset)
    then have "total_size now \<le> chain_room (mp_chain msg)" "\<forall>d\<in>set now. length d < 2 ^ 32"
      using less(3,4) unfolding cat by auto
    then obtain m1 where m1: "append_chunk (map iov_of now) s msg = Inr (s + total_size now, m1)" "msg_shape m1"
      "msg_data m1 = msg_data msg @ concat now" "chain_room (mp_chain m1) + total_size now = chain_room (mp_chain msg)" "same_header msg m1"
      using append_iovecs_ok [OF less(2), of now s] by blast
    have "total_size (drop (k + j) ds) \<le> chain_room (mp_chain m1)" using less(3) m1(4) unfolding cat by simp
    moreover have "n - j < n" "n - j = length ds - (k + j)" using j less(5) by simp_all
    ultimately obtain m2 where m2: "append_chunks (iovs_of ds) (k + j) (n - j) (s + total_size now) m1 = Inr (s + total_size now + total_size (drop (k + j) ds), m2)"
      "msg_shape m2" "msg_data m2 = msg_data m1 @ concat (drop (k + j) ds)" "same_header m1 m2"
      using less(1) [of "n - j" m1 "k + j" "s + total_size now"] m1(2) less(4) by blast
    have "append_chunks (iovs_of ds) k n s msg = append_chunks (iovs_of ds) (k + j) (n - j) (s + total_size now) m1"
      using False m1(1)
      by (simp add: append_chunks.simps [of _ k n] j_def [symmetric] Let_def iovs_of_def now_def take_map drop_map)
    then show ?thesis using m1 m2 unfolding cat by (intro exI [of _ m2]) (simp add: same_header_def)
  qed
qed

lemma chain_FreeUnused:
  "chain_ok c \<Longrightarrow> chain_ok (FreeUnusedBuffers c)" "chain_data (FreeUnusedBuffers c) = chain_data c"
  by (simp_all add: chain_ok_def FreeUnusedBuffers_def chain_data_def)

lemma CreateCommon_total:
  assumes "\<And>k. cache k \<noteq> None" and "page_cache_ok cache" and "n \<le> kMaxMessageSize" and "nh \<le> kMaxMessageHandles"
  obtains msg where "CreateCommon cache n nh = Inr msg"
proof -
  let ?k = "(PayloadOffset nh + n + kSizeOfBufferChain + kRawDataSize - 1) div kRawDataSize"
  obtain pages where pages: "cache ?k = Some pages" using assms(1) by (meson not_Some_eq)
  then have "length pages = ?k" using assms(2) by (simp add: page_cache_ok_def)
  moreover have "?k \<noteq> 0" by (simp add: sizes div_eq_0_iff)
  ultimately obtain page rest where "pages = page # rest" by (cases pages) auto
  then show thesis using that pages assms(3,4) by (simp add: CreateCommon_def BufferChain_Alloc_def AddNextBuffer_def Let_def)
qed

lemma create_message:
  assumes cache: "page_cache_ok cache" and view: "view_of buf src" and create: "MessagePacket_Create cache src n nh = Inr msg"
  shows "mp_data_size msg = n" "n \<le> kMaxMessageSize" "mp_num_handles msg = nh"
    "user_out_wf dst \<Longrightarrow> CopyDataTo dst msg = (ZX_OK, out) \<Longrightarrow> out = bytes_at buf 0 n"
    "n \<le> m \<Longrightarrow> CopyDataTo (user_sink m) msg = (ZX_OK, bytes_at buf 0 n)"
    "\<exists>new_msg. CreateCommon cache n nh = Inr new_msg \<and>
       chain_head (kSizeOfBufferChain + PayloadOffset nh) (mp_chain msg) = chain_head (kSizeOfBufferChain + PayloadOffset nh) (mp_chain new_msg)"
proof -
  obtain m0 where m0: "CreateCommon cache n nh = Inr m0" and app: "append_to src n m0 = Inr msg"
    using create by (auto simp: MessagePacket_Create_def split: sum.splits)
  note c = CreateCommon_ok [OF cache m0] and a = append_to_ok [OF view CreateCommon_ok(1) [OF cache m0] app]
  have off: "mp_payload_offset m0 = PayloadOffset nh" using c(1,5) by (simp add: msg_shape_def)
  have data: "msg_data msg = bytes_at buf 0 n" using a(2) c(2) by simp
  have len: "length (msg_data msg) = mp_data_size msg" using a(4,6) c(4) data by (cases "n = 0") (simp_all add: bytes_at_def)
  show "mp_data_size msg = n" "n \<le> kMaxMessageSize" "mp_num_handles msg = nh" using a(4,5) c(4,5,6) by simp_all
  then show "user_out_wf dst \<Longrightarrow> CopyDataTo dst msg = (ZX_OK, out) \<Longrightarrow> out = bytes_at buf 0 n"
    "n \<le> m \<Longrightarrow> CopyDataTo (user_sink m) msg = (ZX_OK, bytes_at buf 0 n)"
    using CopyDataTo_ok [OF a(1) len] data by simp_all
  show "\<exists>new_msg. CreateCommon cache n nh = Inr new_msg \<and>
       chain_head (kSizeOfBufferChain + PayloadOffset nh) (mp_chain msg) = chain_head (kSizeOfBufferChain + PayloadOffset nh) (mp_chain new_msg)"
    using a(7) off m0 by simp
qed

lemma create_message_iff:
  assumes cache: "page_cache_ok cache" and pages: "\<And>k. cache k \<noteq> None" and n: "n \<le> length buf"
  shows "(\<exists>msg. MessagePacket_Create cache (user_buf buf) n nh = Inr msg) = (n \<le> kMaxMessageSize \<and> nh \<le> kMaxMessageHandles)"
proof
  assume "\<exists>msg. MessagePacket_Create cache (user_buf buf) n nh = Inr msg"
  then show "n \<le> kMaxMessageSize \<and> nh \<le> kMaxMessageHandles"
    by (auto simp: MessagePacket_Create_def CreateCommon_def split: if_splits)
next
  assume le: "n \<le> kMaxMessageSize \<and> nh \<le> kMaxMessageHandles"
  obtain m0 where m0: "CreateCommon cache n nh = Inr m0" by (rule CreateCommon_total [OF pages cache, of n nh]) (use le in auto)
  note c = CreateCommon_ok [OF cache m0]
  obtain c' where "Append (user_buf buf) n (mp_chain m0) = (ZX_OK, c')"
    by (rule Append_total [of "mp_chain m0" n buf]) (use c(1,3) n message_room_enough in \<open>simp_all add: msg_shape_def\<close>)
  then show "\<exists>msg. MessagePacket_Create cache (user_buf buf) n nh = Inr msg" using m0 by (simp add: MessagePacket_Create_def append_to_def)
qed

lemma room_of_largest: "nh \<le> kMaxMessageHandles \<Longrightarrow> message_room kMaxMessageSize nh = 69256 - 8 * nh"
proof -
  assume nh: "nh \<le> kMaxMessageHandles"
  then have "(PayloadOffset nh + kMaxMessageSize + kSizeOfBufferChain + kRawDataSize - 1) div kRawDataSize = 17"
    by (intro div_nat_eqI) (simp_all add: PayloadOffset_def kHandlesOffset_def kMaxMessageSize_def kMaxMessageHandles_def sizes)
  then show ?thesis by (simp add: message_room_def PayloadOffset_def kHandlesOffset_def sizes)
qed

lemma create_iovec_bounded:
  assumes cache: "page_cache_ok cache" and pages: "\<And>k. cache k \<noteq> None" and ds: "\<forall>d\<in>set ds. length d < 2 ^ 32"
    and nh: "nh \<le> kMaxMessageHandles" and size: "total_size ds \<le> kMaxMessageSize"
  obtains msg where "CreateIovecBounded cache (iovs_of ds) (length ds) nh = Inr msg" "msg_shape msg"
    "msg_data msg = concat ds" "mp_data_size msg = total_size ds"
proof -
  have total: "iovec_total (map iov_of ds) k = Inr (k + total_size ds)" for k
    using ds by (induction ds arbitrary: k) (simp_all add: iov_of_def unat_of_nat_u32)
  have vs: "(if length ds > 0 then iovs_of ds 0 (length ds) else Inr []) = Inr (map iov_of ds)" by (cases ds) (simp_all add: iovs_of_def)
  obtain m0 where m0: "CreateCommon cache (total_size ds) nh = Inr m0" by (rule CreateCommon_total [OF pages cache size nh])
  note c = CreateCommon_ok [OF cache m0]
  obtain msg where "append_iovecs (map iov_of ds) m0 = Inr msg" "msg_shape msg" "msg_data msg = msg_data m0 @ concat ds" "same_header m0 msg"
    using append_iovecs_ok [OF c(1) _ ds, of 0] c(3) message_room_enough by auto
  then show thesis
    by (intro that [of msg]) (use c(2,4) m0 total [of 0] vs in \<open>simp_all add: CreateIovecBounded_def same_header_def\<close>)
qed

lemma create_iovec_unbounded:
  assumes cache: "page_cache_ok cache" and pages: "\<And>k. cache k \<noteq> None" and ds: "\<forall>d\<in>set ds. length d < 2 ^ 32"
    and nh: "nh \<le> kMaxMessageHandles" and size: "total_size ds \<le> message_room kMaxMessageSize nh"
  obtains msg where "CreateIovecUnbounded cache (iovs_of ds) (length ds) nh = Inr msg" "msg_shape msg"
    "msg_data msg = concat ds" "mp_data_size msg = total_size ds"
proof -
  obtain m0 where m0: "CreateCommon cache kMaxMessageSize nh = Inr m0" by (rule CreateCommon_total [OF pages cache order_refl nh])
  note c = CreateCommon_ok [OF cache m0]
  obtain m1 where m1: "append_chunks (iovs_of ds) 0 (length ds) 0 m0 = Inr (total_size ds, m1)" "msg_shape m1"
    "msg_data m1 = msg_data m0 @ concat ds" "same_header m0 m1"
    using append_chunks_ok [OF c(1), of 0 ds "length ds" 0] c(3) size ds by auto
  have small: "total_size ds mod 2 ^ 32 = total_size ds" using size room_of_largest [OF nh] by simp
  show thesis
    by (rule that [of "m1\<lparr>mp_chain := FreeUnusedBuffers (mp_chain m1), mp_data_size := total_size ds mod 2 ^ 32\<rparr>"])
      (use m0 m1 c(2) small in \<open>simp_all add: CreateIovecUnbounded_def msg_shape_def msg_data_def chain_FreeUnused\<close>)
qed

section \<open>Properties\<close>

text \<open>
  C13. A message carries what was written: whatever the user's memory does, a message that is
  created from \<open>n\<close> bytes holds exactly these bytes, a copy out of it that succeeds delivers exactly
  them, and one into a large enough buffer succeeds. Writing the payload does not touch the part
  of the first page where the chain, the message and its handle pointers are. When pages are
  available and the memory can be read, creating fails only beyond the limits on size and handles.
\<close>

theorem message_round_trip:
  assumes "page_cache_ok cache"
  shows "(view_of buf src \<and> MessagePacket_Create cache src n nh = Inr msg \<longrightarrow>
      mp_data_size msg = n \<and> n \<le> kMaxMessageSize \<and> mp_num_handles msg = nh \<and>
      (\<forall>dst out. user_out_wf dst \<and> CopyDataTo dst msg = (ZX_OK, out) \<longrightarrow> out = bytes_at buf 0 n) \<and>
      (\<forall>m\<ge>n. CopyDataTo (user_sink m) msg = (ZX_OK, bytes_at buf 0 n)) \<and>
      (\<exists>new_msg. CreateCommon cache n nh = Inr new_msg \<and>
        chain_head (kSizeOfBufferChain + PayloadOffset nh) (mp_chain msg) = chain_head (kSizeOfBufferChain + PayloadOffset nh) (mp_chain new_msg))) \<and>
    ((\<forall>k. cache k \<noteq> None) \<and> n \<le> length buf \<longrightarrow>
      (\<exists>msg. MessagePacket_Create cache (user_buf buf) n nh = Inr msg) = (n \<le> kMaxMessageSize \<and> nh \<le> kMaxMessageHandles))"
proof (rule conjI; rule impI; erule conjE)
  assume view: "view_of buf src" and msg: "MessagePacket_Create cache src n nh = Inr msg"
  note c = create_message [OF assms view msg]
  show "mp_data_size msg = n \<and> n \<le> kMaxMessageSize \<and> mp_num_handles msg = nh \<and>
      (\<forall>dst out. user_out_wf dst \<and> CopyDataTo dst msg = (ZX_OK, out) \<longrightarrow> out = bytes_at buf 0 n) \<and>
      (\<forall>m\<ge>n. CopyDataTo (user_sink m) msg = (ZX_OK, bytes_at buf 0 n)) \<and>
      (\<exists>new_msg. CreateCommon cache n nh = Inr new_msg \<and>
        chain_head (kSizeOfBufferChain + PayloadOffset nh) (mp_chain msg) = chain_head (kSizeOfBufferChain + PayloadOffset nh) (mp_chain new_msg))"
    using c by auto
next
  assume "\<forall>k. cache k \<noteq> None" "n \<le> length buf"
  then show "(\<exists>msg. MessagePacket_Create cache (user_buf buf) n nh = Inr msg) = (n \<le> kMaxMessageSize \<and> nh \<le> kMaxMessageHandles)"
    by (intro create_message_iff [OF assms]) blast+
qed

definition example_cache :: page_cache where
  "example_cache n = Some (replicate n (replicate kRawDataSize 0))"

lemma example_cache_ok: "page_cache_ok example_cache" "example_cache k \<noteq> None"
  by (auto simp: page_cache_ok_def example_cache_def page_ok_def)

theorem message_round_trip_witness:
  "\<exists>msg. MessagePacket_Create example_cache (user_buf [1, 2, 3]) 3 2 = Inr msg \<and> CopyDataTo (user_sink 3) msg = (ZX_OK, [1, 2, 3])"
proof -
  have "\<exists>msg. MessagePacket_Create example_cache (user_buf [1, 2, 3]) 3 2 = Inr msg"
    using message_round_trip [OF example_cache_ok(1), of "[1, 2, 3]" _ 3 2] example_cache_ok(2)
    by (simp add: kMaxMessageSize_def kMaxMessageHandles_def)
  then obtain msg where msg: "MessagePacket_Create example_cache (user_buf [1, 2, 3]) 3 2 = Inr msg" by blast
  then have "CopyDataTo (user_sink 3) msg = (ZX_OK, bytes_at [1, 2, 3] 0 3)"
    using message_round_trip [OF example_cache_ok(1), of "[1, 2, 3]" "user_buf [1, 2, 3]" 3 2 msg] user_buf_view by blast
  then show ?thesis using msg by (simp add: bytes_at_def)
qed

text \<open>
  C38. A message made from an array of readable buffers holds their concatenation, whether the
  array is short enough to be added up first or is read in chunks. But in chunks the size is
  bounded only by the pages that were allocated for the largest message: with \<open>nh\<close> handles, up to
  \<open>69256 - 8 * nh\<close> bytes are accepted, more than the largest size a message may have.
\<close>

theorem iovec_message:
  assumes "page_cache_ok cache" and "\<forall>k. cache k \<noteq> None" and "\<forall>d\<in>set ds. length d < 2 ^ 32"
    and "length ds \<le> kMaxIovecsCount" and "nh \<le> kMaxMessageHandles"
    and "length (concat ds) \<le> (if length ds \<le> kIovecChunkSize then kMaxMessageSize else 69256 - 8 * nh)"
  shows "\<exists>msg. MessagePacket_CreateIovec cache (iovs_of ds) (length ds) nh = Inr msg \<and> mp_data_size msg = length (concat ds) \<and>
    (\<forall>m \<ge> length (concat ds). CopyDataTo (user_sink m) msg = (ZX_OK, concat ds))"
proof -
  obtain msg where msg: "MessagePacket_CreateIovec cache (iovs_of ds) (length ds) nh = Inr msg" "msg_shape msg"
    "msg_data msg = concat ds" "mp_data_size msg = total_size ds"
  proof (cases "length ds \<le> kIovecChunkSize")
    case True
    then show thesis using create_iovec_bounded [of cache ds nh thesis] assms that by (simp add: MessagePacket_CreateIovec_def)
  next
    case False
    then show thesis using create_iovec_unbounded [of cache ds nh thesis] room_of_largest assms that by (simp add: MessagePacket_CreateIovec_def)
  qed
  then show ?thesis using CopyDataTo_ok(2) [OF msg(2)] by auto
qed

theorem iovec_message_witness:
  "\<exists>msg. MessagePacket_CreateIovec example_cache (iovs_of (replicate 17 (replicate 4000 0))) 17 0 = Inr msg \<and>
     mp_data_size msg = 68000 \<and> kMaxMessageSize < mp_data_size msg"
  using iovec_message [of example_cache "replicate 17 (replicate 4000 0)" 0] example_cache_ok
  by (auto simp: kMaxIovecsCount_def kIovecChunkSize_def kMaxMessageSize_def kMaxMessageHandles_def length_concat map_replicate sum_list_replicate)

section \<open>Transaction ids\<close>

lemma le32_round: "le32 (le32_bytes w) = w"
proof (rule bit_word_eqI)
  fix n assume n: "n < LENGTH(32)"
  then consider "n < 8" | "8 \<le> n" "n < 16" | "16 \<le> n" "n < 24" | "24 \<le> n" "n < 32" by fastforce
  then show "bit (le32 (le32_bytes w)) n = bit w n"
    by cases (auto simp: le32_def le32_bytes_def bit_simps)
qed

lemma le32_bytes_length: "length (le32_bytes w) = 4"
  by (simp add: le32_bytes_def)

lemma get_set_txid:
  assumes shape: "msg_shape msg" and size: "4 \<le> mp_data_size msg"
  shows "get_txid (set_txid t msg) = t"
proof -
  let ?off = "mp_payload_offset msg" and ?c = "mp_chain msg"
  have ok: "chain_ok ?c" and off: "?off + 4 \<le> kContig"
    using shape payload_offset_le [of "mp_num_handles msg"] by (auto simp: msg_shape_def)
  obtain b bs where b: "buffers ?c = b # bs" using ok by (cases "buffers ?c") (auto simp: chain_ok_def)
  have res: "reserved b = 56" "length (raw_data b) = 4080" using ok b by (auto simp: chain_ok_def page_ok_def sizes)
  have fit: "?off + 4 \<le> length (Buffer_data b)" using res off by (simp add: Buffer_data_def sizes)
  have "Buffer_data (b\<lparr>raw_data := overwrite (raw_data b) (reserved b + ?off) (le32_bytes t)\<rparr>) =
      overwrite (Buffer_data b) ?off (le32_bytes t)"
    using res off by (simp add: Buffer_data_def drop_overwrite sizes)
  then have "bytes_at (Buffer_data (buffers (store_in 0 ?off (le32_bytes t) ?c) ! 0)) ?off 4 = le32_bytes t"
    using b fit bytes_at_overwrite_same [of ?off "le32_bytes t" "Buffer_data b"] by (simp add: store_in_def le32_bytes_length)
  then show ?thesis using size by (simp add: get_txid_def set_txid_def le32_round)
qed

end
