(* ===== verification/Handle_Table.thy ===== *)
theory Handle_Table
  imports Handles Message_Packet
begin

text \<open>
  Handle tables (\<^verbatim>\<open>kernel/object/handle_table.cc\<close>), the system calls on handles
  (\<^verbatim>\<open>kernel/lib/syscalls/handle_ops.cc\<close>) and the handles a message takes
  (\<^verbatim>\<open>kernel/object/user_handles.cc\<close>). A table maps the values a process uses to slots of the
  handle arena. The state of an operation is the table and the arena; a handle that is owned by
  no table is in flight. The theory shows that a table resolves exactly the values of its own
  handles, and that no sequence of operations gives a process rights that the kernel did not
  grant.
\<close>

section \<open>State\<close>

text \<open>\<open>c_iter\<close> is the handle a cursor stands at, \<open>None\<close> at the end of the list.\<close>

record handle_cursor =
  c_id :: nat
  c_iter :: "nat option"

text \<open>\<open>bad_handles\<close> counts the calls of \<open>EnforceBasicPolicy(ZX_POL_BAD_HANDLE)\<close>.\<close>

record handle_table =
  ht_koid :: koid
  random_value :: u32
  ht_count :: u32
  ht_handles :: "nat list"
  cursors :: "handle_cursor list"
  bad_handles :: nat

type_synonym table_state = "handle_table \<times> handle_arena"
type_synonym zx_handle = u32

definition ZX_HANDLE_INVALID :: zx_handle where "ZX_HANDLE_INVALID = 0"
definition ZX_HANDLE_FIXED_BITS_MASK :: zx_handle where "ZX_HANDLE_FIXED_BITS_MASK = 3"

definition ZX_RIGHT_DUPLICATE :: zx_rights where "ZX_RIGHT_DUPLICATE = push_bit 0 1"
definition ZX_RIGHT_TRANSFER :: zx_rights where "ZX_RIGHT_TRANSFER = push_bit 1 1"
definition ZX_RIGHT_SAME_RIGHTS :: zx_rights where "ZX_RIGHT_SAME_RIGHTS = push_bit 31 1"

section \<open>Values of handles\<close>

definition kHandleMustBeOneMask :: u32 where
  "kHandleMustBeOneMask = push_bit kHandleReservedBits 1 - 1"

definition map_handle_to_value :: "handle \<Rightarrow> u32 \<Rightarrow> zx_handle" where
  "map_handle_to_value h mixer = mixer XOR (push_bit kHandleReservedBits (base_value h) OR kHandleMustBeOneMask)"

definition map_value_to_handle :: "zx_handle \<Rightarrow> u32 \<Rightarrow> handle_arena \<Rightarrow> nat option" where
  "map_value_to_handle value mixer s =
     (if value AND kHandleMustBeOneMask \<noteq> kHandleMustBeOneMask then None
      else Handle_FromU32 (drop_bit kHandleReservedBits (value XOR mixer)) s)"

text \<open>\<open>secret\<close> is the draw of the random number generator.\<close>

definition HandleTable_new :: "koid \<Rightarrow> u32 \<Rightarrow> handle_table" where
  "HandleTable_new k secret =
     \<lparr>ht_koid = k, random_value = push_bit kHandleReservedBits secret, ht_count = 0, ht_handles = [],
      cursors = [], bad_handles = 0\<rparr>"

definition MapHandleToValue :: "nat \<Rightarrow> table_state \<Rightarrow> zx_handle" where
  "MapHandleToValue addr = (\<lambda>(t, s). map_handle_to_value (mem s addr) (random_value t))"

text \<open>\<open>caller\<close> is whether a process is given, whose policy is then enforced.\<close>

definition GetHandleLocked :: "bool \<Rightarrow> zx_handle \<Rightarrow> table_state \<Rightarrow> nat option \<times> handle_table" where
  "GetHandleLocked caller v = (\<lambda>(t, s).
     let found = (case map_value_to_handle v (random_value t) s of
                    None \<Rightarrow> None
                  | Some addr \<Rightarrow> if handle_table_id (mem s addr) = ht_koid t then Some addr else None)
     in case found of
          Some addr \<Rightarrow> (Some addr, t)
        | None \<Rightarrow> (None, if caller then t\<lparr>bad_handles := bad_handles t + 1\<rparr> else t))"

section \<open>Cursors\<close>

fun next_after :: "nat \<Rightarrow> nat list \<Rightarrow> nat option" where
  "next_after x [] = None"
| "next_after x (y # ys) =
     (if x = y then (case ys of [] \<Rightarrow> None | z # _ \<Rightarrow> Some z) else next_after x ys)"

definition HandleCursor_new :: "nat \<Rightarrow> handle_table \<Rightarrow> handle_table" where
  "HandleCursor_new c t =
     t\<lparr>cursors := \<lparr>c_id = c, c_iter = (case ht_handles t of [] \<Rightarrow> None | x # _ \<Rightarrow> Some x)\<rparr> # cursors t\<rparr>"

definition HandleCursor_delete :: "nat \<Rightarrow> handle_table \<Rightarrow> handle_table" where
  "HandleCursor_delete c t = t\<lparr>cursors := filter (\<lambda>cu. c_id cu \<noteq> c) (cursors t)\<rparr>"

definition Invalidate :: "handle_cursor \<Rightarrow> handle_cursor" where
  "Invalidate cu = cu\<lparr>c_iter := None\<rparr>"

definition Cursor_Next :: "nat list \<Rightarrow> handle_cursor \<Rightarrow> nat option \<times> handle_cursor" where
  "Cursor_Next hs cu =
     (case c_iter cu of
        None \<Rightarrow> (None, cu)
      | Some x \<Rightarrow> (Some x, cu\<lparr>c_iter := next_after x hs\<rparr>))"

definition AdvanceIf :: "nat list \<Rightarrow> nat \<Rightarrow> handle_cursor \<Rightarrow> handle_cursor" where
  "AdvanceIf hs h cu =
     (case c_iter cu of
        None \<Rightarrow> cu
      | Some x \<Rightarrow> if x = h then cu\<lparr>c_iter := next_after x hs\<rparr> else cu)"

section \<open>Operations of a table\<close>

definition HandleCount :: "handle_table \<Rightarrow> u32" where
  "HandleCount t = ht_count t"

definition AddHandleLocked :: "nat \<Rightarrow> table_state \<Rightarrow> table_state" where
  "AddHandleLocked addr = (\<lambda>(t, s).
     (t\<lparr>ht_handles := addr # ht_handles t, ht_count := ht_count t + 1\<rparr>, set_handle_table_id addr (ht_koid t) s))"

definition AddHandle :: "nat \<Rightarrow> table_state \<Rightarrow> table_state" where
  "AddHandle addr st = AddHandleLocked addr st"

definition RemoveHandleLocked :: "nat \<Rightarrow> table_state \<Rightarrow> table_state" where
  "RemoveHandleLocked addr = (\<lambda>(t, s).
     (t\<lparr>cursors := map (AdvanceIf (ht_handles t) addr) (cursors t), ht_handles := remove1 addr (ht_handles t),
        ht_count := ht_count t - 1\<rparr>,
      set_handle_table_id addr ZX_KOID_INVALID s))"

text \<open>A removed handle is owned by the caller, who deletes it when the owner goes out of scope.\<close>

definition RemoveHandle :: "zx_handle \<Rightarrow> table_state \<Rightarrow> nat option \<times> table_state" where
  "RemoveHandle v = (\<lambda>(t, s).
     case GetHandleLocked True v (t, s) of
       (None, t1) \<Rightarrow> (None, t1, s)
     | (Some addr, t1) \<Rightarrow> (Some addr, RemoveHandleLocked addr (t1, s)))"

definition delete_owned :: "nat \<Rightarrow> table_state \<Rightarrow> table_state" where
  "delete_owned addr = (\<lambda>(t, s). (t, HandleTableArena_Delete addr s))"

fun remove_handles_loop :: "zx_handle list \<Rightarrow> zx_status \<Rightarrow> table_state \<Rightarrow> zx_status \<times> table_state" where
  "remove_handles_loop [] status st = (status, st)"
| "remove_handles_loop (v # vs) status st =
     (if v = ZX_HANDLE_INVALID then remove_handles_loop vs status st
      else case RemoveHandle v st of
             (None, st1) \<Rightarrow> remove_handles_loop vs ZX_ERR_BAD_HANDLE st1
           | (Some addr, st1) \<Rightarrow> remove_handles_loop vs status (delete_owned addr st1))"

definition RemoveHandles :: "zx_handle list \<Rightarrow> table_state \<Rightarrow> zx_status \<times> table_state" where
  "RemoveHandles vs st = remove_handles_loop vs ZX_OK st"

definition HandleTable_Clean :: "table_state \<Rightarrow> table_state" where
  "HandleTable_Clean = (\<lambda>(t, s).
     let to_clean = ht_handles t;
         t1 = t\<lparr>cursors := map Invalidate (cursors t), ht_count := 0, ht_handles := []\<rparr>;
         s1 = fold (\<lambda>addr. set_handle_table_id addr ZX_KOID_INVALID) to_clean s
     in (t1, fold HandleTableArena_Delete to_clean s1))"

definition GetKoidForHandle :: "zx_handle \<Rightarrow> table_state \<Rightarrow> koid \<times> handle_table" where
  "GetKoidForHandle v = (\<lambda>(t, s).
     case GetHandleLocked True v (t, s) of
       (None, t1) \<Rightarrow> (ZX_KOID_INVALID, t1)
     | (Some addr, t1) \<Rightarrow>
         ((case h_object (mem s addr) of None \<Rightarrow> ZX_KOID_INVALID | Some i \<Rightarrow> koid (o_disp (objects s i))), t1))"

text \<open>The dispatcher is returned as the number of the object; a handle in a table has one.\<close>

definition GetDispatcherInternal ::
  "zx_handle \<Rightarrow> table_state \<Rightarrow> (zx_status + (nat option \<times> zx_rights)) \<times> handle_table" where
  "GetDispatcherInternal v = (\<lambda>(t, s).
     case GetHandleLocked True v (t, s) of
       (None, t1) \<Rightarrow> (Inl ZX_ERR_BAD_HANDLE, t1)
     | (Some addr, t1) \<Rightarrow> (Inr (h_object (mem s addr), h_rights (mem s addr)), t1))"

text \<open>\<open>DownCastDispatcher\<close> to a class with type tag \<open>ty\<close>; \<open>ZX_OBJ_TYPE_NONE\<close> is the base class.\<close>

definition DownCastDispatcher :: "nat \<Rightarrow> nat option \<Rightarrow> handle_arena \<Rightarrow> nat option" where
  "DownCastDispatcher ty ob s =
     (case ob of
        None \<Rightarrow> None
      | Some i \<Rightarrow> if ty = ZX_OBJ_TYPE_NONE \<or> o_type (objects s i) = ty then Some i else None)"

definition GetDispatcherAndRights ::
  "nat \<Rightarrow> zx_handle \<Rightarrow> table_state \<Rightarrow> (zx_status + (nat \<times> zx_rights)) \<times> handle_table" where
  "GetDispatcherAndRights ty v = (\<lambda>(t, s).
     case GetDispatcherInternal v (t, s) of
       (Inl e, t1) \<Rightarrow> (Inl e, t1)
     | (Inr (ob, rights), t1) \<Rightarrow>
         (case DownCastDispatcher ty ob s of
            None \<Rightarrow> (Inl ZX_ERR_WRONG_TYPE, t1)
          | Some i \<Rightarrow> (Inr (i, rights), t1)))"

definition GetDispatcherWithRightsImpl ::
  "bool \<Rightarrow> nat \<Rightarrow> zx_handle \<Rightarrow> zx_rights \<Rightarrow> table_state \<Rightarrow> (zx_status + (nat \<times> zx_rights)) \<times> handle_table" where
  "GetDispatcherWithRightsImpl caller ty v desired_rights = (\<lambda>(t, s).
     case GetHandleLocked caller v (t, s) of
       (None, t1) \<Rightarrow> (Inl ZX_ERR_BAD_HANDLE, t1)
     | (Some addr, t1) \<Rightarrow>
         let has_desired_rights = HasRights (mem s addr) desired_rights;
             rights = h_rights (mem s addr)
         in (case DownCastDispatcher ty (h_object (mem s addr)) s of
               None \<Rightarrow> (Inl ZX_ERR_WRONG_TYPE, t1)
             | Some i \<Rightarrow> if \<not> has_desired_rights then (Inl ZX_ERR_ACCESS_DENIED, t1) else (Inr (i, rights), t1)))"

text \<open>\<open>f\<close> is the function called on each handle, threading its own state.\<close>

fun for_each_handle :: "(zx_handle \<Rightarrow> zx_rights \<Rightarrow> nat option \<Rightarrow> 'a \<Rightarrow> zx_status \<times> 'a) \<Rightarrow> nat list \<Rightarrow> table_state \<Rightarrow> 'a
    \<Rightarrow> zx_status \<times> 'a" where
  "for_each_handle f [] st a = (ZX_OK, a)"
| "for_each_handle f (addr # rest) st a =
     (case f (MapHandleToValue addr st) (h_rights (mem (snd st) addr)) (h_object (mem (snd st) addr)) a of
        (status, a1) \<Rightarrow> if status \<noteq> ZX_OK then (status, a1) else for_each_handle f rest st a1)"

definition ForEachHandleLocked ::
  "(zx_handle \<Rightarrow> zx_rights \<Rightarrow> nat option \<Rightarrow> 'a \<Rightarrow> zx_status \<times> 'a) \<Rightarrow> table_state \<Rightarrow> 'a \<Rightarrow> zx_status \<times> 'a" where
  "ForEachHandleLocked f st a = for_each_handle f (ht_handles (fst st)) st a"

section \<open>Making, closing and duplicating handles\<close>

text \<open>
  The two forms of \<open>MakeAndAddHandle\<close>. A kernel handle that could not be turned into a handle
  goes out of scope, which tells the object that it has none.
\<close>

definition KernelHandle_reset :: "nat option \<Rightarrow> handle_arena \<Rightarrow> handle_arena" where
  "KernelHandle_reset ob s = (case ob of None \<Rightarrow> s | Some i \<Rightarrow> s\<lparr>zero_handles := zero_handles s @ [i]\<rparr>)"

definition MakeAndAddHandle :: "bool \<Rightarrow> nat \<Rightarrow> zx_rights \<Rightarrow> table_state \<Rightarrow> (zx_status + zx_handle) \<times> table_state" where
  "MakeAndAddHandle vm_ok i rights = (\<lambda>(t, s).
     case Handle_Make vm_ok i rights s of
       (None, s1) \<Rightarrow> (Inl ZX_ERR_NO_MEMORY, t, s1)
     | (Some addr, s1) \<Rightarrow> (Inr (MapHandleToValue addr (t, s1)), AddHandle addr (t, s1)))"

definition MakeAndAddKernelHandle ::
  "bool \<Rightarrow> nat \<Rightarrow> zx_rights \<Rightarrow> table_state \<Rightarrow> (zx_status + zx_handle) \<times> table_state" where
  "MakeAndAddKernelHandle vm_ok i rights = (\<lambda>(t, s).
     case Handle_Make vm_ok i rights s of
       (None, s1) \<Rightarrow> (Inl ZX_ERR_NO_MEMORY, t, KernelHandle_reset (Some i) s1)
     | (Some addr, s1) \<Rightarrow> (Inr (MapHandleToValue addr (t, s1)), AddHandle addr (t, KernelHandle_reset None s1)))"

definition sys_handle_close :: "zx_handle \<Rightarrow> table_state \<Rightarrow> zx_status \<times> table_state" where
  "sys_handle_close v st =
     (if v = ZX_HANDLE_INVALID then (ZX_OK, st)
      else case RemoveHandle v st of
             (None, st1) \<Rightarrow> (ZX_ERR_BAD_HANDLE, st1)
           | (Some addr, st1) \<Rightarrow> (ZX_OK, delete_owned addr st1))"

definition handle_dup_replace ::
  "bool \<Rightarrow> bool \<Rightarrow> zx_handle \<Rightarrow> zx_rights \<Rightarrow> table_state \<Rightarrow> (zx_status + zx_handle) \<times> table_state" where
  "handle_dup_replace vm_ok is_replace v rights = (\<lambda>(t, s).
     case GetHandleLocked True v (t, s) of
       (None, t1) \<Rightarrow> (Inl ZX_ERR_BAD_HANDLE, t1, s)
     | (Some source, t1) \<Rightarrow>
         let h = mem s source
         in if \<not> is_replace \<and> \<not> HasRights h ZX_RIGHT_DUPLICATE then (Inl ZX_ERR_ACCESS_DENIED, t1, s)
            else if rights \<noteq> ZX_RIGHT_SAME_RIGHTS \<and> h_rights h AND rights \<noteq> rights
            then (Inl ZX_ERR_INVALID_ARGS,
                  if is_replace then delete_owned source (RemoveHandleLocked source (t1, s)) else (t1, s))
            else
              let rights' = (if rights = ZX_RIGHT_SAME_RIGHTS then h_rights h else rights)
              in case Handle_Dup vm_ok source rights' s of
                   (None, s1) \<Rightarrow> (Inl ZX_ERR_NO_MEMORY, t1, s1)
                 | (Some addr, s1) \<Rightarrow>
                     let st2 = (if is_replace then delete_owned source (RemoveHandleLocked source (t1, s1)) else (t1, s1))
                     in (Inr (MapHandleToValue addr st2), AddHandleLocked addr st2))"

definition sys_handle_duplicate ::
  "bool \<Rightarrow> zx_handle \<Rightarrow> zx_rights \<Rightarrow> table_state \<Rightarrow> (zx_status + zx_handle) \<times> table_state" where
  "sys_handle_duplicate vm_ok v rights st = handle_dup_replace vm_ok False v rights st"

definition sys_handle_replace ::
  "bool \<Rightarrow> zx_handle \<Rightarrow> zx_rights \<Rightarrow> table_state \<Rightarrow> (zx_status + zx_handle) \<times> table_state" where
  "sys_handle_replace vm_ok v rights st = handle_dup_replace vm_ok True v rights st"

section \<open>Handles from user arrays\<close>

definition ZX_HANDLE_OP_MOVE :: u32 where "ZX_HANDLE_OP_MOVE = 0"
definition ZX_HANDLE_OP_DUPLICATE :: u32 where "ZX_HANDLE_OP_DUPLICATE = 1"

record zx_handle_disposition =
  hd_operation :: u32
  hd_handle :: zx_handle
  hd_type :: nat
  hd_rights :: zx_rights
  hd_result :: zx_status

text \<open>
  A user array is a list, and \<open>readable\<close> says how many of its elements the copy can read before
  it faults.
\<close>

definition copy_array_from_user :: "'a list \<Rightarrow> nat \<Rightarrow> nat \<Rightarrow> nat \<Rightarrow> zx_status + 'a list" where
  "copy_array_from_user user readable count offset =
     (if offset + count \<le> readable then Inr (take count (drop offset user)) else Inl ZX_ERR_INVALID_ARGS)"

text \<open>The two overloads; \<open>handles\<close> is the buffer of the caller, which keeps its other entries.\<close>

definition consume_handles :: "zx_handle list \<Rightarrow> nat \<Rightarrow> nat \<Rightarrow> nat \<Rightarrow> zx_handle list \<Rightarrow> zx_status \<times> zx_handle list" where
  "consume_handles user readable offset chunk_size handles =
     (case copy_array_from_user user readable chunk_size offset of
        Inl e \<Rightarrow> (e, handles)
      | Inr vs \<Rightarrow> (ZX_OK, vs @ drop chunk_size handles))"

definition consume_dispositions ::
  "zx_handle_disposition list \<Rightarrow> nat \<Rightarrow> nat \<Rightarrow> nat \<Rightarrow> zx_handle list \<Rightarrow> zx_status \<times> zx_handle list" where
  "consume_dispositions user readable offset chunk_size handles =
     (let chunk = min chunk_size kMaxMessageHandles
      in case copy_array_from_user user readable chunk offset of
           Inl e \<Rightarrow> (e, handles)
         | Inr ds \<Rightarrow>
             (ZX_OK, map2 (\<lambda>d old. if hd_operation d \<noteq> ZX_HANDLE_OP_DUPLICATE then hd_handle d else old) ds handles
                       @ drop chunk handles))"

function remove_user_handles_loop ::
  "(nat \<Rightarrow> nat \<Rightarrow> zx_handle list \<Rightarrow> zx_status \<times> zx_handle list) \<Rightarrow> nat \<Rightarrow> nat \<Rightarrow> zx_handle list \<Rightarrow> zx_status
    \<Rightarrow> table_state \<Rightarrow> zx_status \<times> table_state" where
  "remove_user_handles_loop consume num_handles offset handles status st =
     (if offset < num_handles then
        let chunk_size = min (num_handles - offset) kMaxMessageHandles
        in case consume offset chunk_size handles of
             (s1, handles1) \<Rightarrow>
               if s1 \<noteq> ZX_OK then (s1, st)
               else case RemoveHandles (take chunk_size handles1) st of
                      (s2, st1) \<Rightarrow> remove_user_handles_loop consume num_handles (offset + chunk_size) handles1 s2 st1
      else (status, st))"
  by pat_completeness auto

termination
  by (relation "measure (\<lambda>(consume, n, offset, handles, status, st). n - offset)") (auto simp: kMaxMessageHandles_def)

declare remove_user_handles_loop.simps [simp del]

definition RemoveUserHandles ::
  "(nat \<Rightarrow> nat \<Rightarrow> zx_handle list \<Rightarrow> zx_status \<times> zx_handle list) \<Rightarrow> nat \<Rightarrow> table_state \<Rightarrow> zx_status \<times> table_state" where
  "RemoveUserHandles consume num_handles st =
     remove_user_handles_loop consume num_handles 0 (replicate kMaxMessageHandles ZX_HANDLE_INVALID) ZX_OK st"

definition sys_handle_close_many :: "zx_handle list \<Rightarrow> nat \<Rightarrow> table_state \<Rightarrow> zx_status \<times> table_state" where
  "sys_handle_close_many user readable st = RemoveUserHandles (consume_handles user readable) (length user) st"

section \<open>Handles in messages\<close>

definition handle_checks_locked ::
  "nat option \<Rightarrow> nat \<Rightarrow> u32 \<Rightarrow> zx_rights \<Rightarrow> nat \<Rightarrow> handle_arena \<Rightarrow> zx_status" where
  "handle_checks_locked source channel operation desired_rights type s =
     (case source of
        None \<Rightarrow> ZX_ERR_BAD_HANDLE
      | Some addr \<Rightarrow>
          let h = mem s addr
          in if \<not> HasRights h ZX_RIGHT_TRANSFER then ZX_ERR_ACCESS_DENIED
             else if h_object h = Some channel then ZX_ERR_NOT_SUPPORTED
             else if type \<noteq> ZX_OBJ_TYPE_NONE \<and>
                  (case h_object h of None \<Rightarrow> True | Some i \<Rightarrow> o_type (objects s i) \<noteq> type) then ZX_ERR_WRONG_TYPE
             else if operation \<noteq> ZX_HANDLE_OP_MOVE \<and> operation \<noteq> ZX_HANDLE_OP_DUPLICATE then ZX_ERR_INVALID_ARGS
             else if desired_rights \<noteq> ZX_RIGHT_SAME_RIGHTS \<and> h_rights h AND desired_rights \<noteq> desired_rights
             then ZX_ERR_INVALID_ARGS
             else if operation = ZX_HANDLE_OP_DUPLICATE \<and> \<not> HasRights h ZX_RIGHT_DUPLICATE then ZX_ERR_ACCESS_DENIED
             else ZX_OK)"

definition get_handle_for_message :: "nat \<Rightarrow> zx_handle \<Rightarrow> table_state \<Rightarrow> (zx_status + nat) \<times> table_state" where
  "get_handle_for_message channel v = (\<lambda>(t, s).
     case GetHandleLocked True v (t, s) of
       (source, t1) \<Rightarrow>
         let status = handle_checks_locked source channel ZX_HANDLE_OP_MOVE ZX_RIGHT_SAME_RIGHTS ZX_OBJ_TYPE_NONE s
         in case source of
              Some addr \<Rightarrow> if status \<noteq> ZX_OK then (Inl status, t1, s) else (Inr addr, RemoveHandleLocked addr (t1, s))
            | None \<Rightarrow> (Inl status, t1, s))"

text \<open>The other overload also writes the status of the checks into the user's entry.\<close>

definition get_disposition_for_message ::
  "bool \<Rightarrow> nat \<Rightarrow> zx_handle_disposition \<Rightarrow> table_state \<Rightarrow> (zx_status + nat) \<times> zx_handle_disposition \<times> table_state" where
  "get_disposition_for_message vm_ok channel d = (\<lambda>(t, s).
     case GetHandleLocked True (hd_handle d) (t, s) of
       (source, t1) \<Rightarrow>
         let operation = hd_operation d; desired_rights = hd_rights d;
             status = handle_checks_locked source channel operation desired_rights (hd_type d) s
         in case source of
              None \<Rightarrow> (Inl status, d\<lparr>hd_result := status\<rparr>, t1, s)
            | Some addr \<Rightarrow>
                if status \<noteq> ZX_OK then (Inl status, d\<lparr>hd_result := status\<rparr>, t1, s)
                else if operation = ZX_HANDLE_OP_MOVE \<and> desired_rights = ZX_RIGHT_SAME_RIGHTS
                then (Inr addr, d, RemoveHandleLocked addr (t1, s))
                else
                  let dest_rights = (if desired_rights = ZX_RIGHT_SAME_RIGHTS then h_rights (mem s addr) else desired_rights)
                  in case Handle_Dup vm_ok addr dest_rights s of
                       (None, s1) \<Rightarrow> (Inl ZX_ERR_NO_MEMORY, d, t1, s1)
                     | (Some raw, s1) \<Rightarrow>
                         if operation \<noteq> ZX_HANDLE_OP_DUPLICATE
                         then (Inr raw, d, delete_owned addr (RemoveHandleLocked addr (t1, s1)))
                         else (Inr raw, d, t1, s1))"

section \<open>Values resolve to their handles\<close>

lemma one_mask: "kHandleMustBeOneMask = mask 2"
  by (simp add: kHandleMustBeOneMask_def kHandleReservedBits_def mask_eq_exp_minus_1)

lemma fixed_bits: "kHandleMustBeOneMask = ZX_HANDLE_FIXED_BITS_MASK"
  by (simp add: kHandleMustBeOneMask_def kHandleReservedBits_def ZX_HANDLE_FIXED_BITS_MASK_def)

definition mixer_ok :: "u32 \<Rightarrow> bool" where
  "mixer_ok m \<longleftrightarrow> m AND kHandleMustBeOneMask = 0"

lemma mixer_bits: "mixer_ok m \<Longrightarrow> n < 2 \<Longrightarrow> \<not> bit m n"
proof
  assume "mixer_ok m" "n < 2" "bit m n"
  then have "bit (m AND mask 2) n" by (simp add: bit_simps)
  then show False using \<open>mixer_ok m\<close> by (simp add: mixer_ok_def one_mask)
qed

lemma new_table_mixer: "mixer_ok (random_value (HandleTable_new k secret))"
  by (simp add: HandleTable_new_def mixer_ok_def one_mask kHandleReservedBits_def and_disjoint_iff bit_simps)

text \<open>Whatever the mixer, the low bits of a value are set and the rest is the base value.\<close>

lemma value_decodes:
  assumes "mixer_ok m"
  shows "v = map_handle_to_value h m \<and> value_ok i (base_value h) \<longleftrightarrow>
    v AND kHandleMustBeOneMask = kHandleMustBeOneMask \<and> drop_bit kHandleReservedBits (v XOR m) = base_value h \<and> value_ok i (base_value h)"
proof -
  let ?b = "base_value h"
  have low: "\<not> bit m n" if "n < 2" for n using mixer_bits [OF assms that] .
  have "map_handle_to_value h m AND mask 2 = mask 2"
    by (rule bit_word_eqI) (auto simp: map_handle_to_value_def one_mask kHandleReservedBits_def bit_simps low)
  moreover have "drop_bit 2 (map_handle_to_value h m XOR m) = ?b" if "value_ok i ?b"
    by (rule bit_word_eqI)
      (use reserved_bits [OF that] in \<open>auto simp: map_handle_to_value_def one_mask kHandleReservedBits_def bit_simps\<close>)
  moreover have "v = map_handle_to_value h m" if "v AND mask 2 = mask 2" "drop_bit 2 (v XOR m) = ?b"
  proof (rule bit_word_eqI)
    fix n :: nat assume n: "n < LENGTH(32)"
    show "bit v n = bit (map_handle_to_value h m) n"
    proof (cases "n < 2")
      case True
      have "bit (v AND mask 2) n" using that(1) True n by (simp add: bit_simps)
      then have "bit v n" by (simp add: bit_simps)
      then show ?thesis using True low n by (simp add: map_handle_to_value_def one_mask kHandleReservedBits_def bit_simps)
    next
      case False
      then have "Suc (Suc (n - 2)) = n" by simp
      then have "bit ?b (n - 2) \<longleftrightarrow> bit (v XOR m) n" unfolding that(2) [symmetric] using False n by (simp add: bit_simps)
      then show ?thesis using False n
        by (auto simp: map_handle_to_value_def one_mask kHandleReservedBits_def bit_simps)
    qed
  qed
  ultimately show ?thesis by (auto simp: one_mask kHandleReservedBits_def)
qed

lemma map_value_iff:
  assumes "handles_wf s" and "mixer_ok m"
  shows "map_value_to_handle v m s = Some x \<longleftrightarrow> seen s x \<and> v = map_handle_to_value (mem s x) m"
proof -
  have "map_value_to_handle v m s = Some x \<longleftrightarrow> v AND kHandleMustBeOneMask = kHandleMustBeOneMask \<and>
      seen s x \<and> base_value (mem s x) = drop_bit kHandleReservedBits (v XOR m)"
    by (simp add: map_value_to_handle_def FromU32_iff [OF assms(1)])
  also have "\<dots> \<longleftrightarrow> seen s x \<and> v = map_handle_to_value (mem s x) m"
    using handles_wfD(3) [OF assms(1), of x] value_decodes [OF assms(2), of v "mem s x" "HandleToIndex x"] by auto
  finally show ?thesis .
qed

lemma value_never_invalid: "mixer_ok m \<Longrightarrow> map_handle_to_value h m \<noteq> ZX_HANDLE_INVALID"
proof
  assume m: "mixer_ok m" and z: "map_handle_to_value h m = ZX_HANDLE_INVALID"
  have "bit (map_handle_to_value h m) 0"
    using mixer_bits [OF m, of 0] by (simp add: map_handle_to_value_def one_mask kHandleReservedBits_def bit_simps)
  then show False using z by (simp add: ZX_HANDLE_INVALID_def)
qed

section \<open>The invariant of a table\<close>

text \<open>
  \<open>F\<close> lists the handles in flight. Every handle in use is in flight or in the table whose
  identity it carries.
\<close>

abbreviation tid :: "handle_arena \<Rightarrow> nat \<Rightarrow> koid" where
  "tid s x \<equiv> handle_table_id (mem s x)"

definition table_ok :: "nat list \<Rightarrow> table_state \<Rightarrow> bool" where
  "table_ok F = (\<lambda>(t, s). handles_wf s \<and> ht_koid t \<noteq> ZX_KOID_INVALID \<and> mixer_ok (random_value t) \<and>
     distinct (ht_handles t) \<and> (\<forall>x. x \<in> set (ht_handles t) \<longleftrightarrow> live s x \<and> tid s x = ht_koid t) \<and>
     ht_count t = of_nat (length (ht_handles t)) \<and>
     (\<forall>c\<in>set (cursors t). \<forall>x. c_iter c = Some x \<longrightarrow> x \<in> set (ht_handles t)) \<and>
     distinct F \<and> (\<forall>x. x \<in> set F \<longleftrightarrow> live s x \<and> tid s x = ZX_KOID_INVALID))"

definition others_kept :: "koid \<Rightarrow> handle_arena \<Rightarrow> handle_arena \<Rightarrow> bool" where
  "others_kept k s s' \<longleftrightarrow> (\<forall>x. \<forall>m. m \<noteq> ZX_KOID_INVALID \<and> m \<noteq> k \<longrightarrow>
     ((live s' x \<and> tid s' x = m) \<longleftrightarrow> (live s x \<and> tid s x = m)))"

lemma table_okD:
  assumes "table_ok F (t, s)"
  shows "handles_wf s" "ht_koid t \<noteq> 0" "mixer_ok (random_value t)" "distinct (ht_handles t)"
    "x \<in> set (ht_handles t) \<longleftrightarrow> live s x \<and> tid s x = ht_koid t"
    "ht_count t = of_nat (length (ht_handles t))"
    "c \<in> set (cursors t) \<Longrightarrow> c_iter c = Some x \<Longrightarrow> x \<in> set (ht_handles t)"
    "distinct F" "x \<in> set F \<longleftrightarrow> live s x \<and> tid s x = ZX_KOID_INVALID"
  using assms unfolding table_ok_def by auto

lemma others_kept_refl [simp]: "others_kept k s s"
  by (simp add: others_kept_def)

lemma others_kept_trans [trans]: "others_kept k s s' \<Longrightarrow> others_kept k s' s'' \<Longrightarrow> others_kept k s s''"
  by (simp add: others_kept_def)

text \<open>A table resolves the values of its own handles, and nothing else.\<close>

lemma GetHandle_iff:
  assumes "table_ok F (t, s)"
  shows "fst (GetHandleLocked caller v (t, s)) = Some x \<longleftrightarrow> x \<in> set (ht_handles t) \<and> v = MapHandleToValue x (t, s)"
proof -
  have "fst (GetHandleLocked caller v (t, s)) = Some x \<longleftrightarrow>
      map_value_to_handle v (random_value t) s = Some x \<and> tid s x = ht_koid t"
    by (auto simp: GetHandleLocked_def Let_def split: option.splits)
  also have "\<dots> \<longleftrightarrow> live s x \<and> tid s x = ht_koid t \<and> v = MapHandleToValue x (t, s)"
    using map_value_iff [OF table_okD(1,3) [OF assms], of v x] live_seen [of s x] table_okD(2) [OF assms]
      handles_wfD(5) [OF table_okD(1) [OF assms], of x] by (cases "live s x") (auto simp: MapHandleToValue_def)
  finally show ?thesis using table_okD(5) [OF assms] by blast
qed

section \<open>The four primitive steps\<close>

text \<open>
  Everything below is made of four steps: a handle enters the table, leaves it, is made in
  flight, or is deleted in flight. \<open>within G\<close> is that every handle has rights that some entry
  of \<open>G\<close> grants for its object.
\<close>

definition within :: "(nat \<times> zx_rights) set \<Rightarrow> handle_arena \<Rightarrow> bool" where
  "within G s \<longleftrightarrow> (\<forall>x i. live s x \<and> h_object (mem s x) = Some i \<longrightarrow>
     (\<exists>R. (i, R) \<in> G \<and> h_rights (mem s x) AND R = h_rights (mem s x)))"

definition same_grants :: "handle_arena \<Rightarrow> handle_arena \<Rightarrow> bool" where
  "same_grants s s' \<longleftrightarrow> (\<forall>x. live s' x \<longrightarrow> live s x \<and> h_object (mem s' x) = h_object (mem s x) \<and>
     h_rights (mem s' x) = h_rights (mem s x))"

lemma within_same: "within G s \<Longrightarrow> same_grants s s' \<Longrightarrow> within G s'"
  unfolding within_def same_grants_def by metis

lemma within_mono: "within G s \<Longrightarrow> G \<subseteq> H \<Longrightarrow> within H s"
  unfolding within_def by blast

definition tinv :: "(nat \<times> zx_rights) set \<Rightarrow> nat list \<Rightarrow> table_state \<Rightarrow> bool" where
  "tinv G F = (\<lambda>(t, s). table_ok F (t, s) \<and> within G s)"

text \<open>What a step keeps: the identity of the table and the handles of other tables.\<close>

definition kept :: "table_state \<Rightarrow> table_state \<Rightarrow> bool" where
  "kept = (\<lambda>(t, s) (t', s'). ht_koid t' = ht_koid t \<and> random_value t' = random_value t \<and> others_kept (ht_koid t) s s')"

lemma kept_trans [trans]: "kept a b \<Longrightarrow> kept b c \<Longrightarrow> kept a c"
  unfolding kept_def by (auto intro: others_kept_trans)

lemma kept_refl [simp]: "kept a a"
  by (cases a) (simp add: kept_def)

lemma next_after_in: "next_after x xs = Some y \<Longrightarrow> y \<in> set xs"
  by (induction xs) (auto split: if_splits list.splits)

lemma next_after_diff: "distinct xs \<Longrightarrow> next_after x xs = Some y \<Longrightarrow> y \<noteq> x"
proof (induction xs)
  case (Cons a xs)
  then show ?case using next_after_in [of x xs y] by (auto split: if_splits list.splits)
qed simp

lemma add_ok:
  assumes "tinv G F (t, s)" and "x \<in> set F"
  shows "tinv G (remove1 x F) (AddHandleLocked x (t, s)) \<and> kept (t, s) (AddHandleLocked x (t, s))"
proof -
  have ok: "table_ok F (t, s)" and w: "within G s" using assms(1) by (auto simp: tinv_def)
  note D = table_okD [OF ok]
  have x: "live s x" "tid s x = 0" using D(9) assms(2) by auto
  let ?s = "set_handle_table_id x (ht_koid t) s"
  have e: "handles_wf ?s" "arena ?s = arena s" "mem ?s = (mem s)(x := (mem s x)\<lparr>handle_table_id := ht_koid t\<rparr>)"
    using set_table_effect [OF D(1) x(1) refl] by auto
  have "same_grants s ?s" by (auto simp: same_grants_def e)
  then have "within G ?s" using w within_same by blast
  moreover have "x \<notin> set (ht_handles t)" using D(2,5) x by simp
  then have "table_ok (remove1 x F) (AddHandleLocked x (t, s))"
    using D(2-4,6,8) e x assms(2) D(5,9) D(7) unfolding table_ok_def AddHandleLocked_def
    by (auto simp: set_remove1_eq)
  moreover have "others_kept (ht_koid t) s ?s" using x by (auto simp: others_kept_def e)
  ultimately show ?thesis by (auto simp: tinv_def kept_def AddHandleLocked_def)
qed

lemma cursors_advance:
  assumes "distinct xs" and "\<forall>c\<in>set cs. \<forall>y. c_iter c = Some y \<longrightarrow> y \<in> set xs"
    and "c \<in> set (map (AdvanceIf xs x) cs)" and "c_iter c = Some y"
  shows "y \<in> set (remove1 x xs)"
proof -
  obtain d where d: "d \<in> set cs" "c = AdvanceIf xs x d" using assms(3) by auto
  have "y \<in> set xs \<and> y \<noteq> x" 
    using d assms next_after_in [of x xs y] next_after_diff [of xs x y]
    by (auto simp: AdvanceIf_def split: option.splits if_splits)
  then show ?thesis using assms(1) by (simp add: set_remove1_eq)
qed

lemma remove_ok:
  assumes "tinv G F (t, s)" and "x \<in> set (ht_handles t)"
  shows "tinv G (x # F) (RemoveHandleLocked x (t, s)) \<and> kept (t, s) (RemoveHandleLocked x (t, s))"
proof -
  have ok: "table_ok F (t, s)" and w: "within G s" using assms(1) by (auto simp: tinv_def)
  note D = table_okD [OF ok]
  have x: "live s x" "tid s x = ht_koid t" using D(5) assms(2) by auto
  let ?s = "set_handle_table_id x 0 s"
  define t' where "t' = fst (RemoveHandleLocked x (t, s))"
  have e: "handles_wf ?s" "arena ?s = arena s" "mem ?s = (mem s)(x := (mem s x)\<lparr>handle_table_id := 0\<rparr>)"
    using set_table_effect [OF D(1) x(1) refl] by auto
  have t: "ht_koid t' = ht_koid t" "random_value t' = random_value t" "ht_handles t' = remove1 x (ht_handles t)"
    "ht_count t' = ht_count t - 1" "cursors t' = map (AdvanceIf (ht_handles t) x) (cursors t)"
    by (simp_all add: RemoveHandleLocked_def t'_def)
  have "same_grants s ?s" by (auto simp: same_grants_def e)
  then have "within G ?s" using w within_same by blast
  moreover have "table_ok (x # F) (t', ?s)" unfolding table_ok_def split_conv t e(2)
  proof (intro conjI)
    show "\<forall>y. y \<in> set (remove1 x (ht_handles t)) \<longleftrightarrow> in_use sizeof_Handle (arena s) y \<and> tid ?s y = ht_koid t"
      using D(2,4,5) by (simp add: e(3) set_remove1_eq)
    show "\<forall>y. y \<in> set (x # F) \<longleftrightarrow> in_use sizeof_Handle (arena s) y \<and> tid ?s y = ZX_KOID_INVALID"
      using D(9) x by (simp add: e(3))
    have "length (ht_handles t) = Suc (length (remove1 x (ht_handles t)))"
      using assms(2) length_pos_if_in_set [OF assms(2)] by (simp add: length_remove1)
    then show "ht_count t - 1 = of_nat (length (remove1 x (ht_handles t)))" using D(6) by simp
    show "distinct (x # F)" using D(2,8,9) x by simp
    show "\<forall>c\<in>set (map (AdvanceIf (ht_handles t) x) (cursors t)). \<forall>y. c_iter c = Some y \<longrightarrow> y \<in> set (remove1 x (ht_handles t))"
      using cursors_advance [OF D(4)] D(7) by blast
  qed (use D e in auto)
  moreover have "others_kept (ht_koid t) s ?s" using x by (auto simp: others_kept_def e)
  moreover have r: "RemoveHandleLocked x (t, s) = (t', ?s)" by (simp add: RemoveHandleLocked_def t'_def)
  ultimately show ?thesis unfolding r by (simp add: tinv_def kept_def t)
qed

lemma make_ok:
  assumes "tinv G F (t, s)" and "Handle_Make ok i rights s = (Some x, s')"
  shows "tinv (insert (i, rights) G) (x # F) (t, s') \<and> kept (t, s) (t, s')"
proof -
  have ok: "table_ok F (t, s)" and w: "within G s" using assms(1) by (auto simp: tinv_def)
  note D = table_okD [OF ok]
  note E = Make_effect [OF D(1) assms(2)]
  have x: "\<not> live s x" "live s' x" "tid s' x = 0" "h_object (mem s' x) = Some i" "h_rights (mem s' x) = rights" using E by auto
  have same: "live s' y = live s y" "mem s' y = mem s y" if "y \<noteq> x" for y using E that by auto
  have "within (insert (i, rights) G) s'" unfolding within_def
  proof (intro allI impI)
    fix y j assume y: "live s' y \<and> h_object (mem s' y) = Some j"
    show "\<exists>R. (j, R) \<in> insert (i, rights) G \<and> h_rights (mem s' y) AND R = h_rights (mem s' y)"
    proof (cases "y = x")
      case True
      with y x show ?thesis by (intro exI [of _ rights]) simp
    next
      case False
      with y same w show ?thesis unfolding within_def by (metis insertI2)
    qed
  qed
  moreover have "x \<notin> set (ht_handles t)" "x \<notin> set F" using D(5,9) x by auto
  then have "table_ok (x # F) (t, s')" unfolding table_ok_def split_conv
  proof (intro conjI)
    show "\<forall>y. y \<in> set (ht_handles t) \<longleftrightarrow> live s' y \<and> tid s' y = ht_koid t"
      using D(2,5) x same by (metis)
    show "\<forall>y. y \<in> set (x # F) \<longleftrightarrow> live s' y \<and> tid s' y = ZX_KOID_INVALID"
      using D(9) x same by (metis list.set_intros(1) set_ConsD list.set_intros(2))
  qed (use D E in auto)
  moreover have "others_kept (ht_koid t) s s'" unfolding others_kept_def using x same by metis
  ultimately show ?thesis by (simp add: tinv_def kept_def)
qed

lemma delete_ok:
  assumes "tinv G F (t, s)" and "x \<in> set F"
  shows "tinv G (remove1 x F) (t, HandleTableArena_Delete x s) \<and> kept (t, s) (t, HandleTableArena_Delete x s)"
proof -
  have ok: "table_ok F (t, s)" and w: "within G s" using assms(1) by (auto simp: tinv_def)
  note D = table_okD [OF ok]
  have x: "live s x" "tid s x = 0" using D(9) assms(2) by auto
  then obtain i where i: "h_object (mem s x) = Some i" using handles_wfD(4) [OF D(1)] by auto
  let ?s = "HandleTableArena_Delete x s"
  note E = Delete_effect [OF D(1) x i refl]
  have same: "live ?s y \<longleftrightarrow> live s y \<and> y \<noteq> x" "y \<noteq> x \<Longrightarrow> mem ?s y = mem s y" for y using E by auto
  have "same_grants s ?s" using same by (simp add: same_grants_def)
  then have "within G ?s" using w within_same by blast
  moreover have "table_ok (remove1 x F) (t, ?s)" unfolding table_ok_def split_conv
  proof (intro conjI)
    show "\<forall>y. y \<in> set (ht_handles t) \<longleftrightarrow> live ?s y \<and> tid ?s y = ht_koid t"
      using D(2,5) x same by metis
    show "\<forall>y. y \<in> set (remove1 x F) \<longleftrightarrow> live ?s y \<and> tid ?s y = ZX_KOID_INVALID"
      using D(8,9) x same by (metis DiffD1 DiffD2 DiffI set_remove1_eq singletonD singletonI)
  qed (use D E in auto)
  moreover have "others_kept (ht_koid t) s ?s" unfolding others_kept_def using x same by metis
  ultimately show ?thesis by (simp add: tinv_def kept_def)
qed

lemma get_ok:
  assumes "tinv G F (t, s)" and "GetHandleLocked caller v (t, s) = (r, t')"
  shows "tinv G F (t', s) \<and> kept (t, s) (t', s) \<and> ht_handles t' = ht_handles t"
proof -
  have "t' = t \<or> t' = t\<lparr>bad_handles := bad_handles t + 1\<rparr>"
    using assms(2) by (auto simp: GetHandleLocked_def Let_def split: option.splits if_splits)
  then show ?thesis using assms(1) by (auto simp: tinv_def table_ok_def kept_def)
qed

section \<open>Every operation keeps the invariant\<close>

lemma get_in_table:
  assumes "tinv G F (t, s)" and "GetHandleLocked caller v (t, s) = (Some x, t')"
  shows "x \<in> set (ht_handles t) \<and> t' = t"
  using GetHandle_iff [of F t s caller v x] assms
  by (auto simp: tinv_def GetHandleLocked_def Let_def split: option.splits if_splits)

lemma RemoveHandle_ok:
  assumes "tinv G F st" and "RemoveHandle v st = (r, st')"
  shows "(case r of None \<Rightarrow> tinv G F st' | Some x \<Rightarrow> tinv G (x # F) st') \<and> kept st st'"
proof -
  obtain t s where st: "st = (t, s)" by (cases st)
  obtain r1 t1 where g: "GetHandleLocked True v (t, s) = (r1, t1)" by (cases "GetHandleLocked True v (t, s)")
  show ?thesis
  proof (cases r1)
    case None
    then show ?thesis using assms g get_ok [of G F t s True v r1 t1] by (auto simp: st RemoveHandle_def)
  next
    case (Some x)
    then have x: "x \<in> set (ht_handles t)" "t1 = t" using get_in_table [of G F t s] assms(1) g st by auto
    then show ?thesis using Some assms g remove_ok [of G F t s x] by (auto simp: st RemoveHandle_def)
  qed
qed

lemma delete_owned_ok:
  assumes "tinv G F st" and "x \<in> set F" shows "tinv G (remove1 x F) (delete_owned x st) \<and> kept st (delete_owned x st)"
  using assms delete_ok [of G F "fst st" "snd st" x] by (cases st) (auto simp: delete_owned_def)

lemma remove_delete_ok:
  assumes "tinv G F (t, s)" and "x \<in> set (ht_handles t)"
  shows "tinv G F (delete_owned x (RemoveHandleLocked x (t, s))) \<and> kept (t, s) (delete_owned x (RemoveHandleLocked x (t, s)))"
  using remove_ok [OF assms] delete_owned_ok [of G "x # F" "RemoveHandleLocked x (t, s)" x] by (auto intro: kept_trans)

lemma remove_handles_loop_ok:
  "tinv G F st \<Longrightarrow> remove_handles_loop vs status st = (r, st') \<Longrightarrow> tinv G F st' \<and> kept st st'"
proof (induction vs status st rule: remove_handles_loop.induct)
  case (2 v vs status st)
  show ?case
  proof (cases "v = ZX_HANDLE_INVALID")
    case True
    with 2 show ?thesis by simp
  next
    case False
    obtain r1 st1 where rm: "RemoveHandle v st = (r1, st1)" by (cases "RemoveHandle v st")
    note ok = RemoveHandle_ok [OF "2.prems"(1) rm]
    show ?thesis
    proof (cases r1)
      case None
      then have "tinv G F st' \<and> kept st1 st'" using "2.IH"(2) [OF False rm [symmetric] None] "2.prems"(2) False rm ok by simp
      then show ?thesis using ok kept_trans by blast
    next
      case (Some x)
      then have d: "tinv G F (delete_owned x st1) \<and> kept st1 (delete_owned x st1)"
        using ok delete_owned_ok [of G "x # F" st1 x] by simp
      then have "tinv G F st' \<and> kept (delete_owned x st1) st'"
        using "2.IH"(3) [OF False rm [symmetric] Some] "2.prems"(2) False rm Some by simp
      then show ?thesis using d ok kept_trans by blast
    qed
  qed
qed simp

lemma RemoveHandles_ok: "tinv G F st \<Longrightarrow> RemoveHandles vs st = (r, st') \<Longrightarrow> tinv G F st' \<and> kept st st'"
  unfolding RemoveHandles_def by (rule remove_handles_loop_ok)

lemma user_handles_loop_ok:
  "tinv G F st \<Longrightarrow> remove_user_handles_loop consume n offset handles status st = (r, st') \<Longrightarrow> tinv G F st' \<and> kept st st'"
proof (induction consume n offset handles status st rule: remove_user_handles_loop.induct)
  case (1 consume n offset handles status st)
  show ?case
  proof (cases "offset < n")
    case False
    with 1 show ?thesis by (simp add: remove_user_handles_loop.simps [of consume n offset])
  next
    case True
    let ?chunk = "min (n - offset) kMaxMessageHandles"
    obtain s1 h1 where c: "consume offset ?chunk handles = (s1, h1)" by (cases "consume offset ?chunk handles")
    show ?thesis
    proof (cases "s1 = ZX_OK")
      case False
      with "1.prems" True c show ?thesis by (simp add: remove_user_handles_loop.simps [of consume n offset] Let_def)
    next
      case ok: True
      obtain s2 st1 where rm: "RemoveHandles (take ?chunk h1) st = (s2, st1)" by (cases "RemoveHandles (take ?chunk h1) st")
      have k: "tinv G F st1 \<and> kept st st1" by (rule RemoveHandles_ok [OF "1.prems"(1) rm])
      have "remove_user_handles_loop consume n (offset + ?chunk) h1 s2 st1 = (r, st')"
        using "1.prems"(2) True c ok rm by (simp add: remove_user_handles_loop.simps [of consume n offset] Let_def)
      then have "tinv G F st' \<and> kept st1 st'" using "1.IH" [OF True refl c [symmetric] _ rm [symmetric]] ok k rm by simp
      then show ?thesis using k kept_trans by blast
    qed
  qed
qed

lemma close_many_ok: "tinv G F st \<Longrightarrow> sys_handle_close_many vs readable st = (r, st') \<Longrightarrow> tinv G F st' \<and> kept st st'"
  unfolding sys_handle_close_many_def RemoveUserHandles_def by (rule user_handles_loop_ok)

lemma close_ok:
  assumes "tinv G F st" and "sys_handle_close v st = (r, st')" shows "tinv G F st' \<and> kept st st'"
proof (cases "v = ZX_HANDLE_INVALID")
  case False
  obtain r1 st1 where rm: "RemoveHandle v st = (r1, st1)" by (cases "RemoveHandle v st")
  note ok = RemoveHandle_ok [OF assms(1) rm]
  then show ?thesis using assms(2) rm False delete_owned_ok [of G _ st1] kept_trans [of st st1]
    by (cases r1) (fastforce simp: sys_handle_close_def)+
qed (use assms in \<open>simp add: sys_handle_close_def\<close>)

lemma MakeAndAdd_ok:
  assumes "tinv G F (t, s)" and "MakeAndAddHandle ok i rights (t, s) = (r, st')"
  shows "tinv (insert (i, rights) G) F st' \<and> kept (t, s) st'"
proof -
  obtain x s1 where m: "Handle_Make ok i rights s = (x, s1)" by (cases "Handle_Make ok i rights s")
  have wf: "handles_wf s" using assms(1) by (simp add: tinv_def table_ok_def)
  show ?thesis
  proof (cases x)
    case None
    with m wf have "s1 = s" using Make_none by blast
    with None m assms show ?thesis by (auto simp: MakeAndAddHandle_def tinv_def intro: within_mono)
  next
    case (Some y)
    from make_ok [OF assms(1) m [unfolded Some]]
    have mk: "tinv (insert (i, rights) G) (y # F) (t, s1)" "kept (t, s) (t, s1)" by auto
    from add_ok [OF mk(1), of y] have "tinv (insert (i, rights) G) F (AddHandleLocked y (t, s1))" "kept (t, s1) (AddHandleLocked y (t, s1))"
      by auto
    then show ?thesis using assms(2) m Some mk(2) kept_trans by (auto simp: MakeAndAddHandle_def AddHandle_def)
  qed
qed

text \<open>A duplicate has no more rights than its source, so it needs no new grant.\<close>

lemma dup_ok:
  assumes inv: "tinv G F (t, s)" and x: "x \<in> set (ht_handles t)" and r: "h_rights (mem s x) AND r = r"
    and call: "Handle_Dup ok x r s = (Some y, s')"
  shows "tinv G (y # F) (t, s') \<and> kept (t, s) (t, s')"
proof -
  have t: "table_ok F (t, s)" and w: "within G s" using inv by (auto simp: tinv_def)
  have lx: "live s x" using table_okD(5) [OF t] x by simp
  then obtain i where i: "h_object (mem s x) = Some i" using handles_wfD(4) [OF table_okD(1) [OF t]] by auto
  have mk: "Handle_Make ok i r s = (Some y, s')" using call Dup_is_Make [OF i] by simp
  have m: "tinv (insert (i, r) G) (y # F) (t, s')" "kept (t, s) (t, s')" using make_ok [OF inv mk] by auto
  obtain R where R: "(i, R) \<in> G" "h_rights (mem s x) AND R = h_rights (mem s x)" using w lx i unfolding within_def by blast
  have "r AND R = r" using R(2) r by (metis and.assoc and.commute)
  then have "within G s'" using m(1) R(1) unfolding tinv_def split_conv within_def
    by (metis Pair_inject insert_iff and.assoc)
  then show ?thesis using m by (simp add: tinv_def)
qed

lemma dup_none:
  assumes "tinv G F (t, s)" and "x \<in> set (ht_handles t)" and "Handle_Dup ok x r s = (None, s')" shows "s' = s"
proof -
  have t: "table_ok F (t, s)" using assms(1) by (auto simp: tinv_def)
  have "live s x" using table_okD(5) [OF t] assms(2) by simp
  then obtain i where i: "h_object (mem s x) = Some i" using handles_wfD(4) [OF table_okD(1) [OF t]] by auto
  show ?thesis using assms(3) Dup_is_Make [OF i] Make_none [OF table_okD(1) [OF t]] by auto
qed

lemma dup_replace_ok:
  assumes inv: "tinv G F (t, s)" and call: "handle_dup_replace ok is_replace v rights (t, s) = (r, st')"
  shows "tinv G F st' \<and> kept (t, s) st'"
proof -
  obtain r1 t1 where g: "GetHandleLocked True v (t, s) = (r1, t1)" by (cases "GetHandleLocked True v (t, s)")
  show ?thesis
  proof (cases r1)
    case None
    then show ?thesis using inv call g get_ok [OF inv g] by (auto simp: handle_dup_replace_def)
  next
    case (Some x)
    then have x: "x \<in> set (ht_handles t)" "t1 = t" using get_in_table [OF inv] g by auto
    let ?h = "mem s x"
    let ?r = "if rights = ZX_RIGHT_SAME_RIGHTS then h_rights ?h else rights"
    note rd = remove_delete_ok [OF inv x(1)]
    show ?thesis
    proof (cases "\<not> is_replace \<and> \<not> HasRights ?h ZX_RIGHT_DUPLICATE \<or>
        rights \<noteq> ZX_RIGHT_SAME_RIGHTS \<and> h_rights ?h AND rights \<noteq> rights")
      case True
      then show ?thesis using call g Some x inv rd by (auto simp: handle_dup_replace_def Let_def split: if_splits)
    next
      case False
      then have sub: "h_rights ?h AND ?r = ?r" by auto
      obtain y s1 where d: "Handle_Dup ok x ?r s = (y, s1)" by (cases "Handle_Dup ok x ?r s")
      show ?thesis
      proof (cases y)
        case None
        then have "s1 = s" using dup_none [OF inv x(1)] d by simp
        then show ?thesis using call g Some x(2) inv False d None by (auto simp: handle_dup_replace_def Let_def)
      next
        case (Some z)
        from dup_ok [OF inv x(1) sub d [unfolded Some]] have dup: "tinv G (z # F) (t, s1)" "kept (t, s) (t, s1)" by auto
        define st2 where "st2 = (if is_replace then delete_owned x (RemoveHandleLocked x (t, s1)) else (t, s1))"
        have st2: "tinv G (z # F) st2" "kept (t, s1) st2"
          using remove_delete_ok [OF dup(1) x(1)] dup(1) by (auto simp: st2_def)
        have "st' = AddHandleLocked z st2"
          using call g \<open>r1 = Some x\<close> x(2) False d Some by (auto simp: handle_dup_replace_def Let_def st2_def)
        then show ?thesis
          using add_ok [of G "z # F" "fst st2" "snd st2" z] st2 dup(2) kept_trans by auto
      qed
    qed
  qed
qed

lemma checks_rights:
  "handle_checks_locked (Some x) channel operation desired type s = ZX_OK \<Longrightarrow>
    desired = ZX_RIGHT_SAME_RIGHTS \<or> h_rights (mem s x) AND desired = desired"
  by (auto simp: handle_checks_locked_def Let_def split: if_splits)

lemma get_message_ok:
  assumes inv: "tinv G F (t, s)" and call: "get_handle_for_message channel v (t, s) = (r, st')"
  shows "(case r of Inl e \<Rightarrow> tinv G F st' | Inr x \<Rightarrow> tinv G (x # F) st') \<and> kept (t, s) st'"
proof -
  obtain r1 t1 where g: "GetHandleLocked True v (t, s) = (r1, t1)" by (cases "GetHandleLocked True v (t, s)")
  show ?thesis
  proof (cases r1)
    case None
    then show ?thesis using call g get_ok [OF inv g] by (auto simp: get_handle_for_message_def)
  next
    case (Some x)
    then have x: "x \<in> set (ht_handles t)" "t1 = t" using get_in_table [OF inv] g by auto
    then show ?thesis using call g Some inv remove_ok [OF inv x(1)]
      by (auto simp: get_handle_for_message_def Let_def split: if_splits)
  qed
qed

lemma get_disposition_ok:
  assumes inv: "tinv G F (t, s)" and call: "get_disposition_for_message ok channel d (t, s) = (r, d', st')"
  shows "(case r of Inl e \<Rightarrow> tinv G F st' | Inr x \<Rightarrow> tinv G (x # F) st') \<and> kept (t, s) st'"
proof -
  obtain r1 t1 where g: "GetHandleLocked True (hd_handle d) (t, s) = (r1, t1)"
    by (cases "GetHandleLocked True (hd_handle d) (t, s)")
  show ?thesis
  proof (cases r1)
    case None
    then show ?thesis using call g get_ok [OF inv g] by (auto simp: get_disposition_for_message_def Let_def)
  next
    case (Some x)
    then have x: "x \<in> set (ht_handles t)" "t1 = t" using get_in_table [OF inv] g by auto
    let ?c = "handle_checks_locked (Some x) channel (hd_operation d) (hd_rights d) (hd_type d) s"
    let ?move = "hd_operation d = ZX_HANDLE_OP_MOVE \<and> hd_rights d = ZX_RIGHT_SAME_RIGHTS"
    let ?r = "if hd_rights d = ZX_RIGHT_SAME_RIGHTS then h_rights (mem s x) else hd_rights d"
    show ?thesis
    proof (cases "?c = ZX_OK \<and> \<not> ?move")
      case False
      then show ?thesis using call g Some x inv remove_ok [OF inv x(1)]
        by (auto simp: get_disposition_for_message_def Let_def split: if_splits)
    next
      case True
      then have sub: "h_rights (mem s x) AND ?r = ?r" by (auto dest: checks_rights)
      obtain y s1 where du: "Handle_Dup ok x ?r s = (y, s1)" by (cases "Handle_Dup ok x ?r s")
      show ?thesis
      proof (cases y)
        case None
        then have "s1 = s" using dup_none [OF inv x(1)] du by simp
        moreover have "r = Inl ZX_ERR_NO_MEMORY" "st' = (t, s1)"
          using call g Some x(2) True du None by (auto simp: get_disposition_for_message_def Let_def)
        ultimately show ?thesis using inv by simp
      next
        case z: (Some z)
        from dup_ok [OF inv x(1) sub du [unfolded z]] have dup: "tinv G (z # F) (t, s1)" "kept (t, s) (t, s1)" by auto
        have "r = Inr z" and st': "st' = (if hd_operation d \<noteq> ZX_HANDLE_OP_DUPLICATE
            then delete_owned x (RemoveHandleLocked x (t, s1)) else (t, s1))"
          using call g Some x(2) True du z by (auto simp: get_disposition_for_message_def Let_def split: if_splits)
        moreover have "tinv G (z # F) st' \<and> kept (t, s1) st'"
          using remove_delete_ok [OF dup(1) x(1)] dup(1) st' by auto
        ultimately show ?thesis using dup(2) kept_trans by auto
      qed
    qed
  qed
qed

lemma fold_set_tid:
  "handles_wf s \<Longrightarrow> \<forall>x\<in>set xs. live s x \<Longrightarrow> s' = fold (\<lambda>x. set_handle_table_id x k) xs s \<Longrightarrow>
    handles_wf s' \<and> arena s' = arena s \<and>
    (\<forall>y. mem s' y = (if y \<in> set xs then (mem s y)\<lparr>handle_table_id := k\<rparr> else mem s y))"
proof (induction xs arbitrary: s)
  case (Cons x xs)
  let ?s = "set_handle_table_id x k s"
  have "live s x" using Cons.prems(2) by simp
  note e = set_table_effect [OF Cons.prems(1) this refl, of k]
  have "\<forall>y\<in>set xs. live ?s y" using Cons.prems(2) e by simp
  with Cons.IH [of ?s] e Cons.prems(3) show ?case by simp
qed simp

lemma fold_delete_ok:
  "tinv G (xs @ F) (t, s) \<Longrightarrow> tinv G F (t, fold HandleTableArena_Delete xs s) \<and> kept (t, s) (t, fold HandleTableArena_Delete xs s)"
proof (induction xs arbitrary: s)
  case (Cons x xs)
  from delete_ok [OF Cons.prems, of x] have d: "tinv G (xs @ F) (t, HandleTableArena_Delete x s)"
    "kept (t, s) (t, HandleTableArena_Delete x s)" by auto
  from Cons.IH [OF d(1)] d(2) show ?case using kept_trans by auto
qed simp

lemma Clean_ok:
  assumes "tinv G F (t, s)"
  shows "tinv G F (HandleTable_Clean (t, s)) \<and> kept (t, s) (HandleTable_Clean (t, s))"
proof -
  have ok: "table_ok F (t, s)" and w: "within G s" using assms by (auto simp: tinv_def)
  note D = table_okD [OF ok]
  define xs where "xs = ht_handles t"
  define s1 where "s1 = fold (\<lambda>x. set_handle_table_id x ZX_KOID_INVALID) xs s"
  define t1 where "t1 = t\<lparr>cursors := map Invalidate (cursors t), ht_count := 0, ht_handles := []\<rparr>"
  have e: "handles_wf s1" "arena s1 = arena s"
    "mem s1 y = (if y \<in> set xs then (mem s y)\<lparr>handle_table_id := 0\<rparr> else mem s y)" for y
    using fold_set_tid [OF D(1) _ s1_def] D(5) by (auto simp: xs_def)
  have "same_grants s s1" by (simp add: same_grants_def e)
  then have "within G s1" using w within_same by blast
  moreover have "table_ok (xs @ F) (t1, s1)" unfolding table_ok_def split_conv
  proof (intro conjI)
    show "\<forall>y. y \<in> set (ht_handles t1) \<longleftrightarrow> live s1 y \<and> tid s1 y = ht_koid t1"
      using D(2,5) by (simp add: e t1_def xs_def)
    show "\<forall>y. y \<in> set (xs @ F) \<longleftrightarrow> live s1 y \<and> tid s1 y = ZX_KOID_INVALID"
      using D(5,9) by (auto simp: e xs_def)
    show "distinct (xs @ F)" using D(2,4,5,8,9) by (auto simp: xs_def)
  qed (use D e in \<open>auto simp: t1_def Invalidate_def\<close>)
  ultimately have "tinv G (xs @ F) (t1, s1)" by (simp add: tinv_def)
  from fold_delete_ok [OF this]
  have "tinv G F (t1, fold HandleTableArena_Delete xs s1)" "kept (t1, s1) (t1, fold HandleTableArena_Delete xs s1)" by auto
  moreover have "kept (t, s) (t1, s1)" using D(5) by (auto simp: kept_def others_kept_def e t1_def xs_def)
  moreover have "HandleTable_Clean (t, s) = (t1, fold HandleTableArena_Delete xs s1)"
    by (simp add: HandleTable_Clean_def t1_def s1_def xs_def Let_def)
  ultimately show ?thesis using kept_trans by auto
qed

lemma cursor_ok:
  assumes "tinv G F (t, s)" and "\<forall>c\<in>set cs. \<forall>x. c_iter c = Some x \<longrightarrow> x \<in> set (ht_handles t)"
  shows "tinv G F (t\<lparr>cursors := cs\<rparr>, s) \<and> kept (t, s) (t\<lparr>cursors := cs\<rparr>, s)"
  using assms by (simp add: tinv_def table_ok_def kept_def)

lemma cursors_in: "tinv G F (t, s) \<Longrightarrow> \<forall>c\<in>set (cursors t). \<forall>x. c_iter c = Some x \<longrightarrow> x \<in> set (ht_handles t)"
  unfolding tinv_def table_ok_def by blast

lemma cursor_new_ok: "tinv G F (t, s) \<Longrightarrow> tinv G F (HandleCursor_new c t, s) \<and> kept (t, s) (HandleCursor_new c t, s)"
  unfolding HandleCursor_new_def
  by (rule cursor_ok, assumption) (drule cursors_in, cases "ht_handles t", simp_all)

lemma cursor_delete_ok: "tinv G F (t, s) \<Longrightarrow> tinv G F (HandleCursor_delete c t, s) \<and> kept (t, s) (HandleCursor_delete c t, s)"
  unfolding HandleCursor_delete_def by (rule cursor_ok, assumption) (drule cursors_in, auto)

section \<open>All tables together\<close>

text \<open>
  \<open>hs_grants\<close> records what the kernel granted: the object and the rights of every handle that
  was made anew. Every other step stays within it.
\<close>

record handle_system =
  hs_tables :: "koid \<Rightarrow> handle_table option"
  hs_arena :: handle_arena
  hs_flight :: "nat list"
  hs_grants :: "(nat \<times> zx_rights) set"

definition put_table :: "koid \<Rightarrow> table_state \<Rightarrow> handle_system \<Rightarrow> handle_system" where
  "put_table k st y = y\<lparr>hs_tables := (hs_tables y)(k \<mapsto> fst st), hs_arena := snd st\<rparr>"

inductive sys_step :: "handle_system \<Rightarrow> handle_system \<Rightarrow> bool" where
  sys_new: "hs_tables y k = None \<Longrightarrow> k \<noteq> ZX_KOID_INVALID \<Longrightarrow>
    sys_step y (y\<lparr>hs_tables := (hs_tables y)(k \<mapsto> HandleTable_new k secret)\<rparr>)"
| sys_make: "hs_tables y k = Some t \<Longrightarrow> MakeAndAddHandle ok i rights (t, hs_arena y) = (r, st) \<Longrightarrow>
    sys_step y (put_table k st (y\<lparr>hs_grants := insert (i, rights) (hs_grants y)\<rparr>))"
| sys_close: "hs_tables y k = Some t \<Longrightarrow> sys_handle_close v (t, hs_arena y) = (r, st) \<Longrightarrow> sys_step y (put_table k st y)"
| sys_close_many: "hs_tables y k = Some t \<Longrightarrow> sys_handle_close_many vs n (t, hs_arena y) = (r, st) \<Longrightarrow>
    sys_step y (put_table k st y)"
| sys_duplicate: "hs_tables y k = Some t \<Longrightarrow> sys_handle_duplicate ok v rights (t, hs_arena y) = (r', st) \<Longrightarrow>
    sys_step y (put_table k st y)"
| sys_replace: "hs_tables y k = Some t \<Longrightarrow> sys_handle_replace ok v rights (t, hs_arena y) = (r', st) \<Longrightarrow>
    sys_step y (put_table k st y)"
| sys_clean: "hs_tables y k = Some t \<Longrightarrow> sys_step y (put_table k (HandleTable_Clean (t, hs_arena y)) y)"
| sys_cursor: "hs_tables y k = Some t \<Longrightarrow> sys_step y (put_table k (HandleCursor_new c t, hs_arena y) y)"
| sys_cursor_end: "hs_tables y k = Some t \<Longrightarrow> sys_step y (put_table k (HandleCursor_delete c t, hs_arena y) y)"
| sys_send: "hs_tables y k = Some t \<Longrightarrow> get_handle_for_message ch v (t, hs_arena y) = (r, st) \<Longrightarrow>
    sys_step y (put_table k st (y\<lparr>hs_flight := (case r of Inl e \<Rightarrow> hs_flight y | Inr x \<Rightarrow> x # hs_flight y)\<rparr>))"
| sys_send_disposition: "hs_tables y k = Some t \<Longrightarrow> get_disposition_for_message ok ch d (t, hs_arena y) = (r, d', st) \<Longrightarrow>
    sys_step y (put_table k st (y\<lparr>hs_flight := (case r of Inl e \<Rightarrow> hs_flight y | Inr x \<Rightarrow> x # hs_flight y)\<rparr>))"
| sys_receive: "hs_tables y k = Some t \<Longrightarrow> x \<in> set (hs_flight y) \<Longrightarrow>
    sys_step y (put_table k (AddHandle x (t, hs_arena y)) (y\<lparr>hs_flight := remove1 x (hs_flight y)\<rparr>))"
| sys_drop: "hs_tables y k = Some t \<Longrightarrow> x \<in> set (hs_flight y) \<Longrightarrow>
    sys_step y (put_table k (t, HandleTableArena_Delete x (hs_arena y)) (y\<lparr>hs_flight := remove1 x (hs_flight y)\<rparr>))"

definition sys_inv :: "handle_system \<Rightarrow> bool" where
  "sys_inv y \<longleftrightarrow> handles_wf (hs_arena y) \<and> within (hs_grants y) (hs_arena y) \<and> distinct (hs_flight y) \<and>
     (\<forall>x. x \<in> set (hs_flight y) \<longleftrightarrow> live (hs_arena y) x \<and> tid (hs_arena y) x = ZX_KOID_INVALID) \<and>
     (\<forall>x. live (hs_arena y) x \<and> tid (hs_arena y) x \<noteq> ZX_KOID_INVALID \<longrightarrow> hs_tables y (tid (hs_arena y) x) \<noteq> None) \<and>
     (\<forall>k t. hs_tables y k = Some t \<longrightarrow> ht_koid t = k \<and> table_ok (hs_flight y) (t, hs_arena y))"

lemma sys_inv_tinv: "sys_inv y \<Longrightarrow> hs_tables y k = Some t \<Longrightarrow> tinv (hs_grants y) (hs_flight y) (t, hs_arena y) \<and> ht_koid t = k"
  by (auto simp: sys_inv_def tinv_def)

lemma other_table_ok:
  assumes "table_ok F (t2, s)" and "table_ok F' (t', s')" and "others_kept k s s'" and "ht_koid t2 \<noteq> k"
  shows "table_ok F' (t2, s')"
proof -
  have "live s' x \<and> tid s' x = ht_koid t2 \<longleftrightarrow> x \<in> set (ht_handles t2)" for x
    using assms(3,4) table_okD(2,5) [OF assms(1)] unfolding others_kept_def by blast
  then show ?thesis using table_okD(1,8,9) [OF assms(2)] table_okD(2-4,6,7) [OF assms(1)] unfolding table_ok_def by auto
qed

text \<open>A step of one table keeps the invariant of all.\<close>

lemma put_table_inv:
  assumes inv: "sys_inv y" and k: "hs_tables y k = Some t" and step: "tinv G F st'" "kept (t, hs_arena y) st'"
  shows "sys_inv (put_table k st' (y\<lparr>hs_flight := F, hs_grants := G\<rparr>))"
proof -
  obtain t' s' where st': "st' = (t', s')" by (cases st')
  have t: "ht_koid t = k" "table_ok (hs_flight y) (t, hs_arena y)" using inv k by (auto simp: sys_inv_def)
  have t': "table_ok F (t', s')" "within G s'" "ht_koid t' = k" and o: "others_kept k (hs_arena y) s'"
    using step t(1) by (auto simp: st' tinv_def kept_def)
  have k0: "k \<noteq> 0" using table_okD(2) [OF t(2)] t(1) by simp
  have "table_ok F (u, s') \<and> ht_koid u = m" if "((hs_tables y)(k \<mapsto> t')) m = Some u" for m u
  proof (cases "m = k")
    case True
    then show ?thesis using that t' by simp
  next
    case False
    then have u: "ht_koid u = m" "table_ok (hs_flight y) (u, hs_arena y)" using that inv by (auto simp: sys_inv_def)
    then show ?thesis using other_table_ok [OF u(2) t'(1) o] False by simp
  qed
  moreover have "((hs_tables y)(k \<mapsto> t')) (tid s' x) \<noteq> None" if "live s' x" "tid s' x \<noteq> 0" for x
  proof (cases "tid s' x = k")
    case False
    then have "live (hs_arena y) x \<and> tid (hs_arena y) x = tid s' x" using o that by (auto simp: others_kept_def)
    then show ?thesis using inv that False by (auto simp: sys_inv_def)
  qed simp
  ultimately show ?thesis using table_okD(1,8,9) [OF t'(1)] t'(2)
    unfolding sys_inv_def put_table_def st' by simp
qed

lemma new_table_inv:
  assumes inv: "sys_inv y" and k: "hs_tables y k = None" "k \<noteq> ZX_KOID_INVALID"
  shows "sys_inv (y\<lparr>hs_tables := (hs_tables y)(k \<mapsto> HandleTable_new k secret)\<rparr>)"
proof -
  have "\<not> (live (hs_arena y) x \<and> tid (hs_arena y) x = k)" for x using inv k by (auto simp: sys_inv_def)
  then have "table_ok (hs_flight y) (HandleTable_new k secret, hs_arena y)"
    using inv k new_table_mixer [of k secret] unfolding table_ok_def split_conv sys_inv_def by (simp add: HandleTable_new_def)
  then show ?thesis using inv by (auto simp: sys_inv_def HandleTable_new_def)
qed

lemma put_same:
  assumes "sys_inv y" and "hs_tables y k = Some t" and "tinv (hs_grants y) (hs_flight y) st' \<and> kept (t, hs_arena y) st'"
  shows "sys_inv (put_table k st' y)"
  using put_table_inv [OF assms(1,2), of "hs_grants y" "hs_flight y" st'] assms(3) by simp

lemma put_flight:
  assumes "sys_inv y" and "hs_tables y k = Some t" and "tinv (hs_grants y) F st' \<and> kept (t, hs_arena y) st'"
  shows "sys_inv (put_table k st' (y\<lparr>hs_flight := F\<rparr>))"
  using put_table_inv [OF assms(1,2), of "hs_grants y" F st'] assms(3) by (simp add: put_table_def)

lemma put_granted:
  assumes "sys_inv y" and "hs_tables y k = Some t" and "tinv G (hs_flight y) st' \<and> kept (t, hs_arena y) st'"
  shows "sys_inv (put_table k st' (y\<lparr>hs_grants := G\<rparr>))"
  using put_table_inv [OF assms(1,2), of G "hs_flight y" st'] assms(3) by (simp add: put_table_def)

lemma sys_step_inv: "sys_step y y' \<Longrightarrow> sys_inv y \<Longrightarrow> sys_inv y'"
proof (induction rule: sys_step.induct)
  case (sys_new y k secret)
  then show ?case by (intro new_table_inv)
next
  case (sys_make y k t ok i rights r st)
  then have "tinv (hs_grants y) (hs_flight y) (t, hs_arena y)" using sys_inv_tinv by blast
  from put_granted [OF sys_make(3,1) MakeAndAdd_ok [OF this sys_make(2)]] show ?case .
next
  case (sys_close y k t v r st)
  then have "tinv (hs_grants y) (hs_flight y) (t, hs_arena y)" using sys_inv_tinv by blast
  from put_same [OF sys_close(3,1) close_ok [OF this sys_close(2)]] show ?case .
next
  case (sys_close_many y k t vs n r st)
  then have "tinv (hs_grants y) (hs_flight y) (t, hs_arena y)" using sys_inv_tinv by blast
  from put_same [OF sys_close_many(3,1) close_many_ok [OF this sys_close_many(2)]] show ?case .
next
  case (sys_duplicate y k t ok v rights r' st)
  then have "tinv (hs_grants y) (hs_flight y) (t, hs_arena y)" using sys_inv_tinv by blast
  from put_same [OF sys_duplicate(3,1) dup_replace_ok [OF this sys_duplicate(2) [unfolded sys_handle_duplicate_def]]] show ?case .
next
  case (sys_replace y k t ok v rights r' st)
  then have "tinv (hs_grants y) (hs_flight y) (t, hs_arena y)" using sys_inv_tinv by blast
  from put_same [OF sys_replace(3,1) dup_replace_ok [OF this sys_replace(2) [unfolded sys_handle_replace_def]]] show ?case .
next
  case (sys_clean y k t)
  then have "tinv (hs_grants y) (hs_flight y) (t, hs_arena y)" using sys_inv_tinv by blast
  from put_same [OF sys_clean(2,1) Clean_ok [OF this]] show ?case .
next
  case (sys_cursor y k t c)
  then have "tinv (hs_grants y) (hs_flight y) (t, hs_arena y)" using sys_inv_tinv by blast
  from put_same [OF sys_cursor(2,1) cursor_new_ok [OF this]] show ?case .
next
  case (sys_cursor_end y k t c)
  then have "tinv (hs_grants y) (hs_flight y) (t, hs_arena y)" using sys_inv_tinv by blast
  from put_same [OF sys_cursor_end(2,1) cursor_delete_ok [OF this]] show ?case .
next
  case (sys_send y k t ch v r st)
  then have "tinv (hs_grants y) (hs_flight y) (t, hs_arena y)" using sys_inv_tinv by blast
  from get_message_ok [OF this sys_send(2)] show ?case by (intro put_flight [OF sys_send(3,1)]) (simp split: sum.splits)
next
  case (sys_send_disposition y k t ok ch d r d' st)
  then have "tinv (hs_grants y) (hs_flight y) (t, hs_arena y)" using sys_inv_tinv by blast
  from get_disposition_ok [OF this sys_send_disposition(2)] show ?case
    by (intro put_flight [OF sys_send_disposition(3,1)]) (simp split: sum.splits)
next
  case (sys_receive y k t x)
  then have "tinv (hs_grants y) (hs_flight y) (t, hs_arena y)" using sys_inv_tinv by blast
  from put_flight [OF sys_receive(3,1) add_ok [OF this sys_receive(2)]] show ?case by (simp add: AddHandle_def)
next
  case (sys_drop y k t x)
  then have "tinv (hs_grants y) (hs_flight y) (t, hs_arena y)" using sys_inv_tinv by blast
  from put_flight [OF sys_drop(3,1) delete_ok [OF this sys_drop(2)]] show ?case .
qed

definition sys_initial :: "handle_system \<Rightarrow> bool" where
  "sys_initial y \<longleftrightarrow> hs_tables y = (\<lambda>_. None) \<and> hs_flight y = [] \<and> hs_grants y = {} \<and>
     (\<exists>objs. (\<forall>i. handle_count (o_disp (objs i)) = 0) \<and> Handle_Init objs = Inr (hs_arena y))"

definition sys_reach :: "handle_system \<Rightarrow> bool" where
  "sys_reach y \<longleftrightarrow> (\<exists>y0. sys_initial y0 \<and> sys_step\<^sup>*\<^sup>* y0 y)"

lemma sys_initial_inv: "sys_initial y \<Longrightarrow> sys_inv y"
proof -
  assume y: "sys_initial y"
  then obtain objs where "\<forall>i. handle_count (o_disp (objs i)) = 0" "Handle_Init objs = Inr (hs_arena y)"
    by (auto simp: sys_initial_def)
  then have "handles_wf (hs_arena y) \<and> (\<forall>x. \<not> live (hs_arena y) x)" using Init_wf by blast
  then show ?thesis using y by (simp add: sys_inv_def sys_initial_def within_def)
qed

lemma sys_reach_inv: "sys_reach y \<Longrightarrow> sys_inv y"
proof -
  have "sys_step\<^sup>*\<^sup>* y0 y \<Longrightarrow> sys_inv y0 \<Longrightarrow> sys_inv y" for y0
    by (induction rule: rtranclp_induct) (auto dest: sys_step_inv)
  then show "sys_reach y \<Longrightarrow> ?thesis" using sys_initial_inv unfolding sys_reach_def by blast
qed

section \<open>Properties\<close>

text \<open>
  C1. A process can name its own handles and nothing else. In every state that any number of
  handle tables can reach by making, closing, duplicating, replacing, sending and receiving
  handles: a table resolves a value exactly when it is the value of a handle the table holds,
  to that handle; no value is the invalid one; no handle is in two tables; and the table counts
  its handles.
\<close>

theorem handle_lookup_exact:
  assumes "sys_reach y" and "hs_tables y k = Some t"
  shows "(fst (GetHandleLocked caller v (t, hs_arena y)) = Some x \<longleftrightarrow>
      x \<in> set (ht_handles t) \<and> v = MapHandleToValue x (t, hs_arena y)) \<and>
    fst (GetHandleLocked caller ZX_HANDLE_INVALID (t, hs_arena y)) = None \<and>
    distinct (ht_handles t) \<and> HandleCount t = of_nat (length (ht_handles t)) \<and>
    (\<forall>m u. hs_tables y m = Some u \<and> m \<noteq> k \<longrightarrow> set (ht_handles u) \<inter> set (ht_handles t) = {})"
proof -
  have inv: "sys_inv y" using assms(1) by (rule sys_reach_inv)
  have ok: "table_ok (hs_flight y) (t, hs_arena y)" "ht_koid t = k" using inv assms(2) by (auto simp: sys_inv_def)
  note D = table_okD [OF ok(1)]
  have "fst (GetHandleLocked caller ZX_HANDLE_INVALID (t, hs_arena y)) \<noteq> Some z" for z
    using GetHandle_iff [OF ok(1), of caller ZX_HANDLE_INVALID z] value_never_invalid [OF D(3), of "mem (hs_arena y) z"]
    by (auto simp: MapHandleToValue_def)
  moreover have "set (ht_handles u) \<inter> set (ht_handles t) = {}" if "hs_tables y m = Some u" "m \<noteq> k" for m u
  proof -
    have u: "table_ok (hs_flight y) (u, hs_arena y)" "ht_koid u = m" using inv that(1) by (auto simp: sys_inv_def)
    show ?thesis unfolding disjoint_iff using D(5) table_okD(5) [OF u(1)] ok(2) u(2) that(2) by metis
  qed
  moreover have "HandleCount t = of_nat (length (ht_handles t))" using D(6) by (simp add: HandleCount_def)
  ultimately show ?thesis using GetHandle_iff [OF ok(1), of caller v x] D(4) by (metis (no_types) not_None_eq)
qed

lemma example_system:
  obtains y where "sys_reach y" "hs_tables y 9 = Some (HandleTable_new 9 1)"
proof -
  let ?objs = "\<lambda>i. \<lparr>o_disp = Dispatcher_new i True 0, o_type = 5, o_owner = 0\<rparr>"
  obtain s where s: "Handle_Init ?objs = Inr s"
    by (simp add: Handle_Init_def GPArena_Init_def kMaxHandleCount_def)
  define y0 where "y0 = \<lparr>hs_tables = (\<lambda>_. None), hs_arena = s, hs_flight = [], hs_grants = {}\<rparr>"
  have "sys_initial y0" using s by (auto simp: y0_def sys_initial_def Dispatcher_new_def intro!: exI [of _ ?objs])
  moreover have "sys_step y0 (y0\<lparr>hs_tables := (hs_tables y0)(9 \<mapsto> HandleTable_new 9 1)\<rparr>)"
    by (rule sys_new) (simp_all add: y0_def)
  ultimately have "sys_reach (y0\<lparr>hs_tables := (hs_tables y0)(9 \<mapsto> HandleTable_new 9 1)\<rparr>)"
    unfolding sys_reach_def by blast
  then show thesis by (rule that) simp
qed

theorem handle_lookup_exact_witness:
  "\<exists>y t. sys_reach y \<and> hs_tables y 9 = Some t \<and> fst (GetHandleLocked True ZX_HANDLE_INVALID (t, hs_arena y)) = None"
proof -
  obtain y where y: "sys_reach y" "hs_tables y 9 = Some (HandleTable_new 9 1)" by (rule example_system)
  from handle_lookup_exact [OF y, of True 0 0] y show ?thesis by blast
qed

text \<open>
  C2. No sequence of operations gains rights. In every reachable state, if a process obtains an
  object through a handle value with some desired rights, then it has the desired rights, and
  its rights are contained in those of one handle that the kernel made for that object.
\<close>

theorem rights_confined:
  assumes "sys_reach y" and "hs_tables y k = Some t"
    and "GetDispatcherWithRightsImpl caller ty v desired (t, hs_arena y) = (Inr (i, rights), t')"
  shows "rights AND desired = desired \<and> (\<exists>R. (i, R) \<in> hs_grants y \<and> rights AND R = rights)"
proof -
  let ?s = "hs_arena y"
  have inv: "sys_inv y" using assms(1) by (rule sys_reach_inv)
  have ok: "table_ok (hs_flight y) (t, ?s)" and w: "within (hs_grants y) ?s"
    using inv assms(2) by (auto simp: sys_inv_def)
  obtain x t1 where g: "GetHandleLocked caller v (t, ?s) = (Some x, t1)"
    using assms(3) by (auto simp: GetDispatcherWithRightsImpl_def split: option.splits prod.splits)
  then have x: "x \<in> set (ht_handles t)" using GetHandle_iff [OF ok, of caller v x] by simp
  have i: "h_object (mem ?s x) = Some i" "rights = h_rights (mem ?s x)" "HasRights (mem ?s x) desired"
    using assms(3) g by (auto simp: GetDispatcherWithRightsImpl_def DownCastDispatcher_def Let_def
        split: option.splits if_splits)
  have "live ?s x" using table_okD(5) [OF ok] x by simp
  then show ?thesis using w i unfolding within_def HasRights_def by blast
qed

lemma example_handle:
  obtains y t x where "sys_reach y" "hs_tables y 9 = Some t" "ht_handles t = [x]"
    "h_object (mem (hs_arena y) x) = Some 2" "h_rights (mem (hs_arena y) x) = 5" "handles_to (hs_arena y) 2 = {x}"
proof -
  let ?objs = "\<lambda>i. \<lparr>o_disp = Dispatcher_new i True 0, o_type = 5, o_owner = 0\<rparr>"
  obtain s where s: "Handle_Init ?objs = Inr s" by (simp add: Handle_Init_def GPArena_Init_def kMaxHandleCount_def)
  have wf: "handles_wf s" "\<not> live s z" for z using Init_wf [OF s] by (auto simp: Dispatcher_new_def)
  have a: "arena s = \<lparr>ga_top = 0, ga_committed = 0, ga_end = kMaxHandleCount * sizeof_Handle, ga_count = 0, free_list = []\<rparr>"
    using s by (auto simp: Handle_Init_def GPArena_Init_def kMaxHandleCount_def sizeof_Handle_def ROUNDUP_def PAGE_SIZE_def)
  have "fst (Handle_Make True 2 5 s) = Some 0"
    by (simp add: Handle_Make_def HandleTableArena_Alloc_def GPArena_Alloc_def FreeList_Pop_def Grow_def a Let_def
        PAGE_SIZE_def kMaxHandleCount_def sizeof_Handle_def)
  then obtain s1 where mk: "Handle_Make True 2 5 s = (Some 0, s1)" by (metis prod.collapse)
  note E = Make_effect [OF wf(1) mk]
  define s2 where "s2 = set_handle_table_id 0 9 s1"
  note S = set_table_effect [of s1 0 s2 9]
  have s2: "arena s2 = arena s1" "mem s2 = (mem s1)(0 := (mem s1 0)\<lparr>handle_table_id := 9\<rparr>)" using S E s2_def by auto
  define t where "t = fst (AddHandleLocked 0 (HandleTable_new 9 1, s1))"
  define y0 where "y0 = \<lparr>hs_tables = (\<lambda>_. None), hs_arena = s, hs_flight = [], hs_grants = {}\<rparr>"
  define y1 where "y1 = y0\<lparr>hs_tables := (hs_tables y0)(9 \<mapsto> HandleTable_new 9 1)\<rparr>"
  have init: "sys_initial y0" using s by (auto simp: y0_def sys_initial_def Dispatcher_new_def intro!: exI [of _ ?objs])
  have st1: "sys_step y0 y1" unfolding y1_def by (rule sys_new) (simp_all add: y0_def)
  have "MakeAndAddHandle True 2 5 (HandleTable_new 9 1, hs_arena y1) = (Inr (MapHandleToValue 0 (HandleTable_new 9 1, s1)), t, s2)"
    by (simp add: MakeAndAddHandle_def y1_def y0_def mk AddHandle_def AddHandleLocked_def t_def s2_def HandleTable_new_def)
  then have "sys_step y1 (put_table 9 (t, s2) (y1\<lparr>hs_grants := insert (2, 5) (hs_grants y1)\<rparr>))"
    by (intro sys_make) (auto simp: y1_def)
  then have "sys_reach (put_table 9 (t, s2) (y1\<lparr>hs_grants := insert (2, 5) (hs_grants y1)\<rparr>))"
    using init st1 unfolding sys_reach_def by (meson converse_rtranclp_into_rtranclp rtranclp.rtrancl_refl)
  then show thesis
  proof (rule that [of _ t 0])
    show "ht_handles t = [0]" by (simp add: t_def AddHandleLocked_def HandleTable_new_def)
    show "handles_to (hs_arena (put_table 9 (t, s2) (y1\<lparr>hs_grants := insert (2, 5) (hs_grants y1)\<rparr>))) 2 = {0}"
      using E wf(2) s2 by (auto simp: handles_to_def put_table_def)
  qed (use E s2 in \<open>simp_all add: put_table_def\<close>)
qed

theorem rights_confined_witness:
  "\<exists>y t v i rights. sys_reach y \<and> hs_tables y 9 = Some t \<and>
     fst (GetDispatcherWithRightsImpl True 0 v 4 (t, hs_arena y)) = Inr (i, rights) \<and> (\<exists>R. (i, R) \<in> hs_grants y)"
proof -
  obtain y t x where y: "sys_reach y" "hs_tables y 9 = Some t" and x: "ht_handles t = [x]"
    "h_object (mem (hs_arena y) x) = Some 2" "h_rights (mem (hs_arena y) x) = 5" by (rule example_handle)
  let ?v = "MapHandleToValue x (t, hs_arena y)"
  have ok: "table_ok (hs_flight y) (t, hs_arena y)" using sys_reach_inv [OF y(1)] y(2) by (auto simp: sys_inv_def)
  then have "fst (GetHandleLocked True ?v (t, hs_arena y)) = Some x" using GetHandle_iff [OF ok, of True ?v x] x(1) by simp
  then obtain t1 where "GetHandleLocked True ?v (t, hs_arena y) = (Some x, t1)" by (metis prod.collapse)
  then have c: "GetDispatcherWithRightsImpl True 0 ?v 4 (t, hs_arena y) = (Inr (2, 5), t1)"
    using x by (simp add: GetDispatcherWithRightsImpl_def DownCastDispatcher_def ZX_OBJ_TYPE_NONE_def HasRights_def)
  from rights_confined [OF y c] have "\<exists>R. (2, R) \<in> hs_grants y" by blast
  with y c show ?thesis by (metis fst_conv)
qed

text \<open>
  C11. Closing a handle that resolves succeeds and removes it, and tells the object that it has
  no more handles exactly if it was the last one of all processes and messages.
\<close>

theorem last_close_notifies:
  assumes "sys_reach y" and "hs_tables y k = Some t" and "fst (GetHandleLocked True v (t, hs_arena y)) = Some x"
    and "h_object (mem (hs_arena y) x) = Some i" and "sys_handle_close v (t, hs_arena y) = (r, t', s')"
  shows "r = ZX_OK \<and> fst (GetHandleLocked True v (t', s')) = None \<and> ht_handles t' = remove1 x (ht_handles t) \<and>
    zero_handles s' = zero_handles (hs_arena y) @ (if handles_to (hs_arena y) i = {x} then [i] else [])"
proof -
  let ?s = "hs_arena y"
  have inv: "sys_inv y" using assms(1) by (rule sys_reach_inv)
  have ti: "tinv (hs_grants y) (hs_flight y) (t, ?s)" and ok: "table_ok (hs_flight y) (t, ?s)"
    using sys_inv_tinv [OF inv assms(2)] by (auto simp: tinv_def)
  have x: "x \<in> set (ht_handles t)" "v = MapHandleToValue x (t, ?s)" using GetHandle_iff [OF ok] assms(3) by auto
  have lx: "live ?s x" using table_okD(5) [OF ok] x(1) by simp
  have v: "v \<noteq> ZX_HANDLE_INVALID" using x(2) value_never_invalid [OF table_okD(3) [OF ok]] by (simp add: MapHandleToValue_def)
  have g: "GetHandleLocked True v (t, ?s) = (Some x, t)" using get_in_table [OF ti] assms(3) by (metis prod.collapse)
  define s1 where "s1 = set_handle_table_id x 0 ?s"
  note S = set_table_effect [OF table_okD(1) [OF ok] lx s1_def]
  have r: "r = ZX_OK" and st: "(t', s') = delete_owned x (RemoveHandleLocked x (t, ?s))" and s': "s' = HandleTableArena_Delete x s1"
    and t': "ht_handles t' = remove1 x (ht_handles t)" "random_value t' = random_value t"
    using assms(5) g v by (auto simp: sys_handle_close_def RemoveHandle_def delete_owned_def RemoveHandleLocked_def s1_def)
  have s1: "handles_wf s1" "live s1 x" "tid s1 x = 0" "h_object (mem s1 x) = Some i" "handles_to s1 i = handles_to ?s i"
    using S lx assms(4) by (auto simp: handles_to_def)
  note E = Delete_effect [OF s1(1-4) s']
  have ok': "table_ok (hs_flight y) (t', s')" using remove_delete_ok [OF ti x(1)] st by (auto simp: tinv_def)
  have base: "base_value (mem s' z) = base_value (mem ?s z)" for z using E S by (cases "z = x") auto
  have "fst (GetHandleLocked True v (t', s')) \<noteq> Some z" for z
  proof
    assume "fst (GetHandleLocked True v (t', s')) = Some z"
    then have z: "z \<in> set (ht_handles t')" "v = MapHandleToValue z (t', s')" using GetHandle_iff [OF ok'] by auto
    then have "v = MapHandleToValue z (t, ?s)" using base t'(2) by (simp add: MapHandleToValue_def map_handle_to_value_def)
    moreover have "z \<in> set (ht_handles t)" using z(1) t'(1) notin_set_remove1 by metis
    ultimately have "z = x" using GetHandle_iff [OF ok, of True v] assms(3) by (metis option.inject)
    then show False using z(1) t'(1) table_okD(4) [OF ok] by simp
  qed
  then show ?thesis using r t'(1) E S s1(5) by (metis not_None_eq)
qed

theorem last_close_notifies_witness:
  "\<exists>y t v t' s'. sys_reach y \<and> hs_tables y 9 = Some t \<and> sys_handle_close v (t, hs_arena y) = (ZX_OK, t', s') \<and>
     zero_handles s' = zero_handles (hs_arena y) @ [2]"
proof -
  obtain y t x where y: "sys_reach y" "hs_tables y 9 = Some t" and x: "ht_handles t = [x]"
    "h_object (mem (hs_arena y) x) = Some 2" "handles_to (hs_arena y) 2 = {x}" by (rule example_handle)
  let ?v = "MapHandleToValue x (t, hs_arena y)"
  have ok: "table_ok (hs_flight y) (t, hs_arena y)" using sys_reach_inv [OF y(1)] y(2) by (auto simp: sys_inv_def)
  then have g: "fst (GetHandleLocked True ?v (t, hs_arena y)) = Some x" using GetHandle_iff [OF ok, of True ?v x] x(1) by simp
  obtain r t' s' where c: "sys_handle_close ?v (t, hs_arena y) = (r, t', s')" by (metis prod_cases3)
  from last_close_notifies [OF y g x(2) c] have "r = ZX_OK" "zero_handles s' = zero_handles (hs_arena y) @ [2]"
    using x(3) by simp_all
  with c y show ?thesis by blast
qed


text \<open>
  C33. The status of closing many handles is that of the last chunk only. Closing 64
  handles and then the invalid handle reports success even if some of the first 64 values did
  not resolve, although every value is looked at.
\<close>

theorem close_many_loses_error:
  assumes "length vs = kMaxMessageHandles" and "RemoveHandles vs st = (ZX_ERR_BAD_HANDLE, st')"
    and "kMaxMessageHandles + 1 \<le> readable"
  shows "sys_handle_close_many (vs @ [ZX_HANDLE_INVALID]) readable st = (ZX_OK, st')"
proof -
  let ?user = "vs @ [ZX_HANDLE_INVALID]"
  let ?c = "consume_handles ?user readable"
  have len: "length vs = 64" using assms(1) by (simp add: kMaxMessageHandles_def)
  have c1: "?c 0 64 (replicate 64 ZX_HANDLE_INVALID) = (ZX_OK, vs)"
    using len assms(3) by (simp add: consume_handles_def copy_array_from_user_def kMaxMessageHandles_def)
  have c2: "?c 64 1 vs = (ZX_OK, ZX_HANDLE_INVALID # drop 1 vs)"
    using len assms(3) by (simp add: consume_handles_def copy_array_from_user_def kMaxMessageHandles_def)
  have "remove_user_handles_loop ?c 65 0 (replicate 64 ZX_HANDLE_INVALID) ZX_OK st =
      remove_user_handles_loop ?c 65 64 vs ZX_ERR_BAD_HANDLE st'"
    using c1 len assms(2) by (subst remove_user_handles_loop.simps) (simp add: kMaxMessageHandles_def)
  also have "\<dots> = remove_user_handles_loop ?c 65 65 (ZX_HANDLE_INVALID # drop 1 vs) ZX_OK st'"
    using c2 by (subst remove_user_handles_loop.simps) (simp add: kMaxMessageHandles_def RemoveHandles_def)
  also have "\<dots> = (ZX_OK, st')" by (subst remove_user_handles_loop.simps) simp
  finally show ?thesis using len by (simp add: sys_handle_close_many_def RemoveUserHandles_def kMaxMessageHandles_def)
qed

theorem close_many_loses_error_witness:
  "\<exists>st st'. RemoveHandles (1 # replicate 63 0) st = (ZX_ERR_BAD_HANDLE, st') \<and>
     sys_handle_close_many ((1 # replicate 63 0) @ [ZX_HANDLE_INVALID]) 65 st = (ZX_OK, st')"
proof -
  obtain y where y: "sys_reach y" "hs_tables y 9 = Some (HandleTable_new 9 1)" by (rule example_system)
  let ?t = "HandleTable_new 9 1" and ?s = "hs_arena y"
  have ok: "table_ok (hs_flight y) (?t, ?s)" using sys_reach_inv [OF y(1)] y(2) by (auto simp: sys_inv_def)
  have "fst (GetHandleLocked True 1 (?t, ?s)) \<noteq> Some x" for x
    using GetHandle_iff [OF ok, of True 1 x] by (simp add: HandleTable_new_def)
  then obtain t1 where g: "GetHandleLocked True 1 (?t, ?s) = (None, t1)" by (metis not_None_eq prod.collapse)
  have zeros: "remove_handles_loop (replicate n 0) r st = (r, st)" for n r st
    by (induction n) (simp_all add: ZX_HANDLE_INVALID_def)
  have rm: "RemoveHandles (1 # replicate 63 0) (?t, ?s) = (ZX_ERR_BAD_HANDLE, t1, ?s)"
    by (simp only: RemoveHandles_def remove_handles_loop.simps RemoveHandle_def) (simp add: g zeros ZX_HANDLE_INVALID_def)
  have "length (1 # replicate 63 (0 :: zx_handle)) = kMaxMessageHandles" by (simp add: kMaxMessageHandles_def)
  from close_many_loses_error [OF this rm, of 65] rm show ?thesis by (auto simp: kMaxMessageHandles_def)
qed

end
