(* ===== verification/Port.thy ===== *)
theory Port
  imports Dispatcher Time
begin

text \<open>
  Ports (\<^verbatim>\<open>kernel/object/port_dispatcher.cc\<close>): a queue of packets that are sent by users,
  by interrupts, and by observers of other objects. A packet and an observer are named by
  numbers; the packet inside an observer has the observer's number. The memory of packets and
  observers is a map, so that an access to a destroyed one is a failure (\<open>None\<close>) of the model.
  The objects that are observed are dispatchers, whose callbacks are delivered to the port's
  observers. The theory shows that every queued packet has its post of the semaphore, that the
  count of user packets is exact, and what cancelling by key does to packets and observers.
\<close>

section \<open>State\<close>

definition ZX_PKT_TYPE_USER :: u32 where "ZX_PKT_TYPE_USER = 0"
definition ZX_PKT_TYPE_SIGNAL_ONE :: u32 where "ZX_PKT_TYPE_SIGNAL_ONE = 1"
definition ZX_PKT_TYPE_INTERRUPT :: u32 where "ZX_PKT_TYPE_INTERRUPT = 7"
definition kPortPacketTypeCanceled :: u32 where "kPortPacketTypeCanceled = 0xffffffff"
definition ZX_WAIT_ASYNC_TIMESTAMP :: u32 where "ZX_WAIT_ASYNC_TIMESTAMP = 1"
definition ZX_WAIT_ASYNC_EDGE :: u32 where "ZX_WAIT_ASYNC_EDGE = 2"
definition ZX_PORT_BIND_TO_INTERRUPT :: u32 where "ZX_PORT_BIND_TO_INTERRUPT = push_bit 0 1"

definition kMaxAllocatedPacketCountPerPort :: nat where
  "kMaxAllocatedPacketCountPerPort = 4096"

text \<open>The members of the packet's union are separate fields; the type says which one is meant.\<close>

record zx_port_packet =
  pp_key :: u64
  pp_type :: u32
  pp_status :: int
  pp_user :: "byte list"
  pp_trigger :: zx_signals
  pp_observed :: zx_signals
  pp_count :: u64
  pp_timestamp :: zx_time

definition zero_packet :: zx_port_packet where
  "zero_packet = \<lparr>pp_key = 0, pp_type = 0, pp_status = 0, pp_user = [], pp_trigger = 0, pp_observed = 0,
     pp_count = 0, pp_timestamp = 0\<rparr>"

text \<open>A packet has no allocator, the default one of ports, or another one (of guests).\<close>

datatype port_allocator = DefaultPortAllocator | OtherPortAllocator

record port_packet =
  pk_packet :: zx_port_packet
  pk_handle :: "nat option"
  pk_observer :: "nat option"
  pk_allocator :: "port_allocator option"

record port_interrupt_packet =
  ip_id :: nat
  ip_timestamp :: zx_time
  ip_key :: u64

record port_observer =
  po_options :: u32
  po_dispatcher :: "nat option"

record port =
  p_id :: nat
  p_options :: u32
  p_zero_handles :: bool
  num_ephemeral_packets :: nat
  packets :: "nat list"
  interrupt_packets :: "port_interrupt_packet list"
  p_observers :: "nat list"
  sema :: nat
  packet_mem :: "nat \<Rightarrow> port_packet option"
  observer_mem :: "nat \<Rightarrow> port_observer option"
  policy_exceptions :: nat

definition is_ephemeral :: "port_packet \<Rightarrow> bool" where
  "is_ephemeral pk \<longleftrightarrow> pk_allocator pk \<noteq> None"

definition is_canceled :: "port_packet \<Rightarrow> bool" where
  "is_canceled pk \<longleftrightarrow> pp_type (pk_packet pk) = kPortPacketTypeCanceled"

definition IsDefaultAllocatedEphemeral :: "port_packet \<Rightarrow> bool" where
  "IsDefaultAllocatedEphemeral pk \<longleftrightarrow> pk_allocator pk = Some DefaultPortAllocator \<and> is_ephemeral pk"

definition PortPacket_new :: "nat option \<Rightarrow> port_allocator option \<Rightarrow> port_packet" where
  "PortPacket_new h a = \<lparr>pk_packet = zero_packet, pk_handle = h, pk_observer = None, pk_allocator = a\<rparr>"

definition PortDispatcher_Create :: "bool \<Rightarrow> nat \<Rightarrow> u32 \<Rightarrow> zx_status + port" where
  "PortDispatcher_Create alloc i options =
     (if options \<noteq> 0 \<and> options \<noteq> ZX_PORT_BIND_TO_INTERRUPT then Inl ZX_ERR_INVALID_ARGS
      else if \<not> alloc then Inl ZX_ERR_NO_MEMORY
      else Inr \<lparr>p_id = i, p_options = options, p_zero_handles = False, num_ephemeral_packets = 0, packets = [],
                interrupt_packets = [], p_observers = [], sema = 0, packet_mem = (\<lambda>_. None),
                observer_mem = (\<lambda>_. None), policy_exceptions = 0\<rparr>)"

definition can_bind_to_interrupt :: "port \<Rightarrow> bool" where
  "can_bind_to_interrupt p \<longleftrightarrow> p_options p AND ZX_PORT_BIND_TO_INTERRUPT \<noteq> 0"

definition free_packet :: "nat \<Rightarrow> port \<Rightarrow> port" where
  "free_packet i p = p\<lparr>packet_mem := (packet_mem p)(i := None)\<rparr>"

text \<open>Destroying an observer destroys the packet in it.\<close>

definition destroy_observer :: "nat \<Rightarrow> port \<Rightarrow> port" where
  "destroy_observer i p = p\<lparr>observer_mem := (observer_mem p)(i := None), packet_mem := (packet_mem p)(i := None)\<rparr>"

text \<open>\<open>observer.reset()\<close> of a packet: the observer it owns, if any, goes, and the packet in it.\<close>

definition reset_observer :: "nat \<Rightarrow> port \<Rightarrow> port" where
  "reset_observer i p =
     (case packet_mem p i of
        None \<Rightarrow> p
      | Some pk \<Rightarrow>
          (case pk_observer pk of
             None \<Rightarrow> p
           | Some ob \<Rightarrow> destroy_observer ob (p\<lparr>packet_mem := (packet_mem p)(i \<mapsto> pk\<lparr>pk_observer := None\<rparr>)\<rparr>)))"

section \<open>Queueing and taking packets\<close>

definition Port_Queue :: "nat \<Rightarrow> zx_signals \<Rightarrow> port \<Rightarrow> (zx_status \<times> port) option" where
  "Port_Queue i observed p =
     (case packet_mem p i of
        None \<Rightarrow> None
      | Some pk \<Rightarrow>
          if p_zero_handles p then Some (ZX_ERR_BAD_HANDLE, p)
          else if is_canceled pk then Some (ZX_OK, p)
          else if IsDefaultAllocatedEphemeral pk \<and> num_ephemeral_packets p > kMaxAllocatedPacketCountPerPort
          then Some (ZX_ERR_SHOULD_WAIT, p\<lparr>policy_exceptions := policy_exceptions p + 1\<rparr>)
          else
            let pk1 = (if observed \<noteq> 0
                       then pk\<lparr>pk_packet := (pk_packet pk)\<lparr>pp_observed := observed, pp_count := 1\<rparr>\<rparr> else pk);
                p1 = p\<lparr>packet_mem := (packet_mem p)(i \<mapsto> pk1), packets := packets p @ [i]\<rparr>;
                p2 = (if IsDefaultAllocatedEphemeral pk1
                      then p1\<lparr>num_ephemeral_packets := num_ephemeral_packets p1 + 1\<rparr> else p1)
            in Some (ZX_OK, p2\<lparr>sema := sema p2 + 1\<rparr>))"

text \<open>\<open>i\<close> is the packet the allocator gives, or \<open>None\<close>.\<close>

definition QueueUser :: "nat option \<Rightarrow> zx_port_packet \<Rightarrow> port \<Rightarrow> (zx_status \<times> port) option" where
  "QueueUser alloc packet p =
     (case alloc of
        None \<Rightarrow> Some (ZX_ERR_NO_MEMORY, p)
      | Some i \<Rightarrow>
          let pk = (PortPacket_new None (Some DefaultPortAllocator))\<lparr>pk_packet := packet\<lparr>pp_type := ZX_PKT_TYPE_USER\<rparr>\<rparr>;
              p1 = p\<lparr>packet_mem := (packet_mem p)(i \<mapsto> pk)\<rparr>
          in case Port_Queue i 0 p1 of
               None \<Rightarrow> None
             | Some (status, p2) \<Rightarrow> Some (status, if status \<noteq> ZX_OK then free_packet i p2 else p2))"

definition RemoveInterruptPacket :: "nat \<Rightarrow> port \<Rightarrow> bool \<times> port" where
  "RemoveInterruptPacket i p =
     (if i \<in> ip_id ` set (interrupt_packets p)
      then (True, p\<lparr>interrupt_packets := filter (\<lambda>ip. ip_id ip \<noteq> i) (interrupt_packets p)\<rparr>)
      else (False, p))"

definition QueueInterruptPacket :: "nat \<Rightarrow> u64 \<Rightarrow> zx_time \<Rightarrow> port \<Rightarrow> bool \<times> port" where
  "QueueInterruptPacket i key timestamp p =
     (if i \<in> ip_id ` set (interrupt_packets p) then (False, p)
      else (True, p\<lparr>interrupt_packets := interrupt_packets p @ [\<lparr>ip_id = i, ip_timestamp = timestamp, ip_key = key\<rparr>],
                    sema := sema p + 1\<rparr>))"

text \<open>One turn of \<open>Dequeue\<close> after the semaphore was taken; the result is the packet, if there is one.\<close>

definition dequeue_once :: "port \<Rightarrow> (zx_port_packet option \<times> port) option" where
  "dequeue_once p =
     (case (if p_options p = ZX_PORT_BIND_TO_INTERRUPT then interrupt_packets p else []) of
        ip # rest \<Rightarrow>
          Some (Some (zero_packet\<lparr>pp_key := ip_key ip, pp_type := ZX_PKT_TYPE_INTERRUPT, pp_status := 0,
                        pp_timestamp := ip_timestamp ip\<rparr>), p\<lparr>interrupt_packets := rest\<rparr>)
      | [] \<Rightarrow>
          (case packets p of
             [] \<Rightarrow> Some (None, p)
           | i # rest \<Rightarrow>
               (case packet_mem p i of
                  None \<Rightarrow> None
                | Some pk \<Rightarrow>
                    let p1 = p\<lparr>packets := rest\<rparr>;
                        p2 = (if IsDefaultAllocatedEphemeral pk
                              then p1\<lparr>num_ephemeral_packets := num_ephemeral_packets p1 - 1\<rparr> else p1);
                        p3 = reset_observer i p2
                    in Some (Some (pk_packet pk), if is_ephemeral pk then free_packet i p3 else p3))))"

lemma dequeue_once_nothing: "dequeue_once p = Some (None, q) \<Longrightarrow> q = p"
  by (auto simp: dequeue_once_def Let_def split: list.splits option.splits if_splits)

text \<open>
  The loop of \<open>Dequeue\<close>. A thread that finds the semaphore at zero blocks; \<open>wait_status\<close> is what
  the wait returns when nobody posts before the deadline.
\<close>

function Dequeue :: "zx_status \<Rightarrow> port \<Rightarrow> ((zx_status + zx_port_packet) \<times> port) option" where
  "Dequeue wait_status p =
     (if sema p = 0 then Some (Inl wait_status, p)
      else case dequeue_once (p\<lparr>sema := sema p - 1\<rparr>) of
             None \<Rightarrow> None
           | Some (Some packet, p1) \<Rightarrow> Some (Inr packet, p1)
           | Some (None, p1) \<Rightarrow> Dequeue wait_status p1)"
  by pat_completeness auto

termination
  by (relation "measure (\<lambda>(w, p). sema p)") (auto dest: dequeue_once_nothing)

declare Dequeue.simps [simp del]

section \<open>Observers\<close>

definition UnlinkDispatcherLocked :: "nat \<Rightarrow> port \<Rightarrow> (nat option \<times> port) option" where
  "UnlinkDispatcherLocked i p =
     (case observer_mem p i of
        None \<Rightarrow> None
      | Some ob \<Rightarrow> Some (po_dispatcher ob, p\<lparr>observer_mem := (observer_mem p)(i \<mapsto> ob\<lparr>po_dispatcher := None\<rparr>)\<rparr>))"

text \<open>Erasing from a list an element that it does not hold is a failure.\<close>

definition MaybeReap :: "nat \<Rightarrow> port \<Rightarrow> port option" where
  "MaybeReap i p =
     (case UnlinkDispatcherLocked i p of
        None \<Rightarrow> None
      | Some (None, p1) \<Rightarrow> Some p1
      | Some (Some d, p1) \<Rightarrow>
          if i \<notin> set (p_observers p1) then None
          else
            let p2 = p1\<lparr>p_observers := remove1 i (p_observers p1)\<rparr>
            in if i \<in> set (packets p2)
               then (case packet_mem p2 i of
                       None \<Rightarrow> None
                     | Some pk \<Rightarrow> Some (p2\<lparr>packet_mem := (packet_mem p2)(i \<mapsto> pk\<lparr>pk_observer := Some i\<rparr>)\<rparr>))
               else Some (destroy_observer i p2))"

definition PortObserver_OnMatch :: "nat \<Rightarrow> zx_signals \<Rightarrow> zx_time \<Rightarrow> port \<Rightarrow> port option" where
  "PortObserver_OnMatch i sigs now p =
     (case (observer_mem p i, packet_mem p i) of
        (Some ob, Some pk) \<Rightarrow>
          let pk1 = (if po_options ob AND ZX_WAIT_ASYNC_TIMESTAMP \<noteq> 0
                     then pk\<lparr>pk_packet := (pk_packet pk)\<lparr>pp_timestamp := now\<rparr>\<rparr> else pk);
              p1 = p\<lparr>packet_mem := (packet_mem p)(i \<mapsto> pk1)\<rparr>
          in (case Port_Queue i sigs p1 of
                None \<Rightarrow> None
              | Some (status, p2) \<Rightarrow> MaybeReap i p2)
      | _ \<Rightarrow> None)"

definition PortObserver_OnCancel :: "nat \<Rightarrow> zx_signals \<Rightarrow> port \<Rightarrow> port option" where
  "PortObserver_OnCancel i sigs p = MaybeReap i p"

text \<open>The callbacks of a dispatcher, delivered in order.\<close>

fun deliver :: "zx_time \<Rightarrow> callback list \<Rightarrow> port \<Rightarrow> port option" where
  "deliver now [] p = Some p"
| "deliver now (OnMatch i s # cs) p =
     (case PortObserver_OnMatch i s now p of None \<Rightarrow> None | Some p1 \<Rightarrow> deliver now cs p1)"
| "deliver now (OnCancel i s # cs) p =
     (case PortObserver_OnCancel i s p of None \<Rightarrow> None | Some p1 \<Rightarrow> deliver now cs p1)"

section \<open>Ports and the objects they observe\<close>

text \<open>
  The observers of the dispatchers are those of the port. An operation of a dispatcher runs its
  callbacks before it returns.
\<close>

record port_world =
  w_port :: port
  w_disps :: "nat \<Rightarrow> dispatcher"

definition with_dispatcher :: "zx_time \<Rightarrow> nat \<Rightarrow> (dispatcher \<Rightarrow> dispatcher) \<Rightarrow> port_world \<Rightarrow> port_world option" where
  "with_dispatcher now d f w =
     (let d1 = f ((w_disps w d)\<lparr>callbacks := []\<rparr>)
      in case deliver now (callbacks d1) (w_port w) of
           None \<Rightarrow> None
         | Some p \<Rightarrow> Some \<lparr>w_port = p, w_disps = (w_disps w)(d := d1\<lparr>callbacks := []\<rparr>)\<rparr>)"

definition PortObserver_new :: "nat \<Rightarrow> u32 \<Rightarrow> nat \<Rightarrow> nat \<Rightarrow> u64 \<Rightarrow> zx_signals \<Rightarrow> port \<Rightarrow> port" where
  "PortObserver_new i options d h key sigs p =
     p\<lparr>observer_mem := (observer_mem p)(i \<mapsto> \<lparr>po_options = options, po_dispatcher = Some d\<rparr>),
       packet_mem := (packet_mem p)(i \<mapsto> (PortPacket_new (Some h) None)\<lparr>pk_packet :=
         zero_packet\<lparr>pp_status := 0, pp_key := key, pp_type := ZX_PKT_TYPE_SIGNAL_ONE, pp_trigger := sigs\<rparr>\<rparr>)\<rparr>"

text \<open>\<open>alloc\<close> is the observer the allocator gives, or its error.\<close>

definition MakeObserver ::
  "nat \<Rightarrow> zx_status + nat \<Rightarrow> u32 \<Rightarrow> nat \<Rightarrow> nat \<Rightarrow> u64 \<Rightarrow> zx_signals \<Rightarrow> zx_time \<Rightarrow> port_world
    \<Rightarrow> (zx_status \<times> port_world) option" where
  "MakeObserver max_port_observers alloc options d h key sigs now w =
     (if \<not> waitable (w_disps w d) then Some (ZX_ERR_NOT_SUPPORTED, w)
      else case alloc of
             Inl e \<Rightarrow> Some (e, w)
           | Inr i \<Rightarrow>
               let p1 = PortObserver_new i options d h key sigs (w_port w);
                   p2 = (if length (p_observers p1) \<ge> max_port_observers
                         then p1\<lparr>policy_exceptions := policy_exceptions p1 + 1\<rparr> else p1);
                   p3 = p2\<lparr>p_observers := i # p_observers p2\<rparr>;
                   mode = (if options AND ZX_WAIT_ASYNC_EDGE \<noteq> 0 then Edge else Level);
                   ob = \<lparr>obs_id = i, obs_key = Some (p_id p3, key), triggering_signals = 0, obs_handle = 0\<rparr>
               in map_option (Pair (fst (AddObserver (w_disps w d) ob h sigs mode)))
                    (with_dispatcher now d (\<lambda>di. snd (AddObserver di ob h sigs mode)) (w\<lparr>w_port := p3\<rparr>)))"

definition packet_matches :: "nat option \<Rightarrow> u64 \<Rightarrow> port_packet \<Rightarrow> bool" where
  "packet_matches handle key pk \<longleftrightarrow>
     (handle = None \<or> pk_handle pk = handle) \<and> pp_key (pk_packet pk) = key"

fun cancel_packets :: "nat option \<Rightarrow> u64 \<Rightarrow> nat list \<Rightarrow> port \<Rightarrow> (bool \<times> port) option" where
  "cancel_packets handle key [] p = Some (False, p)"
| "cancel_packets handle key (i # is) p =
     (case packet_mem p i of
        None \<Rightarrow> None
      | Some pk \<Rightarrow>
          if packet_matches handle key pk
          then let p1 = (if IsDefaultAllocatedEphemeral pk
                         then p\<lparr>num_ephemeral_packets := num_ephemeral_packets p - 1\<rparr> else p);
                   p2 = reset_observer i (p1\<lparr>packets := remove1 i (packets p1)\<rparr>)
               in map_option (\<lambda>(r, p3). (True, p3)) (cancel_packets handle key is p2)
          else cancel_packets handle key is p)"

definition CancelQueuedPacketsLocked :: "nat option \<Rightarrow> u64 \<Rightarrow> port \<Rightarrow> (bool \<times> port) option" where
  "CancelQueuedPacketsLocked handle key p = cancel_packets handle key (packets p) p"

definition CancelQueued :: "nat option \<Rightarrow> u64 \<Rightarrow> port \<Rightarrow> (bool \<times> port) option" where
  "CancelQueued handle key p = CancelQueuedPacketsLocked handle key p"

definition CancelQueuedPacket :: "nat \<Rightarrow> port \<Rightarrow> bool \<times> port" where
  "CancelQueuedPacket i p =
     (if i \<in> set (packets p)
      then let p1 = (case packet_mem p i of
                       Some pk \<Rightarrow> if IsDefaultAllocatedEphemeral pk
                                  then p\<lparr>num_ephemeral_packets := num_ephemeral_packets p - 1\<rparr> else p
                     | None \<Rightarrow> p)
           in (True, reset_observer i (p1\<lparr>packets := remove1 i (packets p1)\<rparr>))
      else (False, p))"

text \<open>
  \<open>CancelKey\<close> in two parts. The first holds the lock of the port: it marks the observers with the
  key as cancelled, moves them to a list of its own, and removes the queued packets. The second
  takes one observer from that list at a time, and releases the lock while it removes the
  observer from its object.
\<close>

definition observer_has_key :: "port \<Rightarrow> u64 \<Rightarrow> nat \<Rightarrow> bool" where
  "observer_has_key p key i \<longleftrightarrow> (case packet_mem p i of None \<Rightarrow> False | Some pk \<Rightarrow> pp_key (pk_packet pk) = key)"

definition cancel_packet :: "nat \<Rightarrow> port \<Rightarrow> port" where
  "cancel_packet i p =
     (case packet_mem p i of
        None \<Rightarrow> p
      | Some pk \<Rightarrow> p\<lparr>packet_mem := (packet_mem p)(i \<mapsto> pk\<lparr>pk_packet := (pk_packet pk)\<lparr>pp_type := kPortPacketTypeCanceled\<rparr>\<rparr>)\<rparr>)"

definition CancelKey_begin :: "u64 \<Rightarrow> port \<Rightarrow> (nat list \<times> bool \<times> port) option" where
  "CancelKey_begin key p =
     (let hits = filter (observer_has_key p key) (p_observers p);
          p1 = fold cancel_packet hits p;
          p2 = p1\<lparr>p_observers := filter (\<lambda>i. \<not> observer_has_key p key i) (p_observers p1)\<rparr>
      in map_option (\<lambda>(removed, p3). (rev hits, removed, p3)) (CancelQueuedPacketsLocked None key p2))"

definition CancelKey_next :: "nat \<Rightarrow> port_world \<Rightarrow> port_world option" where
  "CancelKey_next i w =
     (case UnlinkDispatcherLocked i (w_port w) of
        Some (Some d, p1) \<Rightarrow>
          Some (w\<lparr>w_port := destroy_observer i p1,
                  w_disps := (w_disps w)(d := snd (snd (RemoveObserver (w_disps w d) i)))\<rparr>)
      | _ \<Rightarrow> None)"

fun cancel_observers :: "nat list \<Rightarrow> port_world \<Rightarrow> port_world option" where
  "cancel_observers [] w = Some w"
| "cancel_observers (i # is) w = (case CancelKey_next i w of None \<Rightarrow> None | Some w1 \<Rightarrow> cancel_observers is w1)"

definition CancelKey :: "u64 \<Rightarrow> port_world \<Rightarrow> (zx_status \<times> port_world) option" where
  "CancelKey key w =
     (case CancelKey_begin key (w_port w) of
        None \<Rightarrow> None
      | Some (canceled, packet_removed, p1) \<Rightarrow>
          map_option (Pair (if canceled \<noteq> [] \<or> packet_removed then ZX_OK else ZX_ERR_NOT_FOUND))
            (cancel_observers canceled (w\<lparr>w_port := p1\<rparr>)))"

fun zero_handles_packets :: "nat list \<Rightarrow> port \<Rightarrow> port option" where
  "zero_handles_packets [] p = Some p"
| "zero_handles_packets (i # is) p =
     (case packet_mem p i of
        None \<Rightarrow> None
      | Some pk \<Rightarrow>
          let p1 = p\<lparr>packets := is\<rparr>
          in zero_handles_packets is
               (if IsDefaultAllocatedEphemeral pk
                then free_packet i (p1\<lparr>num_ephemeral_packets := num_ephemeral_packets p1 - 1\<rparr>)
                else reset_observer i p1))"

fun zero_handles_observers :: "nat list \<Rightarrow> port_world \<Rightarrow> port_world option" where
  "zero_handles_observers [] w = Some w"
| "zero_handles_observers (i # is) w =
     (case UnlinkDispatcherLocked i ((w_port w)\<lparr>p_observers := is\<rparr>) of
        Some (Some d, p1) \<Rightarrow>
          zero_handles_observers is
            (w\<lparr>w_port := destroy_observer i p1,
               w_disps := (w_disps w)(d := snd (snd (RemoveObserver (w_disps w d) i)))\<rparr>)
      | _ \<Rightarrow> None)"

definition Port_on_zero_handles :: "port_world \<Rightarrow> port_world option" where
  "Port_on_zero_handles w =
     (let p1 = (w_port w)\<lparr>p_zero_handles := True\<rparr>
      in case zero_handles_packets (packets p1) p1 of
           None \<Rightarrow> None
         | Some p2 \<Rightarrow> zero_handles_observers (p_observers p2) (w\<lparr>w_port := p2\<rparr>))"

text \<open>\<open>zx_port_cancel\<close>, once the handles are resolved: \<open>d\<close> is the object of the watched handle \<open>h\<close>.\<close>

definition port_cancel :: "zx_time \<Rightarrow> nat \<Rightarrow> nat \<Rightarrow> u64 \<Rightarrow> port_world \<Rightarrow> (zx_status \<times> port_world) option" where
  "port_cancel now d h key w =
     (if \<not> waitable (w_disps w d) then Some (ZX_ERR_NOT_SUPPORTED, w)
      else
        let had_observer = fst (CancelByKey (w_disps w d) h (p_id (w_port w)) key)
        in case with_dispatcher now d (\<lambda>di. snd (CancelByKey di h (p_id (w_port w)) key)) w of
             None \<Rightarrow> None
           | Some w1 \<Rightarrow>
               (case CancelQueued (Some h) key (w_port w1) of
                  None \<Rightarrow> None
                | Some (removed, p1) \<Rightarrow>
                    Some (if had_observer \<or> removed then ZX_OK else ZX_ERR_NOT_FOUND, w1\<lparr>w_port := p1\<rparr>)))"

section \<open>The invariant of a port\<close>

text \<open>
  A queued packet is either a user's, or the packet of an observer that is no longer linked to
  its object and that the packet owns. An observer that waits is linked to its object.
\<close>

definition queued_ok :: "port \<Rightarrow> nat \<Rightarrow> bool" where
  "queued_ok p i \<longleftrightarrow> (\<exists>pk. packet_mem p i = Some pk \<and> \<not> is_canceled pk \<and>
     (if pk_allocator pk = None
      then pk_observer pk = Some i \<and> (\<exists>ob. observer_mem p i = Some ob \<and> po_dispatcher ob = None)
      else pk_observer pk = None \<and> observer_mem p i = None))"

definition waiting_on :: "port \<Rightarrow> nat \<Rightarrow> nat \<Rightarrow> bool" where
  "waiting_on p i d \<longleftrightarrow> (\<exists>pk ob. packet_mem p i = Some pk \<and> \<not> is_canceled pk \<and> pk_allocator pk = None \<and>
     pk_observer pk = None \<and> observer_mem p i = Some ob \<and> po_dispatcher ob = Some d)"

definition user_packet :: "port \<Rightarrow> nat \<Rightarrow> bool" where
  "user_packet p i \<longleftrightarrow> (case packet_mem p i of None \<Rightarrow> False | Some pk \<Rightarrow> IsDefaultAllocatedEphemeral pk)"

text \<open>\<open>L\<close> are the observers that a running \<open>CancelKey\<close> holds on its own list.\<close>

definition port_ok :: "nat set \<Rightarrow> port \<Rightarrow> bool" where
  "port_ok L p \<longleftrightarrow> distinct (packets p @ p_observers p) \<and>
     (\<forall>i\<in>set (packets p). queued_ok p i) \<and>
     (\<forall>i\<in>set (p_observers p). \<exists>d. waiting_on p i d) \<and>
     (\<forall>i. observer_mem p i \<noteq> None \<longrightarrow> i \<in> set (packets p) \<union> set (p_observers p) \<union> L) \<and>
     L \<inter> (set (packets p) \<union> set (p_observers p)) = {} \<and>
     num_ephemeral_packets p = length (filter (user_packet p) (packets p)) \<and>
     num_ephemeral_packets p \<le> kMaxAllocatedPacketCountPerPort + 1 \<and>
     length (packets p) + length (interrupt_packets p) \<le> sema p \<and>
     (p_options p = ZX_PORT_BIND_TO_INTERRUPT \<or> p_options p = 0 \<and> interrupt_packets p = []) \<and>
     (p_zero_handles p \<longrightarrow> packets p = [] \<and> p_observers p = [])"

abbreviation port_inv :: "port \<Rightarrow> bool" where
  "port_inv \<equiv> port_ok {}"

lemma port_okD:
  assumes "port_ok L p"
  shows "distinct (packets p)" "distinct (p_observers p)" "i \<in> set (packets p) \<Longrightarrow> i \<notin> set (p_observers p)"
    "i \<in> set (packets p) \<Longrightarrow> queued_ok p i" "i \<in> set (p_observers p) \<Longrightarrow> \<exists>d. waiting_on p i d"
    "observer_mem p i \<noteq> None \<Longrightarrow> i \<in> set (packets p) \<or> i \<in> set (p_observers p) \<or> i \<in> L"
    "num_ephemeral_packets p = length (filter (user_packet p) (packets p))"
    "num_ephemeral_packets p \<le> kMaxAllocatedPacketCountPerPort + 1"
    "length (packets p) + length (interrupt_packets p) \<le> sema p"
    "p_options p \<noteq> ZX_PORT_BIND_TO_INTERRUPT \<Longrightarrow> interrupt_packets p = []"
    "p_zero_handles p \<Longrightarrow> packets p = [] \<and> p_observers p = []"
    "i \<in> L \<Longrightarrow> i \<notin> set (packets p) \<and> i \<notin> set (p_observers p)"
    "p_options p = ZX_PORT_BIND_TO_INTERRUPT \<or> p_options p = 0"
  using assms unfolding port_ok_def by auto

text \<open>The predicates look at one slot of the memory only.\<close>

definition same_at :: "port \<Rightarrow> port \<Rightarrow> nat \<Rightarrow> bool" where
  "same_at p p' i \<longleftrightarrow> packet_mem p' i = packet_mem p i \<and> observer_mem p' i = observer_mem p i"

lemma same_at_preds:
  assumes "same_at p p' i"
  shows "queued_ok p' i = queued_ok p i" "waiting_on p' i d = waiting_on p i d" "user_packet p' i = user_packet p i"
  using assms by (simp_all add: same_at_def queued_ok_def waiting_on_def user_packet_def)

lemma user_packets_same:
  "\<forall>i\<in>set xs. same_at p p' i \<Longrightarrow> filter (user_packet p') xs = filter (user_packet p) xs"
  by (rule filter_cong) (auto simp: same_at_preds)

text \<open>An operation that touches the slots in \<open>X\<close> only, and no others.\<close>

lemma port_ok_frame:
  assumes inv: "port_ok L p" and same: "\<forall>j. j \<notin> X \<longrightarrow> same_at p p' j"
    and pk: "set (packets p') \<subseteq> set (packets p) \<union> X" and ob: "set (p_observers p') \<subseteq> set (p_observers p) \<union> X"
    and dist: "distinct (packets p' @ p_observers p')"
    and q: "\<forall>i\<in>X. i \<in> set (packets p') \<longrightarrow> queued_ok p' i" and w: "\<forall>i\<in>X. i \<in> set (p_observers p') \<longrightarrow> (\<exists>d. waiting_on p' i d)"
    and leak: "\<forall>i. observer_mem p' i \<noteq> None \<longrightarrow> i \<in> set (packets p') \<or> i \<in> set (p_observers p') \<or> i \<in> L'"
    and limbo: "L' \<inter> (set (packets p') \<union> set (p_observers p')) = {}"
    and num: "num_ephemeral_packets p' = length (filter (user_packet p') (packets p'))"
    and max: "num_ephemeral_packets p' \<le> kMaxAllocatedPacketCountPerPort + 1"
    and sem: "length (packets p') + length (interrupt_packets p') \<le> sema p'"
    and opt: "p_options p' \<noteq> ZX_PORT_BIND_TO_INTERRUPT \<longrightarrow> interrupt_packets p' = []" "p_options p' = p_options p"
    and zero: "p_zero_handles p' \<longrightarrow> packets p' = [] \<and> p_observers p' = []"
  shows "port_ok L' p'"
proof -
  have "queued_ok p' i" if "i \<in> set (packets p')" for i
  proof (cases "i \<in> X")
    case False
    then show ?thesis using that pk port_okD(4) [OF inv, of i] same same_at_preds(1) by blast
  qed (use that q in blast)
  moreover have "\<exists>d. waiting_on p' i d" if "i \<in> set (p_observers p')" for i
  proof (cases "i \<in> X")
    case False
    then show ?thesis using that ob port_okD(5) [OF inv, of i] same same_at_preds(2) by blast
  qed (use that w in blast)
  ultimately show ?thesis unfolding port_ok_def using dist leak limbo num max sem opt zero port_okD(13) [OF inv] by auto
qed

section \<open>What the operations do\<close>

lemma fresh_packet:
  assumes "port_ok L p" and "packet_mem p i = None" shows "i \<notin> set (packets p)" and "i \<notin> set (p_observers p)"
  using port_okD(4,5) [OF assms(1), of i] assms(2) by (auto simp: queued_ok_def waiting_on_def)

lemma user_packet_type: "\<not> is_canceled (pk\<lparr>pk_packet := x\<lparr>pp_type := ZX_PKT_TYPE_USER\<rparr>\<rparr>)"
  by (simp add: is_canceled_def ZX_PKT_TYPE_USER_def kPortPacketTypeCanceled_def)

lemma QueueUser_ok:
  assumes inv: "port_ok L p" and i: "packet_mem p i = None" "observer_mem p i = None" "i \<notin> L"
  obtains st p' where "QueueUser (Some i) packet p = Some (st, p')" "port_ok L p'" "p_observers p' = p_observers p"
    "\<forall>j. j \<noteq> i \<longrightarrow> same_at p p' j" "p_id p' = p_id p"
proof -
  define pk where "pk = (PortPacket_new None (Some DefaultPortAllocator))\<lparr>pk_packet := packet\<lparr>pp_type := ZX_PKT_TYPE_USER\<rparr>\<rparr>"
  have pk: "\<not> is_canceled pk" "IsDefaultAllocatedEphemeral pk" "pk_allocator pk = Some DefaultPortAllocator" "pk_observer pk = None"
    by (simp_all add: pk_def PortPacket_new_def IsDefaultAllocatedEphemeral_def is_ephemeral_def is_canceled_def
        ZX_PKT_TYPE_USER_def kPortPacketTypeCanceled_def)
  define p1 where "p1 = p\<lparr>packet_mem := (packet_mem p)(i \<mapsto> pk)\<rparr>"
  note fr = fresh_packet [OF inv i(1)]
  consider (refused) st p2 where "Port_Queue i 0 p1 = Some (st, p2)" "st \<noteq> ZX_OK" "p2 = p1 \<or> p2 = p1\<lparr>policy_exceptions := policy_exceptions p1 + 1\<rparr>"
    | (queued) "\<not> p_zero_handles p" "num_ephemeral_packets p \<le> kMaxAllocatedPacketCountPerPort"
      "Port_Queue i 0 p1 = Some (ZX_OK, p1\<lparr>packets := packets p @ [i], num_ephemeral_packets := num_ephemeral_packets p + 1, sema := sema p + 1\<rparr>)"
    using pk by (cases "p_zero_handles p"; cases "num_ephemeral_packets p > kMaxAllocatedPacketCountPerPort")
      (auto simp: Port_Queue_def p1_def Let_def)
  then show thesis
  proof cases
    case refused
    have call: "QueueUser (Some i) packet p = Some (st, free_packet i p2)"
      using refused(1,2) by (simp add: QueueUser_def pk_def [symmetric] p1_def [symmetric])
    have same: "same_at p (free_packet i p2) j" for j using refused(3) i(1) by (auto simp: same_at_def free_packet_def p1_def)
    have fields: "packets (free_packet i p2) = packets p" "p_observers (free_packet i p2) = p_observers p"
      "num_ephemeral_packets (free_packet i p2) = num_ephemeral_packets p" "sema (free_packet i p2) = sema p"
      "interrupt_packets (free_packet i p2) = interrupt_packets p" "p_options (free_packet i p2) = p_options p"
      "p_zero_handles (free_packet i p2) = p_zero_handles p" "p_id (free_packet i p2) = p_id p"
      "observer_mem (free_packet i p2) = observer_mem p"
      using refused(3) by (auto simp: free_packet_def p1_def)
    have "port_ok L (free_packet i p2)"
      using inv user_packets_same [of "packets p" p "free_packet i p2"] same
      by (intro port_ok_frame [OF inv, of "{}"]) (use inv in \<open>auto simp: fields port_ok_def\<close>)
    then show thesis using that call fields same by blast
  next
    case queued
    define p' where "p' = p1\<lparr>packets := packets p @ [i], num_ephemeral_packets := num_ephemeral_packets p + 1, sema := sema p + 1\<rparr>"
    have call: "QueueUser (Some i) packet p = Some (ZX_OK, p')"
      using queued(3) by (simp add: QueueUser_def pk_def [symmetric] p1_def [symmetric] p'_def)
    have same: "\<forall>j. j \<noteq> i \<longrightarrow> same_at p p' j" by (simp add: same_at_def p'_def p1_def)
    have new: "queued_ok p' i" "user_packet p' i" using pk i(2) by (simp_all add: queued_ok_def user_packet_def p'_def p1_def)
    have filt: "filter (user_packet p') (packets p) = filter (user_packet p) (packets p)"
      using same fr(1) by (intro user_packets_same) auto
    have "port_ok L p'"
    proof (rule port_ok_frame [OF inv, of "{i}"])
      show "num_ephemeral_packets p' = length (filter (user_packet p') (packets p'))"
        using filt new(2) port_okD(7) [OF inv] by (simp add: p'_def)
      show "\<forall>j. observer_mem p' j \<noteq> None \<longrightarrow> j \<in> set (packets p') \<or> j \<in> set (p_observers p') \<or> j \<in> L"
        using port_okD(6) [OF inv] by (auto simp: p'_def p1_def)
      show "L \<inter> (set (packets p') \<union> set (p_observers p')) = {}" using port_okD(12) [OF inv] i(3) by (auto simp: p'_def p1_def)
    qed (use same new queued port_okD [OF inv] fr in \<open>auto simp: p'_def p1_def\<close>)
    then show thesis using that call same by (auto simp: p'_def p1_def)
  qed
qed

text \<open>Every way a queued packet leaves the queue: the count follows, and the observer it owns goes.\<close>

definition drop_queued :: "nat \<Rightarrow> port \<Rightarrow> port" where
  "drop_queued i p =
     reset_observer i ((if user_packet p i then p\<lparr>num_ephemeral_packets := num_ephemeral_packets p - 1\<rparr> else p)
       \<lparr>packets := remove1 i (packets p)\<rparr>)"

lemma reset_observer_frame [simp]:
  "packets (reset_observer i p) = packets p" "p_observers (reset_observer i p) = p_observers p"
  "num_ephemeral_packets (reset_observer i p) = num_ephemeral_packets p" "sema (reset_observer i p) = sema p"
  "interrupt_packets (reset_observer i p) = interrupt_packets p" "p_options (reset_observer i p) = p_options p"
  "p_zero_handles (reset_observer i p) = p_zero_handles p" "p_id (reset_observer i p) = p_id p"
  by (simp_all add: reset_observer_def destroy_observer_def split: option.splits)

lemma drop_queued_frame [simp]:
  "packets (drop_queued i p) = remove1 i (packets p)" "p_observers (drop_queued i p) = p_observers p"
  "num_ephemeral_packets (drop_queued i p) = num_ephemeral_packets p - (if user_packet p i then 1 else 0)"
  "sema (drop_queued i p) = sema p" "interrupt_packets (drop_queued i p) = interrupt_packets p"
  "p_options (drop_queued i p) = p_options p" "p_zero_handles (drop_queued i p) = p_zero_handles p"
  "p_id (drop_queued i p) = p_id p"
  by (simp_all add: drop_queued_def)

lemma drop_queued_mem:
  assumes "queued_ok p i"
  shows "j \<noteq> i \<Longrightarrow> same_at p (drop_queued i p) j" and "observer_mem (drop_queued i p) i = None"
    and "user_packet p i \<Longrightarrow> packet_mem (drop_queued i p) i = packet_mem p i"
proof -
  obtain pk where pk: "packet_mem p i = Some pk" "if pk_allocator pk = None then pk_observer pk = Some i
      else pk_observer pk = None \<and> observer_mem p i = None"
    using assms by (auto simp: queued_ok_def split: if_splits)
  show "j \<noteq> i \<Longrightarrow> same_at p (drop_queued i p) j" "observer_mem (drop_queued i p) i = None"
    "user_packet p i \<Longrightarrow> packet_mem (drop_queued i p) i = packet_mem p i"
    using pk by (cases "pk_allocator pk";
        simp add: drop_queued_def reset_observer_def destroy_observer_def same_at_def user_packet_def IsDefaultAllocatedEphemeral_def)+
qed

lemma length_filter_remove1:
  "x \<in> set xs \<Longrightarrow> length (filter P (remove1 x xs)) = length (filter P xs) - (if P x then 1 else 0)"
  by (simp add: filter_remove1 length_remove1)

lemma drop_queued_ok:
  assumes inv: "port_ok L p" and i: "i \<in> set (packets p)"
  shows "port_ok L (drop_queued i p)"
proof -
  note D = port_okD [OF inv] and mem = drop_queued_mem [OF port_okD(4) [OF inv i]]
  have rest: "set (remove1 i (packets p)) = set (packets p) - {i}" using D(1) by simp
  have filt: "filter (user_packet (drop_queued i p)) (remove1 i (packets p)) = filter (user_packet p) (remove1 i (packets p))"
    using mem(1) rest by (intro user_packets_same) auto
  show ?thesis
  proof (rule port_ok_frame [OF inv, of "{i}"])
    show "\<forall>j. observer_mem (drop_queued i p) j \<noteq> None \<longrightarrow> j \<in> set (packets (drop_queued i p)) \<or>
        j \<in> set (p_observers (drop_queued i p)) \<or> j \<in> L"
      using D(6) mem rest by (metis Diff_iff drop_queued_frame(1,2) empty_iff insert_iff same_at_def)
    show "num_ephemeral_packets (drop_queued i p) = length (filter (user_packet (drop_queued i p)) (packets (drop_queued i p)))"
      using filt D(7) i by (simp add: length_filter_remove1)
    show "L \<inter> (set (packets (drop_queued i p)) \<union> set (p_observers (drop_queued i p))) = {}" using D(12) rest by auto
    show "num_ephemeral_packets (drop_queued i p) \<le> kMaxAllocatedPacketCountPerPort + 1" using D(8) by simp
    show "length (packets (drop_queued i p)) + length (interrupt_packets (drop_queued i p)) \<le> sema (drop_queued i p)"
      using D(9) by (auto simp: length_remove1)
    show "distinct (packets (drop_queued i p) @ p_observers (drop_queued i p))" using D(1,2,3) rest by auto
    show "\<forall>j\<in>{i}. j \<in> set (p_observers (drop_queued i p)) \<longrightarrow> (\<exists>d. waiting_on (drop_queued i p) j d)" using D(3) i by simp
  qed (use mem(1) D(10,11) rest i in auto)
qed

text \<open>A packet that is in no list can be freed.\<close>

lemma free_packet_ok:
  assumes inv: "port_ok L p" and i: "i \<notin> set (packets p)" "i \<notin> set (p_observers p)"
  shows "port_ok L (free_packet i p)"
proof -
  have same: "\<forall>j. j \<notin> {i} \<longrightarrow> same_at p (free_packet i p) j" by (simp add: free_packet_def same_at_def)
  have "filter (user_packet (free_packet i p)) (packets p) = filter (user_packet p) (packets p)"
    using same i by (intro user_packets_same) auto
  then show ?thesis
    using inv i by (intro port_ok_frame [OF inv same]) (auto simp: free_packet_def port_ok_def)
qed

lemma queued_mem:
  assumes "port_ok L p" and "i \<in> set (packets p)"
  obtains pk where "packet_mem p i = Some pk" "IsDefaultAllocatedEphemeral pk = user_packet p i"
  using port_okD(4) [OF assms] that by (auto simp: queued_ok_def user_packet_def)

lemma preds_sema [simp]:
  "queued_ok (p\<lparr>sema := n\<rparr>) i = queued_ok p i" "waiting_on (p\<lparr>sema := n\<rparr>) i d = waiting_on p i d"
  "user_packet (p\<lparr>sema := n\<rparr>) i = user_packet p i"
  "queued_ok (p\<lparr>interrupt_packets := x\<rparr>) i = queued_ok p i" "waiting_on (p\<lparr>interrupt_packets := x\<rparr>) i d = waiting_on p i d"
  "user_packet (p\<lparr>interrupt_packets := x\<rparr>) i = user_packet p i"
  "drop_queued i (p\<lparr>sema := n\<rparr>) = (drop_queued i p)\<lparr>sema := n\<rparr>"
  "free_packet i (p\<lparr>sema := n\<rparr>) = (free_packet i p)\<lparr>sema := n\<rparr>"
  by (simp_all add: queued_ok_def waiting_on_def user_packet_def drop_queued_def reset_observer_def destroy_observer_def
      free_packet_def split: option.splits)

lemma port_ok_sema:
  assumes "port_ok L p" and "length (packets p) + length (interrupt_packets p) \<le> n"
  shows "port_ok L (p\<lparr>sema := n\<rparr>)"
proof -
  have "user_packet (p\<lparr>sema := n\<rparr>) = user_packet p" by (rule ext) simp
  then show ?thesis using assms by (simp add: port_ok_def)
qed

lemma port_ok_interrupts:
  assumes "port_ok L p" and "length (packets p) + length x \<le> n" and "p_options p \<noteq> ZX_PORT_BIND_TO_INTERRUPT \<Longrightarrow> x = []"
  shows "port_ok L (p\<lparr>interrupt_packets := x, sema := n\<rparr>)"
proof -
  have "user_packet (p\<lparr>interrupt_packets := x, sema := n\<rparr>) = user_packet p" by (rule ext) simp
  then show ?thesis using assms by (cases "p_options p = ZX_PORT_BIND_TO_INTERRUPT") (simp_all add: port_ok_def)
qed

text \<open>
  What taking a packet does: interrupts go first, then the oldest packet; the slots of all other
  packets and observers stay.
\<close>

lemma dequeue_interrupt:
  assumes inv: "port_ok L p" and ints: "interrupt_packets p = ip # rest"
  shows "Dequeue st p = Some (Inr (zero_packet\<lparr>pp_key := ip_key ip, pp_type := ZX_PKT_TYPE_INTERRUPT, pp_status := 0,
      pp_timestamp := ip_timestamp ip\<rparr>), p\<lparr>interrupt_packets := rest, sema := sema p - 1\<rparr>)"
    and "port_ok L (p\<lparr>interrupt_packets := rest, sema := sema p - 1\<rparr>)"
proof -
  note D = port_okD [OF inv]
  have opt: "p_options p = ZX_PORT_BIND_TO_INTERRUPT" using D(10) ints by auto
  have sem: "sema p \<noteq> 0" using D(9) ints by auto
  show "Dequeue st p = Some (Inr (zero_packet\<lparr>pp_key := ip_key ip, pp_type := ZX_PKT_TYPE_INTERRUPT, pp_status := 0,
      pp_timestamp := ip_timestamp ip\<rparr>), p\<lparr>interrupt_packets := rest, sema := sema p - 1\<rparr>)"
    using opt sem ints by (simp add: Dequeue.simps [of st p] dequeue_once_def)
  show "port_ok L (p\<lparr>interrupt_packets := rest, sema := sema p - 1\<rparr>)"
    by (rule port_ok_interrupts [OF inv]) (use D(9) ints opt in auto)
qed

lemma dequeue_packet:
  assumes inv: "port_ok L p" and ints: "interrupt_packets p = []" and q: "packets p = i # rest" and pk: "packet_mem p i = Some pk"
  obtains p' where "Dequeue st p = Some (Inr (pk_packet pk), p')" "port_ok L p'" "packets p' = rest"
    "p_observers p' = p_observers p" "\<forall>j. j \<noteq> i \<longrightarrow> same_at p p' j" "p_id p' = p_id p" "p_zero_handles p' = p_zero_handles p"
    "interrupt_packets p' = []" "is_ephemeral pk \<longrightarrow> packet_mem p' i = None"
proof -
  define n where "n = sema p - 1"
  have sem: "sema p \<noteq> 0" "length (packets p) \<le> Suc n" using port_okD(9) [OF inv] ints q by (auto simp: n_def)
  have i: "i \<in> set (packets p)" using q by simp
  define p1 where "p1 = (if is_ephemeral pk then free_packet i (drop_queued i p) else drop_queued i p)"
  have once: "dequeue_once (p\<lparr>sema := n\<rparr>) = Some (Some (pk_packet pk), p1\<lparr>sema := n\<rparr>)"
    using ints q pk by (cases p) (auto simp: dequeue_once_def Let_def p1_def drop_queued_def user_packet_def reset_observer_def
        destroy_observer_def free_packet_def split: option.splits)
  have drop: "port_ok L (drop_queued i p)" by (rule drop_queued_ok [OF inv i])
  have dist: "i \<notin> set rest" "i \<notin> set (p_observers p)" using port_okD(1,3) [OF inv] q by auto
  have ok: "port_ok L p1" unfolding p1_def using drop free_packet_ok [OF drop, of i] q dist by simp
  have f: "packets p1 = rest" "p_observers p1 = p_observers p" "interrupt_packets p1 = []" "p_id p1 = p_id p"
    "p_zero_handles p1 = p_zero_handles p" using q ints by (simp_all add: p1_def free_packet_def)
  have same: "j \<noteq> i \<Longrightarrow> same_at p p1 j" for j
    using drop_queued_mem(1) [OF port_okD(4) [OF inv i], of j] by (simp add: p1_def free_packet_def same_at_def)
  show thesis
  proof (rule that [of "p1\<lparr>sema := n\<rparr>"])
    show "Dequeue st p = Some (Inr (pk_packet pk), p1\<lparr>sema := n\<rparr>)" using sem(1) once by (simp add: Dequeue.simps [of st p] n_def)
    show "port_ok L (p1\<lparr>sema := n\<rparr>)" by (rule port_ok_sema [OF ok]) (use sem(2) q f in simp)
    show "\<forall>j. j \<noteq> i \<longrightarrow> same_at p (p1\<lparr>sema := n\<rparr>) j" using same by (simp add: same_at_def)
  qed (use f in \<open>simp_all add: p1_def free_packet_def\<close>)
qed

lemma dequeue_empty:
  assumes "packets p = []" and "interrupt_packets p = []"
  shows "Dequeue st p = Some (Inl st, p\<lparr>sema := 0\<rparr>)"
  using assms
proof (induction "sema p" arbitrary: p)
  case 0
  then show ?case by (simp add: Dequeue.simps [of st p])
next
  case (Suc n)
  have "Dequeue st (p\<lparr>sema := n\<rparr>) = Some (Inl st, p\<lparr>sema := 0\<rparr>)" using Suc.hyps(1) [of "p\<lparr>sema := n\<rparr>"] Suc.prems by simp
  then show ?case using Suc.prems Suc.hyps(2) [symmetric] by (simp add: Dequeue.simps [of st p] dequeue_once_def)
qed

definition packet_hit :: "nat option \<Rightarrow> u64 \<Rightarrow> port \<Rightarrow> nat \<Rightarrow> bool" where
  "packet_hit h key p i \<longleftrightarrow> (case packet_mem p i of None \<Rightarrow> False | Some pk \<Rightarrow> packet_matches h key pk)"

lemma packet_hit_same: "same_at p p' i \<Longrightarrow> packet_hit h key p' i = packet_hit h key p i"
  by (simp add: same_at_def packet_hit_def)

lemma drop_queued_code:
  assumes "packet_mem p i = Some pk"
  shows "reset_observer i ((if IsDefaultAllocatedEphemeral pk then p\<lparr>num_ephemeral_packets := num_ephemeral_packets p - 1\<rparr> else p)
     \<lparr>packets := remove1 i (packets p)\<rparr>) = drop_queued i p"
  using assms by (simp add: drop_queued_def user_packet_def)

text \<open>Cancelling removes exactly the packets that match, and touches no other.\<close>

lemma cancel_packets_ok:
  assumes "port_ok L p" and "set is \<subseteq> set (packets p)" and "distinct is"
  shows "\<exists>p'. cancel_packets h key is p = Some (\<exists>i\<in>set is. packet_hit h key p i, p') \<and> port_ok L p' \<and>
    packets p' = filter (\<lambda>i. \<not> (i \<in> set is \<and> packet_hit h key p i)) (packets p) \<and> p_observers p' = p_observers p \<and>
    (\<forall>j. \<not> (j \<in> set is \<and> packet_hit h key p j) \<longrightarrow> same_at p p' j) \<and>
    (\<forall>j. user_packet p j \<longrightarrow> packet_mem p' j = packet_mem p j) \<and>
    p_id p' = p_id p \<and> p_zero_handles p' = p_zero_handles p \<and> p_options p' = p_options p"
  using assms
proof (induction "is" arbitrary: p)
  case Nil
  then show ?case by (simp add: same_at_def)
next
  case (Cons i "is")
  then have i: "i \<in> set (packets p)" "i \<notin> set is" by auto
  obtain pk where pk: "packet_mem p i = Some pk" using queued_mem [OF Cons.prems(1) i(1)] by blast
  show ?case
  proof (cases "packet_hit h key p i")
    case False
    have "cancel_packets h key (i # is) p = cancel_packets h key is p" using False pk by (simp add: packet_hit_def)
    moreover have "j \<in> set (i # is) \<and> packet_hit h key p j \<longleftrightarrow> j \<in> set is \<and> packet_hit h key p j" for j using False by auto
    ultimately show ?thesis using False Cons.IH [OF Cons.prems(1)] Cons.prems(2,3) by simp
  next
    case True
    define q where "q = drop_queued i p"
    note mem = drop_queued_mem [OF port_okD(4) [OF Cons.prems(1) i(1)], folded q_def]
    have q: "port_ok L q" unfolding q_def by (rule drop_queued_ok [OF Cons.prems(1) i(1)])
    have sub: "set is \<subseteq> set (packets q)" "distinct is" using Cons.prems i(2) port_okD(1) [OF Cons.prems(1)] by (auto simp: q_def)
    obtain p' where IH: "cancel_packets h key is q = Some (\<exists>i\<in>set is. packet_hit h key q i, p')" "port_ok L p'"
      "packets p' = filter (\<lambda>i. \<not> (i \<in> set is \<and> packet_hit h key q i)) (packets q)" "p_observers p' = p_observers q"
      "\<forall>j. \<not> (j \<in> set is \<and> packet_hit h key q j) \<longrightarrow> same_at q p' j"
      "\<forall>j. user_packet q j \<longrightarrow> packet_mem p' j = packet_mem q j"
      "p_id p' = p_id q" "p_zero_handles p' = p_zero_handles q" "p_options p' = p_options q"
      using Cons.IH [OF q sub] by blast
    have call: "cancel_packets h key (i # is) p = Some (True, p')"
      using True pk IH(1) drop_queued_code [OF pk]
      by (cases "IsDefaultAllocatedEphemeral pk") (simp_all add: packet_hit_def q_def Let_def)
    have hit: "j \<in> set is \<and> packet_hit h key q j \<longleftrightarrow> j \<in> set is \<and> packet_hit h key p j" for j
      using packet_hit_same [OF mem(1) [of j]] i(2) by (cases "j = i") simp_all
    have pks: "packets p' = filter (\<lambda>j. \<not> (j \<in> set (i # is) \<and> packet_hit h key p j)) (packets p)"
    proof -
      have "packets p' = filter (\<lambda>j. \<not> (j \<in> set is \<and> packet_hit h key p j)) (filter (\<lambda>x. x \<noteq> i) (packets p))"
        unfolding IH(3) hit
        using port_okD(1) [OF Cons.prems(1)] by (simp add: q_def distinct_remove1_removeAll removeAll_filter_not_eq neq_commute)
      also have "\<dots> = filter (\<lambda>j. \<not> (j \<in> set (i # is) \<and> packet_hit h key p j)) (packets p)"
        unfolding filter_filter by (rule filter_cong) (use True in auto)
      finally show ?thesis .
    qed
    have same: "\<forall>j. \<not> (j \<in> set (i # is) \<and> packet_hit h key p j) \<longrightarrow> same_at p p' j"
    proof (intro allI impI)
      fix j assume "\<not> (j \<in> set (i # is) \<and> packet_hit h key p j)"
      then have "j \<noteq> i" "same_at q p' j" using True IH(5) hit by auto
      then show "same_at p p' j" using mem(1) [of j] by (simp add: same_at_def)
    qed
    have user: "packet_mem p' j = packet_mem p j" if "user_packet p j" for j
    proof -
      have "packet_mem q j = packet_mem p j" using that mem(1) [of j] mem(3) by (cases "j = i") (auto simp: same_at_def)
      moreover from this have "user_packet q j" using that by (simp add: user_packet_def)
      ultimately show ?thesis using IH(6) by simp
    qed
    show ?thesis using call IH(2,4,7,8,9) pks same user True by (auto simp: q_def)
  qed
qed

lemmas CancelQueued_ok = cancel_packets_ok [OF _ order_refl, folded CancelQueuedPacketsLocked_def]

lemma CancelQueuedPacket_ok:
  assumes inv: "port_ok L p"
  shows "port_ok L (snd (CancelQueuedPacket i p))" "p_observers (snd (CancelQueuedPacket i p)) = p_observers p"
    "j \<noteq> i \<Longrightarrow> same_at p (snd (CancelQueuedPacket i p)) j"
    "i \<notin> set (packets p) \<Longrightarrow> snd (CancelQueuedPacket i p) = p"
    "p_id (snd (CancelQueuedPacket i p)) = p_id p" "p_zero_handles (snd (CancelQueuedPacket i p)) = p_zero_handles p"
proof -
  have "snd (CancelQueuedPacket i p) = (if i \<in> set (packets p) then drop_queued i p else p)"
  proof (cases "i \<in> set (packets p)")
    case True
    then obtain pk where pk: "packet_mem p i = Some pk" using queued_mem [OF inv] by blast
    show ?thesis using True drop_queued_code [OF pk] pk
      by (cases "IsDefaultAllocatedEphemeral pk") (simp_all add: CancelQueuedPacket_def Let_def)
  qed (simp add: CancelQueuedPacket_def)
  then show "port_ok L (snd (CancelQueuedPacket i p))" "p_observers (snd (CancelQueuedPacket i p)) = p_observers p"
    "j \<noteq> i \<Longrightarrow> same_at p (snd (CancelQueuedPacket i p)) j"
    "i \<notin> set (packets p) \<Longrightarrow> snd (CancelQueuedPacket i p) = p"
    "p_id (snd (CancelQueuedPacket i p)) = p_id p" "p_zero_handles (snd (CancelQueuedPacket i p)) = p_zero_handles p"
    using drop_queued_ok [OF inv, of i] drop_queued_mem(1) [OF port_okD(4) [OF inv], of i j] inv
    by (simp_all add: same_at_def)
qed

section \<open>Callbacks\<close>

lemma waitingE:
  assumes "waiting_on p i d"
  obtains pk ob where "packet_mem p i = Some pk" "\<not> is_canceled pk" "pk_allocator pk = None" "pk_observer pk = None"
    "observer_mem p i = Some ob" "po_dispatcher ob = Some d"
  using assms by (auto simp: waiting_on_def)

text \<open>An observer that matches leaves the list of observers, and its packet, which now owns it, is queued.\<close>

lemma OnMatch_ok:
  assumes inv: "port_ok L p" and i: "i \<in> set (p_observers p)"
  obtains p' where "PortObserver_OnMatch i s now p = Some p'" "port_ok L p'" "packets p' = packets p @ [i]"
    "p_observers p' = remove1 i (p_observers p)" "\<forall>j. j \<noteq> i \<longrightarrow> same_at p p' j" "p_id p' = p_id p"
    "p_zero_handles p' = p_zero_handles p"
proof -
  note D = port_okD [OF inv]
  obtain d where "waiting_on p i d" using D(5) i by blast
  then obtain pk ob where w: "packet_mem p i = Some pk" "\<not> is_canceled pk" "pk_allocator pk = None" "pk_observer pk = None"
    "observer_mem p i = Some ob" "po_dispatcher ob = Some d" by (rule waitingE)
  have out: "i \<notin> set (packets p)" "\<not> p_zero_handles p" using D(3,11) i by auto
  define pk1 where "pk1 = (if po_options ob AND ZX_WAIT_ASYNC_TIMESTAMP \<noteq> 0
    then pk\<lparr>pk_packet := (pk_packet pk)\<lparr>pp_timestamp := now\<rparr>\<rparr> else pk)"
  define pk2 where "pk2 = (if s \<noteq> 0 then pk1\<lparr>pk_packet := (pk_packet pk1)\<lparr>pp_observed := s, pp_count := 1\<rparr>\<rparr> else pk1)"
  have pk1: "\<not> is_canceled pk1" "pk_allocator pk1 = None" using w by (simp_all add: pk1_def is_canceled_def)
  have pk2: "\<not> is_canceled pk2" "pk_allocator pk2 = None" "\<not> IsDefaultAllocatedEphemeral pk2"
    using pk1 by (simp_all add: pk2_def is_canceled_def IsDefaultAllocatedEphemeral_def)
  define p1 where "p1 = p\<lparr>packet_mem := (packet_mem p)(i \<mapsto> pk1)\<rparr>"
  define p2 where "p2 = p1\<lparr>packet_mem := (packet_mem p)(i \<mapsto> pk2), packets := packets p @ [i], sema := sema p + 1\<rparr>"
  define p' where "p' = p2\<lparr>packet_mem := (packet_mem p)(i \<mapsto> pk2\<lparr>pk_observer := Some i\<rparr>),
    observer_mem := (observer_mem p)(i \<mapsto> ob\<lparr>po_dispatcher := None\<rparr>), p_observers := remove1 i (p_observers p)\<rparr>"
  have queue: "Port_Queue i s p1 = Some (ZX_OK, p2)"
    using pk1 pk2(3) out(2) by (simp add: Port_Queue_def p1_def p2_def pk2_def [symmetric] Let_def IsDefaultAllocatedEphemeral_def)
  have reap: "MaybeReap i p2 = Some p'"
    using w i by (simp add: MaybeReap_def UnlinkDispatcherLocked_def p2_def p1_def p'_def Let_def)
  have call: "PortObserver_OnMatch i s now p = Some p'"
    using w(1,5) queue reap by (simp add: PortObserver_OnMatch_def pk1_def [symmetric] p1_def Let_def)
  have same: "\<forall>j. j \<notin> {i} \<longrightarrow> same_at p p' j" by (simp add: same_at_def p'_def p2_def p1_def)
  have filt: "filter (user_packet p') (packets p) = filter (user_packet p) (packets p)"
    using same out(1) by (intro user_packets_same) auto
  have new: "queued_ok p' i" "\<not> user_packet p' i"
    using pk2 by (simp_all add: queued_ok_def user_packet_def p'_def is_canceled_def IsDefaultAllocatedEphemeral_def)
  have f: "packets p' = packets p @ [i]" "p_observers p' = remove1 i (p_observers p)"
    "set (p_observers p') = set (p_observers p) - {i}" "num_ephemeral_packets p' = num_ephemeral_packets p"
    "sema p' = sema p + 1" "interrupt_packets p' = interrupt_packets p" "p_options p' = p_options p"
    "p_zero_handles p' = p_zero_handles p" "p_id p' = p_id p"
    using D(2) by (simp_all add: p'_def p2_def p1_def)
  have "port_ok L p'"
  proof (rule port_ok_frame [OF inv same])
    show "\<forall>j. observer_mem p' j \<noteq> None \<longrightarrow> j \<in> set (packets p') \<or> j \<in> set (p_observers p') \<or> j \<in> L"
    proof (intro allI impI)
      fix j assume "observer_mem p' j \<noteq> None"
      then show "j \<in> set (packets p') \<or> j \<in> set (p_observers p') \<or> j \<in> L"
        using D(6) [of j] same f(1,3) by (cases "j = i") (auto simp: same_at_def)
    qed
    show "L \<inter> (set (packets p') \<union> set (p_observers p')) = {}" using D(12) i f(1,3) by auto
    show "distinct (packets p' @ p_observers p')" using D(1,2,3) out(1) f(1,2,3) by auto
  qed (use f new filt out D(7-10) in \<open>simp_all add: subset_insertI2\<close>)
  then show thesis using that [OF call _ f(1,2)] same f(8,9) by simp
qed

lemma OnCancel_ok:
  assumes inv: "port_ok L p" and i: "i \<in> set (p_observers p)"
  obtains p' where "PortObserver_OnCancel i s p = Some p'" "port_ok L p'" "packets p' = packets p"
    "p_observers p' = remove1 i (p_observers p)" "\<forall>j. j \<noteq> i \<longrightarrow> same_at p p' j" "p_id p' = p_id p"
    "p_zero_handles p' = p_zero_handles p"
proof -
  note D = port_okD [OF inv]
  obtain d where "waiting_on p i d" using D(5) i by blast
  then obtain pk ob where w: "packet_mem p i = Some pk" "observer_mem p i = Some ob" "po_dispatcher ob = Some d"
    by (rule waitingE)
  have out: "i \<notin> set (packets p)" using D(3) i by auto
  define p' where "p' = destroy_observer i (p\<lparr>observer_mem := (observer_mem p)(i \<mapsto> ob\<lparr>po_dispatcher := None\<rparr>),
    p_observers := remove1 i (p_observers p)\<rparr>)"
  have call: "PortObserver_OnCancel i s p = Some p'"
    using w i out by (simp add: PortObserver_OnCancel_def MaybeReap_def UnlinkDispatcherLocked_def p'_def Let_def)
  have same: "\<forall>j. j \<notin> {i} \<longrightarrow> same_at p p' j" by (simp add: same_at_def p'_def destroy_observer_def)
  have filt: "filter (user_packet p') (packets p) = filter (user_packet p) (packets p)"
    using same out by (intro user_packets_same) auto
  have f: "packets p' = packets p" "p_observers p' = remove1 i (p_observers p)"
    "set (p_observers p') = set (p_observers p) - {i}" "num_ephemeral_packets p' = num_ephemeral_packets p"
    "sema p' = sema p" "interrupt_packets p' = interrupt_packets p" "p_options p' = p_options p"
    "p_zero_handles p' = p_zero_handles p" "p_id p' = p_id p" "observer_mem p' i = None"
    using D(2) by (simp_all add: p'_def destroy_observer_def)
  have "port_ok L p'"
  proof (rule port_ok_frame [OF inv same])
    show "\<forall>j. observer_mem p' j \<noteq> None \<longrightarrow> j \<in> set (packets p') \<or> j \<in> set (p_observers p') \<or> j \<in> L"
      using D(6) same f(1,3,10) by (metis Diff_iff empty_iff insert_iff same_at_def)
    show "L \<inter> (set (packets p') \<union> set (p_observers p')) = {}" using D(12) i f(1,3) by auto
    show "distinct (packets p' @ p_observers p')" using D(1,2,3) out f(1,2,3) by auto
  qed (use f filt out D(7-11) in \<open>simp_all add: subset_insertI2\<close>)
  then show thesis using that [OF call _ f(1,2)] same f(8,9) by simp
qed

text \<open>All callbacks of an operation, each to an observer of the port that is called once.\<close>

lemma deliver_ok:
  assumes "port_ok L p" and "distinct (map callback_id cs)" and "callback_id ` set cs \<subseteq> set (p_observers p)"
  shows "\<exists>p'. deliver now cs p = Some p' \<and> port_ok L p' \<and> set (p_observers p') = set (p_observers p) - callback_id ` set cs \<and>
    (\<forall>j. j \<notin> callback_id ` set cs \<longrightarrow> same_at p p' j) \<and> p_id p' = p_id p \<and> p_zero_handles p' = p_zero_handles p"
  using assms
proof (induction cs arbitrary: p)
  case Nil
  then show ?case by (simp add: same_at_def)
next
  case (Cons c cs)
  let ?i = "callback_id c"
  have i: "?i \<in> set (p_observers p)" "?i \<notin> callback_id ` set cs" using Cons.prems by auto
  have "\<exists>p1. deliver now (c # cs) p = deliver now cs p1 \<and> port_ok L p1 \<and> p_observers p1 = remove1 ?i (p_observers p) \<and>
    (\<forall>j. j \<noteq> ?i \<longrightarrow> same_at p p1 j) \<and> p_id p1 = p_id p \<and> p_zero_handles p1 = p_zero_handles p"
  proof (cases c)
    case (OnMatch k s)
    then have k: "k \<in> set (p_observers p)" using i(1) by simp
    obtain p1 where "PortObserver_OnMatch k s now p = Some p1" "port_ok L p1" "p_observers p1 = remove1 k (p_observers p)"
      "\<forall>j. j \<noteq> k \<longrightarrow> same_at p p1 j" "p_id p1 = p_id p" "p_zero_handles p1 = p_zero_handles p"
      by (rule OnMatch_ok [OF Cons.prems(1) k, of s now])
    then show ?thesis using OnMatch by (intro exI [of _ p1]) simp
  next
    case (OnCancel k s)
    then have k: "k \<in> set (p_observers p)" using i(1) by simp
    obtain p1 where "PortObserver_OnCancel k s p = Some p1" "port_ok L p1" "p_observers p1 = remove1 k (p_observers p)"
      "\<forall>j. j \<noteq> k \<longrightarrow> same_at p p1 j" "p_id p1 = p_id p" "p_zero_handles p1 = p_zero_handles p"
      by (rule OnCancel_ok [OF Cons.prems(1) k, of s])
    then show ?thesis using OnCancel by (intro exI [of _ p1]) simp
  qed
  then obtain p1 where p1: "deliver now (c # cs) p = deliver now cs p1" "port_ok L p1" "p_observers p1 = remove1 ?i (p_observers p)"
    "\<forall>j. j \<noteq> ?i \<longrightarrow> same_at p p1 j" "p_id p1 = p_id p" "p_zero_handles p1 = p_zero_handles p" by blast
  have obs: "set (p_observers p1) = set (p_observers p) - {?i}" using p1(3) port_okD(2) [OF Cons.prems(1)] by simp
  have "callback_id ` set cs \<subseteq> set (p_observers p1)" using Cons.prems(3) i(2) obs by (simp add: subset_Diff_insert)
  then obtain p' where p': "deliver now cs p1 = Some p'" "port_ok L p'" "set (p_observers p') = set (p_observers p1) - callback_id ` set cs"
    "\<forall>j. j \<notin> callback_id ` set cs \<longrightarrow> same_at p1 p' j" "p_id p' = p_id p1" "p_zero_handles p' = p_zero_handles p1"
    using Cons.IH [OF p1(2)] Cons.prems(2) by auto
  have "\<forall>j. j \<notin> callback_id ` set (c # cs) \<longrightarrow> same_at p p' j" using p1(4) p'(4) by (simp add: same_at_def)
  then show ?case using p1 p' obs by auto
qed

end
