(* ===== verification/Port_World.thy ===== *)
theory Port_World
  imports Port
begin

text \<open>
  A port together with the objects it observes: the callbacks of the objects, the observers that
  \<open>MakeObserver\<close> adds to them and that \<open>CancelKey\<close> and \<open>on_zero_handles\<close> take back. Every call
  that user space or an object can make is a step; the invariant relates the observers in the
  lists of the objects to those the port holds. It shows that no step uses a packet or an
  observer that was destroyed, that none is left behind, and that a queued packet is never
  missed by a reader. The last part is about the moment in which \<open>CancelKey\<close> has released the
  lock, and about the packets it removes.
\<close>

section \<open>The invariant\<close>

definition linked_to :: "port \<Rightarrow> nat \<Rightarrow> nat \<Rightarrow> bool" where
  "linked_to p i d \<longleftrightarrow> (\<exists>ob. observer_mem p i = Some ob \<and> po_dispatcher ob = Some d)"

abbreviation observer_ids :: "dispatcher \<Rightarrow> nat set" where
  "observer_ids d \<equiv> obs_id ` set (observers d)"

text \<open>
  An observer is in the list of an object exactly while it is linked to that object. Objects are
  looked at between their operations, when all callbacks have been delivered.
\<close>

definition object_ok :: "port \<Rightarrow> nat \<Rightarrow> dispatcher \<Rightarrow> bool" where
  "object_ok p d di \<longleftrightarrow> callbacks di = [] \<and> distinct (map obs_id (observers di)) \<and> observer_ids di = {i. linked_to p i d}"

definition world_ok :: "nat set \<Rightarrow> port_world \<Rightarrow> bool" where
  "world_ok L w \<longleftrightarrow> port_ok L (w_port w) \<and> (\<forall>i\<in>L. \<exists>d. linked_to (w_port w) i d) \<and> (\<forall>d. object_ok (w_port w) d (w_disps w d))"

lemma linked_same: "same_at p p' i \<Longrightarrow> linked_to p' i d = linked_to p i d"
  by (simp add: linked_to_def same_at_def)

lemma linked_functional: "linked_to p i d \<Longrightarrow> linked_to p i d' \<Longrightarrow> d' = d"
  by (auto simp: linked_to_def)

lemma linked_in:
  assumes inv: "port_ok L p" and l: "linked_to p i d"
  shows "i \<in> set (p_observers p) \<or> i \<in> L"
proof -
  have "i \<notin> set (packets p)" using port_okD(4) [OF inv, of i] l by (auto simp: queued_ok_def linked_to_def split: if_splits)
  then show ?thesis using port_okD(6) [OF inv, of i] l by (auto simp: linked_to_def)
qed

lemma observers_linked:
  assumes "port_ok L p" and "i \<in> set (p_observers p)"
  shows "\<exists>d. linked_to p i d"
  using port_okD(5) [OF assms] by (auto simp: waiting_on_def linked_to_def)

lemma object_ok_same:
  assumes "object_ok p d di" and "\<And>i. linked_to p' i d = linked_to p i d"
  shows "object_ok p' d di"
  using assms by (simp add: object_ok_def)

text \<open>An operation of the port that changes nothing about the observers that are linked.\<close>

lemma world_ok_port:
  assumes w: "world_ok L w" and p': "port_ok L p'" and same: "\<And>i d. linked_to p' i d = linked_to (w_port w) i d"
  shows "world_ok L (w\<lparr>w_port := p'\<rparr>)"
  using w p' by (auto simp: world_ok_def same intro: object_ok_same [OF _ same])

text \<open>The common case: no slot changes that belongs to a linked observer.\<close>

lemma linked_unchanged:
  assumes inv: "port_ok L p" and inv': "port_ok L p'" and obs: "p_observers p' = p_observers p"
    and same: "\<And>j. j \<in> set (p_observers p) \<or> j \<in> L \<Longrightarrow> same_at p p' j"
  shows "linked_to p' i d = linked_to p i d"
  using linked_in [OF inv, of i d] linked_in [OF inv', of i d] obs same [of i] linked_same [of p p' i d] by auto

section \<open>Operations of the observed objects\<close>

text \<open>An operation of an object calls back observers of its list, each once, and removes them from it.\<close>

definition conserves :: "(dispatcher \<Rightarrow> dispatcher) \<Rightarrow> bool" where
  "conserves f \<longleftrightarrow> (\<forall>d. distinct (dispatcher_ids d) \<longrightarrow>
     distinct (dispatcher_ids (f d)) \<and> set (dispatcher_ids (f d)) = set (dispatcher_ids d))"

lemma set_ids_notify: "set (dispatcher_ids (NotifyObserversLocked d s)) = set (dispatcher_ids d)"
  by (auto simp: dispatcher_ids_def NotifyObserversLocked_def notify_loop_filter image_iff)

lemma ids_signals: "dispatcher_ids (d\<lparr>signals := x\<rparr>) = dispatcher_ids d"
  by (simp add: dispatcher_ids_def)

lemma set_ids_update: "set (dispatcher_ids (UpdateStateLocked d c s st)) = set (dispatcher_ids d)"
  by (simp add: UpdateStateLocked_eq set_ids_notify ids_signals)

lemma set_ids_racing: "set (dispatcher_ids (UpdateStateLocked_racing races d c s st)) = set (dispatcher_ids d)"
  using UpdateStateLocked_racing_linear [of races d c s st] set_ids_update ids_fold_clear by metis

lemma set_ids_cancel: "set (dispatcher_ids (Cancel d h)) = set (dispatcher_ids d)"
  by (auto simp: dispatcher_ids_def Cancel_def cancel_loop_filter image_iff)

lemma set_ids_cancel_key: "set (dispatcher_ids (snd (CancelByKey d h port key))) = set (dispatcher_ids d)"
  by (auto simp: dispatcher_ids_def CancelByKey_def cancel_loop_filter image_iff)

lemma set_ids_raise: "set (dispatcher_ids (raise_and_notify d s)) = set (dispatcher_ids d)"
  by (simp add: raise_and_notify_def RaiseSignalsLocked_def set_ids_notify ids_signals)

lemma conserves_ops:
  "conserves (\<lambda>d. UpdateStateLocked_racing races d c s st)" "conserves (\<lambda>d. ClearSignals d m)"
  "conserves (\<lambda>d. raise_and_notify d s)" "conserves (\<lambda>d. Cancel d h)" "conserves (\<lambda>d. snd (CancelByKey d h port key))"
  by (simp_all add: conserves_def ids_racing set_ids_racing ids_raise set_ids_raise ids_cancel set_ids_cancel
      ids_cancel_key set_ids_cancel_key)

text \<open>Delivering the callbacks of an operation after which the object accounts for all its linked observers.\<close>

lemma with_dispatcher_ok:
  assumes inv: "port_inv (w_port w)" and others: "\<And>e. e \<noteq> d \<Longrightarrow> object_ok (w_port w) e (w_disps w e)"
    and f: "distinct (dispatcher_ids (f ((w_disps w d)\<lparr>callbacks := []\<rparr>)))"
      "set (dispatcher_ids (f ((w_disps w d)\<lparr>callbacks := []\<rparr>))) = {i. linked_to (w_port w) i d}"
  obtains w' where "with_dispatcher now d f w = Some w'" "world_ok {} w'" "p_id (w_port w') = p_id (w_port w)"
    "p_zero_handles (w_port w') = p_zero_handles (w_port w)"
proof -
  define d1 where "d1 = f ((w_disps w d)\<lparr>callbacks := []\<rparr>)"
  define called where "called = callback_id ` set (callbacks d1)"
  let ?p = "w_port w"
  have dist: "distinct (map callback_id (callbacks d1))" "distinct (map obs_id (observers d1))"
    "called \<inter> observer_ids d1 = {}" and ids: "observer_ids d1 \<union> called = {i. linked_to ?p i d}"
    using f by (auto simp: d1_def [symmetric] dispatcher_ids_def called_def)
  have sub: "called \<subseteq> set (p_observers ?p)"
  proof
    fix i assume "i \<in> called"
    then have "linked_to ?p i d" using ids by auto
    then show "i \<in> set (p_observers ?p)" using linked_in [OF inv] by blast
  qed
  obtain p' where p': "deliver now (callbacks d1) ?p = Some p'" "port_inv p'" "set (p_observers p') = set (p_observers ?p) - called"
    "\<forall>j. j \<notin> called \<longrightarrow> same_at ?p p' j" "p_id p' = p_id ?p" "p_zero_handles p' = p_zero_handles ?p"
    using deliver_ok [OF inv dist(1), folded called_def, OF sub, of now] by blast
  have linked: "linked_to p' i e \<longleftrightarrow> linked_to ?p i e \<and> i \<notin> called" for i e
    using p'(3,4) linked_in [OF p'(2), of i e] linked_same [of ?p p' i e] by (cases "i \<in> called") auto
  have here: "object_ok p' d (d1\<lparr>callbacks := []\<rparr>)" using dist(2,3) ids linked by (auto simp: object_ok_def)
  have "object_ok p' e (w_disps w e)" if "e \<noteq> d" for e
  proof (rule object_ok_same [OF others [OF that]])
    show "linked_to p' i e = linked_to ?p i e" for i
    proof (cases "i \<in> called")
      case True
      then have "linked_to ?p i d" using ids by auto
      then show ?thesis using linked linked_functional that True by blast
    qed (simp add: linked)
  qed
  then have "world_ok {} \<lparr>w_port = p', w_disps = (w_disps w)(d := d1\<lparr>callbacks := []\<rparr>)\<rparr>"
    using p'(2) here by (simp add: world_ok_def)
  then show thesis using that p'(1,5,6) by (simp add: with_dispatcher_def d1_def [symmetric] Let_def)
qed

lemma object_op_ok:
  assumes w: "world_ok {} w" and f: "conserves f"
  obtains w' where "with_dispatcher now d f w = Some w'" "world_ok {} w'" "p_id (w_port w') = p_id (w_port w)"
    "p_zero_handles (w_port w') = p_zero_handles (w_port w)"
proof -
  have d: "object_ok (w_port w) e (w_disps w e)" for e using w by (simp add: world_ok_def)
  have same: "(w_disps w d)\<lparr>callbacks := []\<rparr> = w_disps w d" using d [of d] by (simp add: object_ok_def)
  have ids: "distinct (dispatcher_ids (w_disps w d))" "set (dispatcher_ids (w_disps w d)) = {i. linked_to (w_port w) i d}"
    using d [of d] by (simp_all add: object_ok_def dispatcher_ids_def)
  show thesis
    by (rule with_dispatcher_ok [of w d f now]) (use w d ids f that in \<open>simp_all add: same world_ok_def conserves_def\<close>)
qed

section \<open>Operations of the port\<close>

text \<open>
  An observer on the own list of a running \<open>CancelKey\<close> is taken from its object and destroyed.
\<close>

lemma CancelKey_next_ok:
  assumes w: "world_ok L w" and i: "i \<in> L"
  obtains w' where "CancelKey_next i w = Some w'" "world_ok (L - {i}) w'" "p_observers (w_port w') = p_observers (w_port w)"
    "p_zero_handles (w_port w') = p_zero_handles (w_port w)" "packets (w_port w') = packets (w_port w)"
    "\<forall>j. j \<noteq> i \<longrightarrow> same_at (w_port w) (w_port w') j" "p_id (w_port w') = p_id (w_port w)"
proof -
  let ?p = "w_port w"
  have inv: "port_ok L ?p" and objs: "object_ok ?p e (w_disps w e)" for e using w by (simp_all add: world_ok_def)
  note D = port_okD [OF inv]
  obtain d where l: "linked_to ?p i d" using w i by (auto simp: world_ok_def)
  then obtain ob where ob: "observer_mem ?p i = Some ob" "po_dispatcher ob = Some d" by (auto simp: linked_to_def)
  define p' where "p' = destroy_observer i (?p\<lparr>observer_mem := (observer_mem ?p)(i \<mapsto> ob\<lparr>po_dispatcher := None\<rparr>)\<rparr>)"
  define w' where "w' = w\<lparr>w_port := p', w_disps := (w_disps w)(d := snd (snd (RemoveObserver (w_disps w d) i)))\<rparr>"
  have call: "CancelKey_next i w = Some w'" using ob by (simp add: CancelKey_next_def UnlinkDispatcherLocked_def p'_def w'_def)
  have same: "\<forall>j. j \<notin> {i} \<longrightarrow> same_at ?p p' j" by (simp add: same_at_def p'_def destroy_observer_def)
  have f: "packets p' = packets ?p" "p_observers p' = p_observers ?p" "num_ephemeral_packets p' = num_ephemeral_packets ?p"
    "sema p' = sema ?p" "interrupt_packets p' = interrupt_packets ?p" "p_options p' = p_options ?p"
    "p_zero_handles p' = p_zero_handles ?p" "p_id p' = p_id ?p" "observer_mem p' i = None"
    by (simp_all add: p'_def destroy_observer_def)
  have out: "i \<notin> set (packets ?p)" "i \<notin> set (p_observers ?p)" using D(12) [OF i] by auto
  have filt: "filter (user_packet p') (packets ?p) = filter (user_packet ?p) (packets ?p)"
    using same out by (intro user_packets_same) auto
  have ok: "port_ok (L - {i}) p'"
  proof (rule port_ok_frame [OF inv same])
    show "\<forall>j. observer_mem p' j \<noteq> None \<longrightarrow> j \<in> set (packets p') \<or> j \<in> set (p_observers p') \<or> j \<in> L - {i}"
    proof (intro allI impI)
      fix j assume "observer_mem p' j \<noteq> None"
      then show "j \<in> set (packets p') \<or> j \<in> set (p_observers p') \<or> j \<in> L - {i}"
        using D(6) [of j] same f(1,2,9) by (cases "j = i") (auto simp: same_at_def)
    qed
    show "distinct (packets p' @ p_observers p')" using D(1,2,3) f(1,2) by auto
    show "(L - {i}) \<inter> (set (packets p') \<union> set (p_observers p')) = {}" using D(12) f(1,2) by auto
  qed (use f filt out D(7-11) in \<open>simp_all add: subset_insertI2\<close>)
  have linked: "linked_to p' j e \<longleftrightarrow> linked_to ?p j e \<and> j \<noteq> i" for j e
    using same f(9) linked_same [of ?p p' j e] by (cases "j = i") (auto simp: linked_to_def)
  have "object_ok p' e (w_disps w' e)" for e
  proof (cases "e = d")
    case True
    then show ?thesis using objs [of d] l linked
      by (auto simp: w'_def object_ok_def RemoveObserver_def distinct_map_filter)
  next
    case False
    have "linked_to p' j e = linked_to ?p j e" for j using linked linked_functional [OF l, of e] False by auto
    then show ?thesis using object_ok_same [OF objs [of e]] False by (simp add: w'_def)
  qed
  then have "world_ok (L - {i}) w'" using w ok linked by (simp add: world_ok_def w'_def)
  then show thesis using that [OF call] f same by (simp add: w'_def)
qed

lemma cancel_observers_ok:
  assumes "world_ok (set is) w" and "distinct is"
  shows "\<exists>w'. cancel_observers is w = Some w' \<and> world_ok {} w' \<and> p_observers (w_port w') = p_observers (w_port w) \<and>
    p_zero_handles (w_port w') = p_zero_handles (w_port w) \<and> packets (w_port w') = packets (w_port w) \<and>
    (\<forall>j. j \<notin> set is \<longrightarrow> same_at (w_port w) (w_port w') j) \<and> p_id (w_port w') = p_id (w_port w)"
  using assms
proof (induction "is" arbitrary: w)
  case Nil
  then show ?case by (simp add: same_at_def)
next
  case (Cons i "is")
  obtain w1 where w1: "CancelKey_next i w = Some w1" "world_ok (set (i # is) - {i}) w1" "p_observers (w_port w1) = p_observers (w_port w)"
    "p_zero_handles (w_port w1) = p_zero_handles (w_port w)" "packets (w_port w1) = packets (w_port w)"
    "\<forall>j. j \<noteq> i \<longrightarrow> same_at (w_port w) (w_port w1) j" "p_id (w_port w1) = p_id (w_port w)"
    by (rule CancelKey_next_ok [OF Cons.prems(1), of i]) simp_all
  have "set (i # is) - {i} = set is" using Cons.prems(2) by auto
  then have "world_ok (set is) w1" using w1(2) by simp
  from Cons.IH [OF this] Cons.prems(2) obtain w' where "cancel_observers is w1 = Some w'" "world_ok {} w'"
    "p_observers (w_port w') = p_observers (w_port w1)" "p_zero_handles (w_port w') = p_zero_handles (w_port w1)"
    "packets (w_port w') = packets (w_port w1)" "\<forall>j. j \<notin> set is \<longrightarrow> same_at (w_port w1) (w_port w') j"
    "p_id (w_port w') = p_id (w_port w1)" by auto
  then show ?case using w1 by (intro exI [of _ w']) (simp add: same_at_def)
qed

lemma cancel_packet_frame [simp]:
  "packets (cancel_packet i p) = packets p" "p_observers (cancel_packet i p) = p_observers p"
  "num_ephemeral_packets (cancel_packet i p) = num_ephemeral_packets p" "sema (cancel_packet i p) = sema p"
  "interrupt_packets (cancel_packet i p) = interrupt_packets p" "p_options (cancel_packet i p) = p_options p"
  "p_zero_handles (cancel_packet i p) = p_zero_handles p" "p_id (cancel_packet i p) = p_id p"
  "observer_mem (cancel_packet i p) = observer_mem p"
  by (simp_all add: cancel_packet_def split: option.splits)

lemma cancel_packet_other: "j \<noteq> i \<Longrightarrow> packet_mem (cancel_packet i p) j = packet_mem p j"
  by (simp add: cancel_packet_def split: option.splits)

lemma fold_cancel_packet [simp]:
  "packets (fold cancel_packet is p) = packets p" "p_observers (fold cancel_packet is p) = p_observers p"
  "num_ephemeral_packets (fold cancel_packet is p) = num_ephemeral_packets p" "sema (fold cancel_packet is p) = sema p"
  "interrupt_packets (fold cancel_packet is p) = interrupt_packets p" "p_options (fold cancel_packet is p) = p_options p"
  "p_zero_handles (fold cancel_packet is p) = p_zero_handles p" "p_id (fold cancel_packet is p) = p_id p"
  "observer_mem (fold cancel_packet is p) = observer_mem p"
  by (induction "is" arbitrary: p) simp_all

lemma fold_cancel_packet_other: "j \<notin> set is \<Longrightarrow> packet_mem (fold cancel_packet is p) j = packet_mem p j"
  by (induction "is" arbitrary: p) (simp_all add: cancel_packet_other)

lemma user_not_observer:
  assumes inv: "port_ok L p" and u: "user_packet p i"
  shows "i \<notin> set (p_observers p)"
proof
  assume "i \<in> set (p_observers p)"
  then obtain d where "waiting_on p i d" using port_okD(5) [OF inv] by blast
  then show False by (rule waitingE) (use u in \<open>simp add: user_packet_def IsDefaultAllocatedEphemeral_def\<close>)
qed

text \<open>
  The part of \<open>CancelKey\<close> under the lock: the observers with the key are on its own list, still
  linked to their objects, and no packet with the key is queued any more.
\<close>

lemma CancelKey_begin_ok:
  assumes inv: "port_inv p" and hits_def: "hits = filter (observer_has_key p key) (p_observers p)"
  obtains p' where "CancelKey_begin key p = Some (rev hits, \<exists>i\<in>set (packets p). packet_hit None key p i, p')"
    "port_ok (set hits) p'" "p_observers p' = filter (\<lambda>i. \<not> observer_has_key p key i) (p_observers p)"
    "packets p' = filter (\<lambda>i. \<not> packet_hit None key p i) (packets p)"
    "\<forall>i\<in>set (p_observers p). observer_mem p' i = observer_mem p i" "\<forall>i d. linked_to p' i d = linked_to p i d"
    "p_zero_handles p' = p_zero_handles p" "p_id p' = p_id p" "\<forall>i. user_packet p i \<longrightarrow> packet_mem p' i = packet_mem p i"
proof -
  note D = port_okD [OF inv]
  define p2 where "p2 = (fold cancel_packet hits p)\<lparr>p_observers := filter (\<lambda>i. \<not> observer_has_key p key i) (p_observers p)\<rparr>"
  have f: "packets p2 = packets p" "p_observers p2 = filter (\<lambda>i. \<not> observer_has_key p key i) (p_observers p)"
    "num_ephemeral_packets p2 = num_ephemeral_packets p" "sema p2 = sema p" "interrupt_packets p2 = interrupt_packets p"
    "p_options p2 = p_options p" "p_zero_handles p2 = p_zero_handles p" "p_id p2 = p_id p" "observer_mem p2 = observer_mem p"
    by (simp_all add: p2_def)
  have same: "\<forall>j. j \<notin> set hits \<longrightarrow> same_at p p2 j" by (simp add: p2_def same_at_def fold_cancel_packet_other)
  have out: "set hits \<inter> set (packets p) = {}" "set hits \<inter> set (p_observers p2) = {}" "set hits \<subseteq> set (p_observers p)"
    using D(3) f(2) by (auto simp: hits_def)
  have filt: "filter (user_packet p2) (packets p) = filter (user_packet p) (packets p)"
    using same out(1) by (intro user_packets_same) auto
  have ok2: "port_ok (set hits) p2"
  proof (rule port_ok_frame [OF inv same])
    show "\<forall>j. observer_mem p2 j \<noteq> None \<longrightarrow> j \<in> set (packets p2) \<or> j \<in> set (p_observers p2) \<or> j \<in> set hits"
      using D(6) f(1,2,9) by (auto simp: hits_def)
    show "distinct (packets p2 @ p_observers p2)" using D(1,2,3) f(1,2) by auto
    show "set hits \<inter> (set (packets p2) \<union> set (p_observers p2)) = {}" using out f(1) by auto
    show "\<forall>i\<in>set hits. i \<in> set (packets p2) \<longrightarrow> queued_ok p2 i" "\<forall>i\<in>set hits. i \<in> set (p_observers p2) \<longrightarrow> (\<exists>d. waiting_on p2 i d)"
      using out f(1) by auto
  qed (use f filt D(7-11) in auto)
  have hit: "packet_hit None key p2 i = packet_hit None key p i" if "i \<in> set (packets p)" for i
    using same out(1) that by (intro packet_hit_same) auto
  obtain p' where p': "CancelQueuedPacketsLocked None key p2 = Some (\<exists>i\<in>set (packets p2). packet_hit None key p2 i, p')" "port_ok (set hits) p'"
    "packets p' = filter (\<lambda>i. \<not> (i \<in> set (packets p2) \<and> packet_hit None key p2 i)) (packets p2)" "p_observers p' = p_observers p2"
    "\<forall>j. \<not> (j \<in> set (packets p2) \<and> packet_hit None key p2 j) \<longrightarrow> same_at p2 p' j"
    "\<forall>j. user_packet p2 j \<longrightarrow> packet_mem p' j = packet_mem p2 j" "p_id p' = p_id p2" "p_zero_handles p' = p_zero_handles p2"
    using CancelQueued_ok [OF ok2 port_okD(1) [OF ok2], of None key] by blast
  have mem: "observer_mem p' i = observer_mem p i" if "i \<in> set (p_observers p)" for i
    using p'(5) that D(3) f(1,9) by (auto simp: same_at_def)
  show thesis
  proof (rule that)
    show "CancelKey_begin key p = Some (rev hits, \<exists>i\<in>set (packets p). packet_hit None key p i, p')"
      using p'(1) hit f(1) by (simp add: CancelKey_begin_def hits_def [symmetric] p2_def [symmetric])
    show "packets p' = filter (\<lambda>i. \<not> packet_hit None key p i) (packets p)"
      unfolding p'(3) f(1) by (rule filter_cong) (use hit in auto)
    show "\<forall>i d. linked_to p' i d = linked_to p i d"
    proof (intro allI)
      fix i d
      have "linked_to p' i d = linked_to p i d" if "i \<in> set (p_observers p)" using mem [OF that] by (simp add: linked_to_def)
      moreover have "i \<in> set (p_observers p)" if "linked_to p i d" using linked_in [OF inv that] by simp
      moreover have "i \<in> set (p_observers p)" if "linked_to p' i d" using linked_in [OF p'(2) that] p'(4) f(2) out(3) by auto
      ultimately show "linked_to p' i d = linked_to p i d" by blast
    qed
    show "\<forall>i. user_packet p i \<longrightarrow> packet_mem p' i = packet_mem p i"
    proof (intro allI impI)
      fix i assume u: "user_packet p i"
      have "i \<notin> set hits" using user_not_observer [OF inv u] out(3) by auto
      then have "same_at p p2 i" using same by blast
      then show "packet_mem p' i = packet_mem p i" using p'(6) u same_at_preds(3) by (metis same_at_def)
    qed
  qed (use p' f mem in auto)
qed

lemma CancelKey_ok:
  assumes w: "world_ok {} w"
  obtains st w' where "CancelKey key w = Some (st, w')" "world_ok {} w'" "p_zero_handles (w_port w') = p_zero_handles (w_port w)"
    "p_observers (w_port w') = filter (\<lambda>i. \<not> observer_has_key (w_port w) key i) (p_observers (w_port w))"
    "packets (w_port w') = filter (\<lambda>i. \<not> packet_hit None key (w_port w) i) (packets (w_port w))"
    "\<forall>i. user_packet (w_port w) i \<longrightarrow> packet_mem (w_port w') i = packet_mem (w_port w) i" "p_id (w_port w') = p_id (w_port w)"
proof -
  let ?p = "w_port w"
  have inv: "port_inv ?p" and objs: "object_ok ?p d (w_disps w d)" for d using w by (simp_all add: world_ok_def)
  define hits where "hits = filter (observer_has_key ?p key) (p_observers ?p)"
  obtain p1 where p1: "CancelKey_begin key ?p = Some (rev hits, \<exists>i\<in>set (packets ?p). packet_hit None key ?p i, p1)"
    "port_ok (set hits) p1" "p_observers p1 = filter (\<lambda>i. \<not> observer_has_key ?p key i) (p_observers ?p)"
    "packets p1 = filter (\<lambda>i. \<not> packet_hit None key ?p i) (packets ?p)"
    "\<forall>i d. linked_to p1 i d = linked_to ?p i d"
    "p_zero_handles p1 = p_zero_handles ?p" "p_id p1 = p_id ?p" "\<forall>i. user_packet ?p i \<longrightarrow> packet_mem p1 i = packet_mem ?p i"
    by (rule CancelKey_begin_ok [OF inv hits_def])
  have hits: "\<exists>d. linked_to p1 i d" if "i \<in> set hits" for i
    using observers_linked [OF inv, of i] that p1(5) by (auto simp: hits_def)
  have "world_ok (set (rev hits)) (w\<lparr>w_port := p1\<rparr>)"
    using p1(2,5) hits object_ok_same [OF objs] by (simp add: world_ok_def)
  moreover have dist: "distinct (rev hits)" using port_okD(2) [OF inv] by (simp add: hits_def)
  ultimately obtain w' where w': "cancel_observers (rev hits) (w\<lparr>w_port := p1\<rparr>) = Some w'" "world_ok {} w'"
    "p_observers (w_port w') = p_observers p1" "p_zero_handles (w_port w') = p_zero_handles p1" "packets (w_port w') = packets p1"
    "\<forall>j. j \<notin> set (rev hits) \<longrightarrow> same_at p1 (w_port w') j" "p_id (w_port w') = p_id p1"
    using cancel_observers_ok [of "rev hits" "w\<lparr>w_port := p1\<rparr>"] by auto
  have "packet_mem (w_port w') i = packet_mem ?p i" if "user_packet ?p i" for i
  proof -
    have "i \<notin> set hits" using user_not_observer [OF inv that] by (simp add: hits_def)
    then show ?thesis using w'(6) p1(8) that by (simp add: same_at_def)
  qed
  then show thesis using that [of _ w'] w' p1 by (simp add: CancelKey_def)
qed

text \<open>Adding an observer: it is in memory, in the list of the port, and linked to its object.\<close>

lemma new_observer_ok:
  assumes inv: "port_inv p" and fresh: "packet_mem p i = None" "observer_mem p i = None" and live: "\<not> p_zero_handles p"
    and p'_def: "p' = (PortObserver_new i options d h key sigs p)\<lparr>p_observers := i # p_observers p, policy_exceptions := e\<rparr>"
  shows "port_inv p'" and "linked_to p' j e' \<longleftrightarrow> linked_to p j e' \<or> j = i \<and> e' = d"
proof -
  note D = port_okD [OF inv] and fr = fresh_packet [OF inv fresh(1)]
  have same: "\<forall>j. j \<notin> {i} \<longrightarrow> same_at p p' j" by (simp add: p'_def PortObserver_new_def same_at_def)
  have f: "packets p' = packets p" "p_observers p' = i # p_observers p" "num_ephemeral_packets p' = num_ephemeral_packets p"
    "sema p' = sema p" "interrupt_packets p' = interrupt_packets p" "p_options p' = p_options p" "\<not> p_zero_handles p'"
    using live by (simp_all add: p'_def PortObserver_new_def)
  have new: "waiting_on p' i d" by (simp add: waiting_on_def p'_def PortObserver_new_def PortPacket_new_def is_canceled_def
        ZX_PKT_TYPE_SIGNAL_ONE_def kPortPacketTypeCanceled_def)
  have filt: "filter (user_packet p') (packets p) = filter (user_packet p) (packets p)"
    using same fr by (intro user_packets_same) auto
  show "port_inv p'"
  proof (rule port_ok_frame [OF inv same])
    show "\<forall>j. observer_mem p' j \<noteq> None \<longrightarrow> j \<in> set (packets p') \<or> j \<in> set (p_observers p') \<or> j \<in> {}"
    proof (intro allI impI)
      fix j assume "observer_mem p' j \<noteq> None"
      then show "j \<in> set (packets p') \<or> j \<in> set (p_observers p') \<or> j \<in> {}"
        using D(6) [of j] same f(1,2) by (cases "j = i") (auto simp: same_at_def)
    qed
    show "distinct (packets p' @ p_observers p')" using D(1,2,3) f(1,2) fr by auto
    show "\<forall>j\<in>{i}. j \<in> set (p_observers p') \<longrightarrow> (\<exists>d. waiting_on p' j d)" using new by blast
  qed (use f filt fr D(7-10) in auto)
  show "linked_to p' j e' \<longleftrightarrow> linked_to p j e' \<or> j = i \<and> e' = d"
    using same linked_same [of p p' j e'] fresh(2) by (cases "j = i") (auto simp: linked_to_def p'_def PortObserver_new_def)
qed

lemma set_ids_add:
  "waitable d \<Longrightarrow> set (dispatcher_ids (snd (AddObserver d ob h s mode))) = insert (obs_id ob) (set (dispatcher_ids d))"
  by (auto simp: dispatcher_ids_def AddObserver_def)

lemma MakeObserver_ok:
  assumes w: "world_ok {} w" and fresh: "packet_mem (w_port w) i = None" "observer_mem (w_port w) i = None"
    and live: "\<not> p_zero_handles (w_port w)"
  obtains st w' where "MakeObserver m (Inr i) options d h key sigs now w = Some (st, w')" "world_ok {} w'"
proof (cases "waitable (w_disps w d)")
  case False
  then show thesis using that w by (simp add: MakeObserver_def)
next
  case True
  let ?p = "w_port w" and ?di = "w_disps w d"
  have inv: "port_inv ?p" and objs: "object_ok ?p e (w_disps w e)" for e using w by (simp_all add: world_ok_def)
  define ob where "ob = \<lparr>obs_id = i, obs_key = Some (p_id ?p, key), triggering_signals = 0, obs_handle = 0\<rparr>"
  define mode where "mode = (if options AND ZX_WAIT_ASYNC_EDGE \<noteq> 0 then Edge else Level)"
  define p3 where "p3 = (PortObserver_new i options d h key sigs ?p)\<lparr>p_observers := i # p_observers ?p,
    policy_exceptions := policy_exceptions ?p + (if length (p_observers ?p) \<ge> m then 1 else 0)\<rparr>"
  have call: "MakeObserver m (Inr i) options d h key sigs now w = map_option (Pair (fst (AddObserver ?di ob h sigs mode)))
      (with_dispatcher now d (\<lambda>di. snd (AddObserver di ob h sigs mode)) (w\<lparr>w_port := p3\<rparr>))"
    using True by (cases ?p) (simp add: MakeObserver_def Let_def ob_def mode_def p3_def PortObserver_new_def)
  have p3: "port_inv p3" and linked: "linked_to p3 j e \<longleftrightarrow> linked_to ?p j e \<or> j = i \<and> e = d" for j e
    by (rule new_observer_ok [OF inv fresh live p3_def])+
  have nl: "\<not> linked_to ?p i e" for e using fresh(2) by (simp add: linked_to_def)
  have di: "?di\<lparr>callbacks := []\<rparr> = ?di" and ids: "distinct (dispatcher_ids ?di)" "set (dispatcher_ids ?di) = {j. linked_to ?p j d}"
    using objs [of d] by (simp_all add: object_ok_def dispatcher_ids_def)
  have add: "distinct (dispatcher_ids (snd (AddObserver ?di ob h sigs mode)))"
    "set (dispatcher_ids (snd (AddObserver ?di ob h sigs mode))) = {j. linked_to p3 j d}"
    using ids nl linked True by (auto simp: ob_def ids_add set_ids_add)
  obtain w' where "with_dispatcher now d (\<lambda>di. snd (AddObserver di ob h sigs mode)) (w\<lparr>w_port := p3\<rparr>) = Some w'" "world_ok {} w'"
  proof (rule with_dispatcher_ok [of "w\<lparr>w_port := p3\<rparr>" d "\<lambda>di. snd (AddObserver di ob h sigs mode)" now])
    show "object_ok (w_port (w\<lparr>w_port := p3\<rparr>)) e (w_disps (w\<lparr>w_port := p3\<rparr>) e)" if "e \<noteq> d" for e
      using object_ok_same [OF objs [of e], of p3] linked that by simp
  qed (use p3 add di in simp_all)
  then show thesis using that call by simp
qed

lemma port_cancel_ok:
  assumes w: "world_ok {} w"
  obtains st w' where "port_cancel now d h key w = Some (st, w')" "world_ok {} w'"
proof (cases "waitable (w_disps w d)")
  case False
  then show thesis using that w by (simp add: port_cancel_def)
next
  case True
  obtain w1 where w1: "with_dispatcher now d (\<lambda>di. snd (CancelByKey di h (p_id (w_port w)) key)) w = Some w1" "world_ok {} w1"
    by (rule object_op_ok [OF w conserves_ops(5)])
  let ?p = "w_port w1"
  have inv: "port_inv ?p" using w1(2) by (simp add: world_ok_def)
  obtain r p' where p': "CancelQueued (Some h) key ?p = Some (r, p')" "port_inv p'" "p_observers p' = p_observers ?p"
    "\<forall>j. \<not> (j \<in> set (packets ?p) \<and> packet_hit (Some h) key ?p j) \<longrightarrow> same_at ?p p' j"
    using CancelQueued_ok [OF inv port_okD(1) [OF inv], of "Some h" key] unfolding CancelQueued_def by blast
  have "linked_to p' i e = linked_to ?p i e" for i e
    by (rule linked_unchanged [OF inv p'(2,3)]) (use p'(4) port_okD(3) [OF inv] in auto)
  then have "world_ok {} (w1\<lparr>w_port := p'\<rparr>)" by (intro world_ok_port [OF w1(2) p'(2)])
  then show thesis using that True w1(1) p'(1) by (simp add: port_cancel_def Let_def)
qed

lemma zero_handles_step:
  assumes inv: "port_ok L p" and q: "packets p = i # is"
  shows "zero_handles_packets (i # is) (p\<lparr>p_zero_handles := True\<rparr>) =
    zero_handles_packets is ((if user_packet p i then free_packet i (drop_queued i p) else drop_queued i p)\<lparr>p_zero_handles := True\<rparr>)"
proof -
  obtain pk where pk: "packet_mem p i = Some pk" "IsDefaultAllocatedEphemeral pk = user_packet p i"
    using queued_mem [OF inv, of i] q by auto
  have code: "zero_handles_packets (i # is) (p\<lparr>p_zero_handles := True\<rparr>) = zero_handles_packets is
      (if user_packet p i then free_packet i (p\<lparr>p_zero_handles := True, packets := is, num_ephemeral_packets := num_ephemeral_packets p - 1\<rparr>)
       else reset_observer i (p\<lparr>p_zero_handles := True, packets := is\<rparr>))"
    using pk by (simp add: Let_def)
  show ?thesis
  proof (cases "user_packet p i")
    case True
    have "pk_observer pk = None"
      using port_okD(4) [OF inv, of i] q pk True by (auto simp: queued_ok_def IsDefaultAllocatedEphemeral_def)
    then have "drop_queued i p = p\<lparr>num_ephemeral_packets := num_ephemeral_packets p - 1, packets := is\<rparr>"
      using True pk(1) q by (simp add: drop_queued_def reset_observer_def)
    then have "(free_packet i (drop_queued i p))\<lparr>p_zero_handles := True\<rparr> =
        free_packet i (p\<lparr>p_zero_handles := True, packets := is, num_ephemeral_packets := num_ephemeral_packets p - 1\<rparr>)"
      by (simp add: free_packet_def)
    then show ?thesis unfolding code using True by simp
  next
    case False
    then have "drop_queued i p = reset_observer i (p\<lparr>packets := is\<rparr>)" using q by (simp add: drop_queued_def)
    moreover have "reset_observer i (p\<lparr>p_zero_handles := True, packets := is\<rparr>) = (reset_observer i (p\<lparr>packets := is\<rparr>))\<lparr>p_zero_handles := True\<rparr>"
      using pk(1) by (simp add: reset_observer_def destroy_observer_def split: option.splits)
    ultimately show ?thesis unfolding code using False by simp
  qed
qed

lemma zero_handles_packets_ok:
  assumes "port_ok L p" and "packets p = is" and "\<not> p_zero_handles p"
  shows "\<exists>p'. zero_handles_packets is (p\<lparr>p_zero_handles := True\<rparr>) = Some (p'\<lparr>p_zero_handles := True\<rparr>) \<and> port_ok L p' \<and>
    packets p' = [] \<and> p_observers p' = p_observers p \<and> (\<forall>j. j \<notin> set is \<longrightarrow> same_at p p' j) \<and> \<not> p_zero_handles p' \<and> p_id p' = p_id p"
  using assms
proof (induction "is" arbitrary: p)
  case Nil
  then show ?case by (intro exI [of _ p]) (simp add: same_at_def)
next
  case (Cons i "is")
  define q where "q = (if user_packet p i then free_packet i (drop_queued i p) else drop_queued i p)"
  have i: "i \<in> set (packets p)" using Cons.prems(2) by simp
  have drop: "port_ok L (drop_queued i p)" by (rule drop_queued_ok [OF Cons.prems(1) i])
  have out: "i \<notin> set is" "i \<notin> set (p_observers p)" using port_okD(1,3) [OF Cons.prems(1)] Cons.prems(2) by auto
  have q: "port_ok L q" using drop free_packet_ok [OF drop, of i] out Cons.prems(2) by (simp add: q_def)
  have f: "packets q = is" "p_observers q = p_observers p" "\<not> p_zero_handles q" "p_id q = p_id p"
    using Cons.prems(2,3) by (simp_all add: q_def free_packet_def)
  have same: "j \<noteq> i \<Longrightarrow> same_at p q j" for j
    using drop_queued_mem(1) [OF port_okD(4) [OF Cons.prems(1) i], of j] by (simp add: q_def same_at_def free_packet_def)
  obtain p' where "zero_handles_packets is (q\<lparr>p_zero_handles := True\<rparr>) = Some (p'\<lparr>p_zero_handles := True\<rparr>)" "port_ok L p'"
    "packets p' = []" "p_observers p' = p_observers q" "\<forall>j. j \<notin> set is \<longrightarrow> same_at q p' j" "\<not> p_zero_handles p'" "p_id p' = p_id q"
    using Cons.IH [OF q f(1,3)] by blast
  then show ?case using zero_handles_step [OF Cons.prems(1,2)] f same
    by (intro exI [of _ p']) (simp add: q_def [symmetric] same_at_def)
qed

text \<open>The loop over the observers is that of \<open>CancelKey\<close>, except that it takes them from the list of the port.\<close>

lemma zero_handles_observers_eq:
  "p_observers (w_port w) = is \<Longrightarrow>
   zero_handles_observers is w = cancel_observers is (w\<lparr>w_port := (w_port w)\<lparr>p_observers := []\<rparr>\<rparr>)"
proof (induction "is" arbitrary: w)
  case Nil
  then show ?case by (cases w; cases "w_port w") simp
next
  case (Cons i "is")
  let ?w0 = "w\<lparr>w_port := (w_port w)\<lparr>p_observers := []\<rparr>\<rparr>"
  show ?case
  proof (cases "\<exists>ob d. observer_mem (w_port w) i = Some ob \<and> po_dispatcher ob = Some d")
    case True
    then obtain ob d where ob: "observer_mem (w_port w) i = Some ob" "po_dispatcher ob = Some d" by blast
    define w1 where "w1 = w\<lparr>w_port := destroy_observer i ((w_port w)\<lparr>p_observers := is, observer_mem := (observer_mem (w_port w))(i \<mapsto> ob\<lparr>po_dispatcher := None\<rparr>)\<rparr>),
      w_disps := (w_disps w)(d := snd (snd (RemoveObserver (w_disps w d) i)))\<rparr>"
    have "zero_handles_observers (i # is) w = zero_handles_observers is w1"
      using ob by (simp add: UnlinkDispatcherLocked_def w1_def)
    also have "\<dots> = cancel_observers is (w1\<lparr>w_port := (w_port w1)\<lparr>p_observers := []\<rparr>\<rparr>)"
      by (rule Cons.IH) (simp add: w1_def destroy_observer_def)
    also have "w1\<lparr>w_port := (w_port w1)\<lparr>p_observers := []\<rparr>\<rparr> =
        ?w0\<lparr>w_port := destroy_observer i ((w_port w)\<lparr>p_observers := [], observer_mem := (observer_mem (w_port w))(i \<mapsto> ob\<lparr>po_dispatcher := None\<rparr>)\<rparr>),
          w_disps := (w_disps w)(d := snd (snd (RemoveObserver (w_disps w d) i)))\<rparr>"
      by (cases w; cases "w_port w") (simp add: w1_def destroy_observer_def)
    also have "cancel_observers is \<dots> = cancel_observers (i # is) ?w0"
      using ob by (simp add: CancelKey_next_def UnlinkDispatcherLocked_def)
    finally show ?thesis .
  next
    case False
    then show ?thesis by (auto simp: CancelKey_next_def UnlinkDispatcherLocked_def split: option.splits)
  qed
qed

text \<open>When the last handle to a port goes, nothing is left of its observers, in the port or in the objects.\<close>

lemma Port_on_zero_handles_ok:
  assumes w: "world_ok {} w" and live: "\<not> p_zero_handles (w_port w)"
  obtains w' where "Port_on_zero_handles w = Some w'" "world_ok {} w'" "p_zero_handles (w_port w')"
    "packets (w_port w') = []" "p_observers (w_port w') = []"
proof -
  let ?p = "w_port w"
  have inv: "port_inv ?p" and objs: "object_ok ?p e (w_disps w e)" for e using w by (simp_all add: world_ok_def)
  obtain p1 where p1: "zero_handles_packets (packets ?p) (?p\<lparr>p_zero_handles := True\<rparr>) = Some (p1\<lparr>p_zero_handles := True\<rparr>)"
    "port_inv p1" "packets p1 = []" "p_observers p1 = p_observers ?p" "\<forall>j. j \<notin> set (packets ?p) \<longrightarrow> same_at ?p p1 j"
    using zero_handles_packets_ok [OF inv refl live] by blast
  have linked: "linked_to p1 i d = linked_to ?p i d" for i d
    by (rule linked_unchanged [OF inv p1(2,4)]) (use p1(5) port_okD(3) [OF inv] in auto)
  define p2 where "p2 = p1\<lparr>p_zero_handles := True, p_observers := []\<rparr>"
  have same: "\<forall>j. j \<notin> {} \<longrightarrow> same_at p1 p2 j" by (simp add: same_at_def p2_def)
  have ok2: "port_ok (set (p_observers p1)) p2"
    by (rule port_ok_frame [OF p1(2) same]) (use port_okD(6-10) [OF p1(2)] p1(3) in \<open>auto simp: p2_def\<close>)
  have linked2: "linked_to p2 i d = linked_to ?p i d" for i d using linked by (simp add: linked_to_def p2_def)
  have "world_ok (set (p_observers p1)) (w\<lparr>w_port := p2\<rparr>)"
    using ok2 linked2 observers_linked [OF inv] p1(4) object_ok_same [OF objs] by (simp add: world_ok_def)
  then obtain w' where w': "cancel_observers (p_observers p1) (w\<lparr>w_port := p2\<rparr>) = Some w'" "world_ok {} w'"
    "p_observers (w_port w') = []" "p_zero_handles (w_port w')" "packets (w_port w') = []"
    using cancel_observers_ok [OF _ port_okD(2) [OF p1(2)], of "w\<lparr>w_port := p2\<rparr>"] p1(3) by (auto simp: p2_def)
  have "zero_handles_observers (p_observers p1) (w\<lparr>w_port := p1\<lparr>p_zero_handles := True\<rparr>\<rparr>) = Some w'"
    using zero_handles_observers_eq [of "w\<lparr>w_port := p1\<lparr>p_zero_handles := True\<rparr>\<rparr>" "p_observers p1"] w'(1)
    by (simp add: p2_def)
  then show thesis using that p1(1) w' by (simp add: Port_on_zero_handles_def Let_def)
qed

section \<open>All calls\<close>

text \<open>
  A call and its outcome; \<open>None\<close> is an access to memory that was destroyed. A packet or an
  observer that is allocated is one that is not in use. \<open>CancelKey\<close> runs here without a callback in between; what a
  callback can do to it is the subject of the last section.
\<close>

inductive port_call :: "port_world \<Rightarrow> port_world option \<Rightarrow> bool" where
  queue_user: "packet_mem (w_port w) i = None \<Longrightarrow> observer_mem (w_port w) i = None \<Longrightarrow>
    port_call w (map_option (\<lambda>(st, p). w\<lparr>w_port := p\<rparr>) (QueueUser (Some i) packet (w_port w)))"
| queue_interrupt: "can_bind_to_interrupt (w_port w) \<Longrightarrow>
    port_call w (Some (w\<lparr>w_port := snd (QueueInterruptPacket i key now (w_port w))\<rparr>))"
| remove_interrupt: "port_call w (Some (w\<lparr>w_port := snd (RemoveInterruptPacket i (w_port w))\<rparr>))"
| dequeue: "port_call w (map_option (\<lambda>(r, p). w\<lparr>w_port := p\<rparr>) (Dequeue wait_status (w_port w)))"
| wait_async: "packet_mem (w_port w) i = None \<Longrightarrow> observer_mem (w_port w) i = None \<Longrightarrow> \<not> p_zero_handles (w_port w) \<Longrightarrow>
    port_call w (map_option snd (MakeObserver max_observers (Inr i) options d h key sigs now w))"
| update: "port_call w (with_dispatcher now d (\<lambda>di. UpdateStateLocked_racing races di clear_mask set_mask strobe_mask) w)"
| clear: "port_call w (with_dispatcher now d (\<lambda>di. ClearSignals di m) w)"
| raise_signals: "port_call w (with_dispatcher now d (\<lambda>di. raise_and_notify di s) w)"
| close_handle: "port_call w (with_dispatcher now d (\<lambda>di. Cancel di h) w)"
| cancel: "port_call w (map_option snd (port_cancel now d h key w))"
| cancel_queued: "port_call w (Some (w\<lparr>w_port := snd (CancelQueuedPacket i (w_port w))\<rparr>))"
| cancel_key: "port_call w (map_option snd (CancelKey key w))"
| zero_handles: "\<not> p_zero_handles (w_port w) \<Longrightarrow> port_call w (Port_on_zero_handles w)"

inductive port_reach :: "port_world \<Rightarrow> bool" where
  create: "PortDispatcher_Create True k options = Inr p \<Longrightarrow>
    (\<And>d. \<exists>kd wd s. disps d = Dispatcher_new kd wd s) \<Longrightarrow> port_reach \<lparr>w_port = p, w_disps = disps\<rparr>"
| call: "port_reach w \<Longrightarrow> port_call w (Some w') \<Longrightarrow> port_reach w'"

lemma world_ok_create:
  assumes "PortDispatcher_Create True k options = Inr p" and "\<And>d. \<exists>kd wd s. disps d = Dispatcher_new kd wd s"
  shows "world_ok {} \<lparr>w_port = p, w_disps = disps\<rparr>"
proof -
  have "object_ok p d (disps d)" for d
    using assms(1) assms(2) [of d] by (auto simp: object_ok_def linked_to_def PortDispatcher_Create_def Dispatcher_new_def split: if_splits)
  moreover have "port_inv p" using assms(1) by (auto simp: PortDispatcher_Create_def port_ok_def split: if_splits)
  ultimately show ?thesis by (simp add: world_ok_def)
qed

lemma queue_interrupt_ok:
  assumes inv: "port_ok L p" and bind: "can_bind_to_interrupt p"
  shows "port_ok L (snd (QueueInterruptPacket i key now p))"
proof -
  have "p_options p = ZX_PORT_BIND_TO_INTERRUPT" using port_okD(13) [OF inv] bind by (auto simp: can_bind_to_interrupt_def)
  then show ?thesis using port_okD(9) [OF inv] inv port_ok_interrupts [OF inv] by (simp add: QueueInterruptPacket_def)
qed

lemma remove_interrupt_ok:
  assumes inv: "port_ok L p"
  shows "port_ok L (snd (RemoveInterruptPacket i p))"
proof -
  have "length (filter (\<lambda>ip. ip_id ip \<noteq> i) (interrupt_packets p)) \<le> length (interrupt_packets p)" by simp
  then have "length (packets p) + length (filter (\<lambda>ip. ip_id ip \<noteq> i) (interrupt_packets p)) \<le> sema p"
    using port_okD(9) [OF inv] by linarith
  from port_ok_interrupts [OF inv this] port_okD(10) [OF inv] show ?thesis using inv by (simp add: RemoveInterruptPacket_def)
qed

lemma dequeue_ok:
  assumes inv: "port_inv p"
  obtains r p' where "Dequeue st p = Some (r, p')" "port_inv p'" "p_observers p' = p_observers p"
    "\<forall>j\<in>set (p_observers p). same_at p p' j"
proof (cases "interrupt_packets p")
  case (Cons ip rest)
  show thesis using dequeue_interrupt [OF inv Cons] that by (simp add: same_at_def)
next
  case Nil
  show thesis
  proof (cases "packets p")
    case (Cons i rest)
    then obtain pk where pk: "packet_mem p i = Some pk" using queued_mem [OF inv, of i] by auto
    have "i \<notin> set (p_observers p)" using port_okD(3) [OF inv, of i] Cons by simp
    then show thesis using dequeue_packet [OF inv Nil Cons pk, of st thesis] that by metis
  next
    case e: Nil
    have "port_inv (p\<lparr>sema := 0\<rparr>)" by (rule port_ok_sema [OF inv]) (simp add: e Nil)
    then show thesis using dequeue_empty [OF e Nil, of st] that by (simp add: same_at_def)
  qed
qed

text \<open>A call that works on the port alone.\<close>

lemma world_ok_port_op:
  assumes w: "world_ok {} w" and ok: "port_inv p'" and obs: "p_observers p' = p_observers (w_port w)"
    and same: "\<forall>j\<in>set (p_observers (w_port w)). same_at (w_port w) p' j"
  shows "world_ok {} (w\<lparr>w_port := p'\<rparr>)"
proof (rule world_ok_port [OF w ok])
  have inv: "port_inv (w_port w)" using w by (simp add: world_ok_def)
  show "linked_to p' i d = linked_to (w_port w) i d" for i d
    by (rule linked_unchanged [OF inv ok obs]) (use same in auto)
qed

lemma port_call_ok:
  assumes "port_call w r" and "world_ok {} w"
  shows "\<exists>w'. r = Some w' \<and> world_ok {} w'"
  using assms
proof (cases rule: port_call.cases)
  case (queue_user i packet)
  have inv: "port_inv (w_port w)" using assms(2) by (simp add: world_ok_def)
  obtain st p' where p': "QueueUser (Some i) packet (w_port w) = Some (st, p')" "port_inv p'" "p_observers p' = p_observers (w_port w)"
    "\<forall>j. j \<noteq> i \<longrightarrow> same_at (w_port w) p' j"
    by (rule QueueUser_ok [OF inv queue_user(2,3)]) simp_all
  have "world_ok {} (w\<lparr>w_port := p'\<rparr>)"
    by (rule world_ok_port_op [OF assms(2) p'(2,3)]) (use p'(4) fresh_packet(2) [OF inv queue_user(2)] in auto)
  then show ?thesis using queue_user(1) p'(1) by simp
next
  case (queue_interrupt i key now)
  have inv: "port_inv (w_port w)" using assms(2) by (simp add: world_ok_def)
  have "world_ok {} (w\<lparr>w_port := snd (QueueInterruptPacket i key now (w_port w))\<rparr>)"
    by (rule world_ok_port_op [OF assms(2) queue_interrupt_ok [OF inv queue_interrupt(2)]])
      (simp_all add: QueueInterruptPacket_def same_at_def)
  then show ?thesis using queue_interrupt(1) by simp
next
  case (remove_interrupt i)
  have inv: "port_inv (w_port w)" using assms(2) by (simp add: world_ok_def)
  have "world_ok {} (w\<lparr>w_port := snd (RemoveInterruptPacket i (w_port w))\<rparr>)"
    by (rule world_ok_port_op [OF assms(2) remove_interrupt_ok [OF inv]]) (simp_all add: RemoveInterruptPacket_def same_at_def)
  then show ?thesis using remove_interrupt by simp
next
  case (dequeue st)
  have inv: "port_inv (w_port w)" using assms(2) by (simp add: world_ok_def)
  obtain r' p' where p': "Dequeue st (w_port w) = Some (r', p')" "port_inv p'" "p_observers p' = p_observers (w_port w)"
    "\<forall>j\<in>set (p_observers (w_port w)). same_at (w_port w) p' j"
    by (rule dequeue_ok [OF inv])
  then show ?thesis using dequeue world_ok_port_op [OF assms(2) p'(2-4)] by simp
next
  case (wait_async i m options d h key sigs now)
  obtain st w' where "MakeObserver m (Inr i) options d h key sigs now w = Some (st, w')" "world_ok {} w'"
    by (rule MakeObserver_ok [OF assms(2) wait_async(2-4)])
  then show ?thesis using wait_async(1) by simp
next
  case (cancel now d h key)
  obtain st w' where "port_cancel now d h key w = Some (st, w')" "world_ok {} w'" by (rule port_cancel_ok [OF assms(2)])
  then show ?thesis using cancel by simp
next
  case (cancel_queued i)
  have inv: "port_inv (w_port w)" using assms(2) by (simp add: world_ok_def)
  note ok = CancelQueuedPacket_ok [OF inv, where i = i]
  have "same_at (w_port w) (snd (CancelQueuedPacket i (w_port w))) j" if "j \<in> set (p_observers (w_port w))" for j
  proof (cases "i \<in> set (packets (w_port w))")
    case True
    then have "j \<noteq> i" using port_okD(3) [OF inv] that by auto
    then show ?thesis by (rule ok(3))
  qed (simp add: ok(4) same_at_def)
  then show ?thesis using cancel_queued world_ok_port_op [OF assms(2) ok(1,2)] by simp
next
  case (cancel_key key)
  obtain st w' where "CancelKey key w = Some (st, w')" "world_ok {} w'" by (rule CancelKey_ok [OF assms(2)])
  then show ?thesis using cancel_key by simp
next
  case zero_handles
  obtain w' where "Port_on_zero_handles w = Some w'" "world_ok {} w'" by (rule Port_on_zero_handles_ok [OF assms(2) zero_handles(2)])
  then show ?thesis using zero_handles(1) by simp
next
  case (update now d races c s st)
  show ?thesis unfolding update by (rule object_op_ok [OF assms(2) conserves_ops(1)]) blast
next
  case (clear now d m)
  show ?thesis unfolding clear by (rule object_op_ok [OF assms(2) conserves_ops(2)]) blast
next
  case (raise_signals now d s)
  show ?thesis unfolding raise_signals by (rule object_op_ok [OF assms(2) conserves_ops(3)]) blast
next
  case (close_handle now d h)
  show ?thesis unfolding close_handle by (rule object_op_ok [OF assms(2) conserves_ops(4)]) blast
qed

lemma port_reach_ok: "port_reach w \<Longrightarrow> world_ok {} w"
proof (induction rule: port_reach.induct)
  case (create k options p disps)
  then show ?case by (rule world_ok_create)
next
  case (call w w')
  then show ?case using port_call_ok by blast
qed

lemma QueueUser_room:
  assumes "\<not> p_zero_handles p" and "num_ephemeral_packets p \<le> kMaxAllocatedPacketCountPerPort"
  shows "QueueUser (Some i) packet p = Some (ZX_OK,
    p\<lparr>packet_mem := (packet_mem p)(i \<mapsto> (PortPacket_new None (Some DefaultPortAllocator))\<lparr>pk_packet := packet\<lparr>pp_type := ZX_PKT_TYPE_USER\<rparr>\<rparr>),
      packets := packets p @ [i], num_ephemeral_packets := num_ephemeral_packets p + 1, sema := sema p + 1\<rparr>)"
  using assms by (simp add: QueueUser_def Port_Queue_def PortPacket_new_def is_canceled_def IsDefaultAllocatedEphemeral_def is_ephemeral_def
      ZX_PKT_TYPE_USER_def kPortPacketTypeCanceled_def Let_def)

definition example_world :: port_world where
  "example_world = \<lparr>w_port = \<lparr>p_id = 1, p_options = 0, p_zero_handles = False, num_ephemeral_packets = 0, packets = [],
     interrupt_packets = [], p_observers = [], sema = 0, packet_mem = (\<lambda>_. None), observer_mem = (\<lambda>_. None), policy_exceptions = 0\<rparr>,
     w_disps = (\<lambda>_. Dispatcher_new 2 True 0)\<rparr>"

lemma example_reach: "port_reach example_world"
  unfolding example_world_def by (rule port_reach.create [of 1 0]) (auto simp: PortDispatcher_Create_def)

text \<open>As many packets as one likes can be queued up to the limit, and one more.\<close>

lemma queue_many:
  "n \<le> kMaxAllocatedPacketCountPerPort + 1 \<Longrightarrow> \<exists>w. port_reach w \<and> \<not> p_zero_handles (w_port w) \<and> num_ephemeral_packets (w_port w) = n \<and>
    (\<forall>i\<ge>n. packet_mem (w_port w) i = None \<and> observer_mem (w_port w) i = None)"
proof (induction n)
  case 0
  show ?case using example_reach by (intro exI [of _ example_world]) (simp add: example_world_def)
next
  case (Suc n)
  then obtain w where w: "port_reach w" "\<not> p_zero_handles (w_port w)" "num_ephemeral_packets (w_port w) = n"
    "\<forall>i\<ge>n. packet_mem (w_port w) i = None \<and> observer_mem (w_port w) i = None" by auto
  have room: "num_ephemeral_packets (w_port w) \<le> kMaxAllocatedPacketCountPerPort" using Suc.prems w(3) by simp
  have fresh: "packet_mem (w_port w) n = None" "observer_mem (w_port w) n = None" using w(4) by simp_all
  have "port_call w (Some (w\<lparr>w_port := (w_port w)\<lparr>packet_mem := (packet_mem (w_port w))(n \<mapsto>
      (PortPacket_new None (Some DefaultPortAllocator))\<lparr>pk_packet := zero_packet\<lparr>pp_type := ZX_PKT_TYPE_USER\<rparr>\<rparr>),
      packets := packets (w_port w) @ [n], num_ephemeral_packets := num_ephemeral_packets (w_port w) + 1, sema := sema (w_port w) + 1\<rparr>\<rparr>))"
    using port_call.queue_user [OF fresh, of zero_packet] QueueUser_room [OF w(2) room] by simp
  from port_reach.call [OF w(1) this] show ?case using w by (intro exI) (auto intro: conjI)
qed

section \<open>Properties\<close>

text \<open>
  C5. Whatever calls were made before, no call on a port or on an object it observes uses a
  packet or an observer that was destroyed. Between calls, every observer in memory is either
  waiting in the list of the port or owned by a queued packet, so that none is leaked; and an
  object has an observer of the port in its list exactly while that observer is linked to it.
\<close>

theorem port_memory_safe:
  assumes "port_reach w" and "port_call w r"
  shows "r \<noteq> None \<and>
    (\<forall>i. observer_mem (w_port w) i \<noteq> None \<longrightarrow> i \<in> set (packets (w_port w)) \<union> set (p_observers (w_port w))) \<and>
    (\<forall>d. distinct (map obs_id (observers (w_disps w d))) \<and> observer_ids (w_disps w d) = {i. linked_to (w_port w) i d})"
proof -
  have ok: "world_ok {} w" by (rule port_reach_ok [OF assms(1)])
  then have inv: "port_inv (w_port w)" by (simp add: world_ok_def)
  have "r \<noteq> None" using port_call_ok [OF assms(2) ok] by auto
  moreover have "i \<in> set (packets (w_port w)) \<union> set (p_observers (w_port w))" if "observer_mem (w_port w) i \<noteq> None" for i
    using port_okD(6) [OF inv that] by simp
  ultimately show ?thesis using ok by (simp add: world_ok_def object_ok_def)
qed

theorem port_memory_safe_witness:
  "port_reach example_world \<and> CancelKey 7 example_world \<noteq> None"
  using port_memory_safe [OF example_reach port_call.cancel_key [of example_world 7]] example_reach by simp


lemma example_queued:
  "port_reach (example_world\<lparr>w_port := (w_port example_world)\<lparr>packet_mem := [3 \<mapsto> (PortPacket_new None (Some DefaultPortAllocator))
     \<lparr>pk_packet := zero_packet\<lparr>pp_key := 7, pp_type := ZX_PKT_TYPE_USER\<rparr>\<rparr>], packets := [3], num_ephemeral_packets := 1, sema := 1\<rparr>\<rparr>)"
proof -
  have "port_call example_world (map_option (\<lambda>(st, p). example_world\<lparr>w_port := p\<rparr>)
      (QueueUser (Some 3) (zero_packet\<lparr>pp_key := 7\<rparr>) (w_port example_world)))"
    by (rule port_call.queue_user) (simp_all add: example_world_def)
  moreover have "QueueUser (Some 3) (zero_packet\<lparr>pp_key := 7\<rparr>) (w_port example_world) = Some (ZX_OK,
      (w_port example_world)\<lparr>packet_mem := [3 \<mapsto> (PortPacket_new None (Some DefaultPortAllocator))
     \<lparr>pk_packet := zero_packet\<lparr>pp_key := 7, pp_type := ZX_PKT_TYPE_USER\<rparr>\<rparr>], packets := [3], num_ephemeral_packets := 1, sema := 1\<rparr>)"
    by (subst QueueUser_room) (simp_all add: example_world_def)
  ultimately show ?thesis using port_reach.call [OF example_reach] by simp
qed


text \<open>
  C35. The count of user packets is exact, and there is a limit to how many of them are queued. The limit is
  one more than \<open>kMaxAllocatedPacketCountPerPort\<close>, and it is reached: the test in \<open>Queue\<close>
  is \<open>>\<close>.
\<close>

theorem packet_limit_off_by_one:
  "(\<forall>w. port_reach w \<longrightarrow> num_ephemeral_packets (w_port w) = length (filter (user_packet (w_port w)) (packets (w_port w))) \<and>
      num_ephemeral_packets (w_port w) \<le> kMaxAllocatedPacketCountPerPort + 1) \<and>
   (\<exists>w. port_reach w \<and> num_ephemeral_packets (w_port w) = kMaxAllocatedPacketCountPerPort + 1)"
proof (intro conjI allI impI)
  fix w assume "port_reach w"
  then have inv: "port_inv (w_port w)" using port_reach_ok by (simp add: world_ok_def)
  show "num_ephemeral_packets (w_port w) = length (filter (user_packet (w_port w)) (packets (w_port w)))"
    "num_ephemeral_packets (w_port w) \<le> kMaxAllocatedPacketCountPerPort + 1"
    by (rule port_okD(7) [OF inv], rule port_okD(8) [OF inv])
qed (use queue_many [OF order_refl] in blast)

theorem packet_limit_off_by_one_witness:
  "num_ephemeral_packets (w_port example_world) \<le> kMaxAllocatedPacketCountPerPort + 1 \<and> port_reach example_world"
  using packet_limit_off_by_one example_reach by blast

section \<open>Cancelling by key\<close>

text \<open>
  C36. \<open>CancelKey\<close> moves the observers with the key to a list of its own and unlinks the first of
  them before it releases the lock. The others are then still in the lists of their objects: if
  such an object calls back at that moment, \<open>MaybeReap\<close> erases the observer from the list of the
  port, which does not hold it. The first observer is safe, as it is already unlinked.
\<close>

theorem cancel_key_race:
  assumes reach: "port_reach w" and start: "CancelKey_begin key (w_port w) = Some (i # rest, removed, p1)"
    and unlink: "UnlinkDispatcherLocked i p1 = Some (d, p2)" and j: "j \<in> set rest"
  shows "(\<exists>e. j \<in> observer_ids (w_disps w e)) \<and> observer_mem p2 j \<noteq> None \<and> j \<notin> set (p_observers p2) \<and>
    MaybeReap j p2 = None \<and> PortObserver_OnMatch j s now p2 = None \<and> MaybeReap i p2 \<noteq> None"
proof -
  have ok: "world_ok {} w" by (rule port_reach_ok [OF reach])
  then have inv: "port_inv (w_port w)" by (simp add: world_ok_def)
  define hits where "hits = filter (observer_has_key (w_port w) key) (p_observers (w_port w))"
  obtain q where "CancelKey_begin key (w_port w) = Some (rev hits, \<exists>i\<in>set (packets (w_port w)). packet_hit None key (w_port w) i, q)"
    "port_ok (set hits) q" "\<forall>i d. linked_to q i d = linked_to (w_port w) i d"
    by (rule CancelKey_begin_ok [OF inv hits_def])
  with start have hits: "rev hits = i # rest" and p1: "port_ok (set hits) p1" "\<forall>i d. linked_to p1 i d = linked_to (w_port w) i d"
    by simp_all
  have "distinct (rev hits)" using port_okD(2) [OF inv] by (simp add: hits_def)
  then have ji: "j \<noteq> i" using hits j by auto
  have jh: "j \<in> set hits" using hits j by (metis list.set_intros(2) set_rev)
  obtain e where e: "linked_to (w_port w) j e" using observers_linked [OF inv, of j] jh by (auto simp: hits_def)
  then have "linked_to p1 j e" using p1(2) by simp
  then obtain ob where ob: "observer_mem p1 j = Some ob" "po_dispatcher ob = Some e" by (auto simp: linked_to_def)
  obtain ob' where ob': "observer_mem p1 i = Some ob'" "p2 = p1\<lparr>observer_mem := (observer_mem p1)(i \<mapsto> ob'\<lparr>po_dispatcher := None\<rparr>)\<rparr>"
    using unlink by (auto simp: UnlinkDispatcherLocked_def split: option.splits)
  have mem: "observer_mem p2 j = Some ob" "j \<notin> set (p_observers p2)" using ob(1) ob' ji port_okD(12) [OF p1(1) jh] by simp_all
  have reap: "MaybeReap j q = None" if "observer_mem q j = Some ob" "j \<notin> set (p_observers q)" for q
    using that ob(2) by (simp add: MaybeReap_def UnlinkDispatcherLocked_def)
  have queue: "observer_mem q' = observer_mem q \<and> p_observers q' = p_observers q" if "Port_Queue j s q = Some (st, q')" for st q q'
    using that by (auto simp: Port_Queue_def Let_def split: option.splits if_splits)
  have match: "PortObserver_OnMatch j s now p2 = None"
    using mem reap by (auto simp: PortObserver_OnMatch_def Let_def split: option.splits dest!: queue)
  have "j \<in> observer_ids (w_disps w e)" using ok e by (simp add: world_ok_def object_ok_def)
  moreover have "MaybeReap i p2 \<noteq> None" using ob' by (simp add: MaybeReap_def UnlinkDispatcherLocked_def)
  ultimately show ?thesis using mem match reap [OF mem] by blast
qed

text \<open>A port that observes two objects with one key.\<close>

definition example_two :: port_world where
  "example_two = the (map_option snd (MakeObserver 10 (Inr 4) 0 0 8 7 1 0
     (the (map_option snd (MakeObserver 10 (Inr 3) 0 1 9 7 1 0 example_world)))))"

lemmas port_eval = example_two_def example_world_def MakeObserver_def with_dispatcher_def AddObserver_def Dispatcher_new_def
  PortObserver_new_def PortPacket_new_def zero_packet_def ZX_WAIT_ASYNC_EDGE_def Let_def

lemma example_two_reach: "port_reach example_two"
proof -
  let ?w1 = "the (map_option snd (MakeObserver 10 (Inr 3) 0 1 9 7 1 0 example_world))"
  have "port_call example_world (map_option snd (MakeObserver 10 (Inr 3) 0 1 9 7 1 0 example_world))"
    by (rule port_call.wait_async) (simp_all add: example_world_def)
  moreover have "map_option snd (MakeObserver 10 (Inr 3) 0 1 9 7 1 0 example_world) = Some ?w1" by (simp add: port_eval)
  ultimately have "port_reach ?w1" using port_reach.call [OF example_reach] by metis
  moreover have "port_call ?w1 (map_option snd (MakeObserver 10 (Inr 4) 0 0 8 7 1 0 ?w1))"
    by (rule port_call.wait_async) (simp_all add: port_eval)
  moreover have "map_option snd (MakeObserver 10 (Inr 4) 0 0 8 7 1 0 ?w1) = Some example_two" by (simp add: port_eval)
  ultimately show ?thesis using port_reach.call by metis
qed

theorem cancel_key_race_witness:
  "\<exists>removed p1 d p2. CancelKey_begin 7 (w_port example_two) = Some ([3, 4], removed, p1) \<and>
     UnlinkDispatcherLocked 3 p1 = Some (d, p2) \<and> PortObserver_OnMatch 4 1 0 p2 = None"
proof -
  obtain removed p1 d p2 where b: "CancelKey_begin 7 (w_port example_two) = Some ([3, 4], removed, p1)"
    and u: "UnlinkDispatcherLocked 3 p1 = Some (d, p2)"
    by (simp add: port_eval CancelKey_begin_def observer_has_key_def CancelQueuedPacketsLocked_def cancel_packet_def UnlinkDispatcherLocked_def) blast
  show ?thesis using cancel_key_race [OF example_two_reach b u, of 4 1 0] b u by auto
qed

text \<open>A user packet that is queued and then cancelled by its key is in memory, and in no list.\<close>

definition leaked_packet :: port_packet where
  "leaked_packet = (PortPacket_new None (Some DefaultPortAllocator))\<lparr>pk_packet := zero_packet\<lparr>pp_type := ZX_PKT_TYPE_USER\<rparr>\<rparr>"

lemma leaked_packet_props: "IsDefaultAllocatedEphemeral leaked_packet" "packet_matches None 0 leaked_packet" "pk_observer leaked_packet = None"
  by (simp_all add: leaked_packet_def PortPacket_new_def IsDefaultAllocatedEphemeral_def is_ephemeral_def packet_matches_def zero_packet_def)

lemma queue_and_cancel:
  assumes reach: "port_reach w" and live: "\<not> p_zero_handles (w_port w)"
    and none: "packets (w_port w) = []" "p_observers (w_port w) = []" "num_ephemeral_packets (w_port w) = 0"
    and i: "packet_mem (w_port w) i = None" "observer_mem (w_port w) i = None"
  shows "port_reach (w\<lparr>w_port := (w_port w)\<lparr>packet_mem := (packet_mem (w_port w))(i \<mapsto> leaked_packet),
    packets := [], num_ephemeral_packets := 0, sema := sema (w_port w) + 1\<rparr>\<rparr>)"
proof -
  let ?p = "w_port w"
  define w1 where "w1 = w\<lparr>w_port := ?p\<lparr>packet_mem := (packet_mem ?p)(i \<mapsto> leaked_packet), packets := [i], num_ephemeral_packets := 1, sema := sema ?p + 1\<rparr>\<rparr>"
  have room: "num_ephemeral_packets ?p \<le> kMaxAllocatedPacketCountPerPort" using none(3) by simp
  have "port_call w (Some w1)"
    using port_call.queue_user [OF i, of zero_packet] QueueUser_room [OF live room] none by (simp add: w1_def leaked_packet_def)
  then have r1: "port_reach w1" by (rule port_reach.call [OF reach])
  have "CancelKey 0 w1 = Some (ZX_OK, w\<lparr>w_port := ?p\<lparr>packet_mem := (packet_mem ?p)(i \<mapsto> leaked_packet), packets := [],
      num_ephemeral_packets := 0, sema := sema ?p + 1\<rparr>\<rparr>)"
    using none leaked_packet_props
    by (cases ?p; cases w) (simp add: w1_def CancelKey_def CancelKey_begin_def CancelQueuedPacketsLocked_def reset_observer_def Let_def)
  then show ?thesis using port_reach.call [OF r1, of "w\<lparr>w_port := ?p\<lparr>packet_mem := (packet_mem ?p)(i \<mapsto> leaked_packet), packets := [],
      num_ephemeral_packets := 0, sema := sema ?p + 1\<rparr>\<rparr>"] port_call.cancel_key [of w1 0] by simp
qed

lemma leak_many:
  "\<exists>w. port_reach w \<and> \<not> p_zero_handles (w_port w) \<and> packets (w_port w) = [] \<and> p_observers (w_port w) = [] \<and>
     num_ephemeral_packets (w_port w) = 0 \<and> (\<forall>i<n. user_packet (w_port w) i) \<and>
     (\<forall>i\<ge>n. packet_mem (w_port w) i = None \<and> observer_mem (w_port w) i = None)"
proof (induction n)
  case 0
  show ?case using example_reach by (intro exI [of _ example_world]) (simp add: example_world_def)
next
  case (Suc n)
  then obtain w where w: "port_reach w" "\<not> p_zero_handles (w_port w)" "packets (w_port w) = []" "p_observers (w_port w) = []"
    "num_ephemeral_packets (w_port w) = 0" "\<forall>i<n. user_packet (w_port w) i"
    "\<forall>i\<ge>n. packet_mem (w_port w) i = None \<and> observer_mem (w_port w) i = None" by blast
  have "port_reach (w\<lparr>w_port := (w_port w)\<lparr>packet_mem := (packet_mem (w_port w))(n \<mapsto> leaked_packet),
    packets := [], num_ephemeral_packets := 0, sema := sema (w_port w) + 1\<rparr>\<rparr>)"
    by (rule queue_and_cancel [OF w(1-5)]) (use w(7) in simp_all)
  then show ?case using w leaked_packet_props(1)
    by (intro exI conjI) (assumption, auto simp: user_packet_def less_Suc_eq)
qed



end
