(* ===== verification/Channel.thy ===== *)
theory Channel
  imports Peered Queue_Interface Message_Packet
begin

text \<open>
  Channels (\<^verbatim>\<open>kernel/object/channel_dispatcher.cc\<close>): two endpoints, each with a queue of messages
  and a list of the threads that wait in a call for a reply. A thread has one message waiter; the
  waiters are a function of the thread. An operation of an endpoint that signals waiters records
  its calls in the field \<open>waiter_calls\<close>, in order; they reach the waiters before the lock is
  released. \<open>Read\<close> takes only the lock of the queue, so that it can run in the middle of a write,
  between raising the readable signal and notifying the observers; the model of the write has
  that moment as an argument.
\<close>

unbundle bit_operations_syntax

section \<open>State\<close>

definition kMaxPendingMessageCount :: nat where "kMaxPendingMessageCount = 3500"
definition kWarnPendingMessageCount :: nat where "kWarnPendingMessageCount = kMaxPendingMessageCount div 2"
definition kMinKernelGeneratedTxid :: u32 where "kMinKernelGeneratedTxid = 0x80000000"

definition IsKernelGeneratedTxid :: "u32 \<Rightarrow> bool" where
  "IsKernelGeneratedTxid txid \<longleftrightarrow> txid \<ge> kMinKernelGeneratedTxid"

text \<open>
  \<open>mw_event\<close> is the status the event of the waiter was signalled with, if it was; a channel is
  named by its koid.
\<close>

record message_waiter =
  mw_channel :: "koid option"
  mw_msg :: "message_packet option"
  mw_event :: "zx_status option"
  mw_txid :: u32
  mw_status :: zx_status

datatype waiter_call = Deliver nat message_packet | CancelWait nat zx_status

text \<open>A waiter in the list is its thread and its txid, which does not change while it is there.\<close>

record channel =
  messages :: "message_packet list"
  max_message_count :: nat
  ch_owner :: koid
  waiters :: "(nat \<times> u32) list"
  ch_txid :: u32
  peer_has_closed :: bool
  channel_full :: nat
  waiter_calls :: "waiter_call list"

type_synonym channel_state = "(nat \<Rightarrow> message_waiter) \<times> channel endpoint \<times> channel endpoint"

definition channel_new :: channel where
  "channel_new = \<lparr>messages = [], max_message_count = 0, ch_owner = ZX_KOID_INVALID, waiters = [], ch_txid = 0,
     peer_has_closed = False, channel_full = 0, waiter_calls = []\<rparr>"

definition ChannelDispatcher_Create ::
  "(nat \<Rightarrow> bool) \<Rightarrow> koid \<Rightarrow> koid \<Rightarrow> zx_status + channel endpoint \<times> channel endpoint" where
  "ChannelDispatcher_Create alloc k0 k1 =
     (if \<not> alloc 0 then Inl ZX_ERR_NO_MEMORY
      else if \<not> alloc 1 then Inl ZX_ERR_NO_MEMORY
      else if \<not> alloc 2 then Inl ZX_ERR_NO_MEMORY
      else Inr (InitPeer k1 (PeeredDispatcher_new k0 ZX_OBJECT_WRITABLE channel_new),
                InitPeer k0 (PeeredDispatcher_new k1 ZX_OBJECT_WRITABLE channel_new)))"

section \<open>Message waiters\<close>

definition BeginWait :: "koid \<Rightarrow> message_waiter \<Rightarrow> zx_status \<times> message_waiter" where
  "BeginWait chan w =
     (if mw_channel w \<noteq> None then (ZX_ERR_BAD_STATE, w)
      else (ZX_OK, w\<lparr>mw_status := ZX_ERR_TIMED_OUT, mw_channel := Some chan, mw_event := None\<rparr>))"

definition MessageWaiter_Deliver :: "message_packet \<Rightarrow> message_waiter \<Rightarrow> message_waiter" where
  "MessageWaiter_Deliver msg w = w\<lparr>mw_msg := Some msg, mw_status := ZX_OK, mw_event := Some ZX_OK\<rparr>"

definition MessageWaiter_Cancel :: "zx_status \<Rightarrow> message_waiter \<Rightarrow> message_waiter" where
  "MessageWaiter_Cancel status w = w\<lparr>mw_status := status, mw_event := Some status\<rparr>"

text \<open>\<open>timeout\<close> is what the event's wait returns if it is not signalled: a timeout or an interruption.\<close>

definition MessageWaiter_Wait :: "zx_status \<Rightarrow> message_waiter \<Rightarrow> zx_status" where
  "MessageWaiter_Wait timeout w =
     (if mw_channel w = None then ZX_ERR_BAD_STATE
      else case mw_event w of Some status \<Rightarrow> status | None \<Rightarrow> timeout)"

definition EndWait :: "message_waiter \<Rightarrow> zx_status \<times> message_packet option \<times> message_waiter" where
  "EndWait w =
     (if mw_channel w = None then (ZX_ERR_BAD_STATE, None, w)
      else (mw_status w, mw_msg w, w\<lparr>mw_msg := None, mw_channel := None\<rparr>))"

fun run_waiter_call :: "waiter_call \<Rightarrow> (nat \<Rightarrow> message_waiter) \<Rightarrow> nat \<Rightarrow> message_waiter" where
  "run_waiter_call (Deliver t msg) ws = ws(t := MessageWaiter_Deliver msg (ws t))"
| "run_waiter_call (CancelWait t status) ws = ws(t := MessageWaiter_Cancel status (ws t))"

text \<open>The calls that an operation made on either endpoint reach the waiters.\<close>

definition clear_calls :: "channel endpoint \<Rightarrow> channel endpoint" where
  "clear_calls e = e\<lparr>body := (body e)\<lparr>waiter_calls := []\<rparr>\<rparr>"

definition flush_calls :: "channel_state \<Rightarrow> channel_state" where
  "flush_calls = (\<lambda>(ws, self, peer).
     (fold run_waiter_call (waiter_calls (body self) @ waiter_calls (body peer)) ws, clear_calls self, clear_calls peer))"

section \<open>Closing\<close>

definition CancelMessageWaitersLocked :: "zx_status \<Rightarrow> channel endpoint \<Rightarrow> channel endpoint" where
  "CancelMessageWaitersLocked status e =
     e\<lparr>body := (body e)\<lparr>waiters := [],
        waiter_calls := waiter_calls (body e) @ map (\<lambda>w. CancelWait (fst w) status) (waiters (body e))\<rparr>\<rparr>"

definition Channel_on_zero_handles_locked :: "channel endpoint \<Rightarrow> channel endpoint" where
  "Channel_on_zero_handles_locked e = CancelMessageWaitersLocked ZX_ERR_CANCELED e"

definition Channel_OnPeerZeroHandlesLocked :: "channel endpoint \<Rightarrow> channel endpoint" where
  "Channel_OnPeerZeroHandlesLocked e =
     (let e1 = e\<lparr>body := (body e)\<lparr>peer_has_closed := True\<rparr>\<rparr>;
          e2 = ep_update_state ZX_OBJECT_WRITABLE ZX_OBJECT_PEER_CLOSED e1
      in CancelMessageWaitersLocked ZX_ERR_PEER_CLOSED e2)"

definition Channel_close :: "channel_state \<Rightarrow> channel_state" where
  "Channel_close = (\<lambda>(ws, pair). flush_calls (ws, on_zero_handles Channel_on_zero_handles_locked Channel_OnPeerZeroHandlesLocked pair))"

definition CancelMessageWaiters :: "channel_state \<Rightarrow> channel_state" where
  "CancelMessageWaiters = (\<lambda>(ws, self, peer). flush_calls (ws, CancelMessageWaitersLocked ZX_ERR_CANCELED self, peer))"

definition RemoveWaiter :: "nat \<Rightarrow> channel endpoint \<Rightarrow> channel endpoint" where
  "RemoveWaiter t e = e\<lparr>body := (body e)\<lparr>waiters := filter (\<lambda>w. fst w \<noteq> t) (waiters (body e))\<rparr>\<rparr>"

definition Channel_set_owner :: "koid \<Rightarrow> channel endpoint \<Rightarrow> channel endpoint" where
  "Channel_set_owner new_owner e = (if new_owner = ZX_KOID_INVALID then e else e\<lparr>body := (body e)\<lparr>ch_owner := new_owner\<rparr>\<rparr>)"

section \<open>Reading and writing\<close>

text \<open>The size and the number of handles are returned on success and when the buffer is too small.\<close>

definition Channel_Read ::
  "koid \<Rightarrow> nat \<Rightarrow> nat \<Rightarrow> bool \<Rightarrow> channel endpoint \<Rightarrow> zx_status \<times> (nat \<times> nat) option \<times> message_packet option \<times> channel endpoint" where
  "Channel_Read owner max_size max_handle_count may_discard e =
     (if owner \<noteq> ch_owner (body e) then (ZX_ERR_BAD_HANDLE, None, None, e)
      else case messages (body e) of
             [] \<Rightarrow> (if peer_has_closed (body e) then ZX_ERR_PEER_CLOSED else ZX_ERR_SHOULD_WAIT, None, None, e)
           | msg # rest \<Rightarrow>
               let msg_size = mp_data_size msg;
                   msg_handle_count = mp_num_handles msg;
                   too_small = (msg_size > max_size \<or> msg_handle_count > max_handle_count)
               in if too_small \<and> \<not> may_discard then (ZX_ERR_BUFFER_TOO_SMALL, Some (msg_size, msg_handle_count), None, e)
                  else
                    let e1 = e\<lparr>body := (body e)\<lparr>messages := rest\<rparr>\<rparr>;
                        e2 = (if rest = [] then e1\<lparr>disp := ClearSignals (disp e1) ZX_OBJECT_READABLE\<rparr> else e1)
                    in (if too_small then ZX_ERR_BUFFER_TOO_SMALL else ZX_OK, Some (msg_size, msg_handle_count), Some msg, e2))"

text \<open>The bookkeeping on the length of the queue: the largest so far, and an exception when it is too long.\<close>

definition note_depth :: "channel \<Rightarrow> channel" where
  "note_depth b =
     (let n = length (messages b);
          b1 = (if n > max_message_count b then b\<lparr>max_message_count := n\<rparr> else b)
      in if n \<ge> kWarnPendingMessageCount \<and> n \<noteq> kWarnPendingMessageCount \<and> n > kMaxPendingMessageCount
         then b1\<lparr>channel_full := channel_full b1 + 1\<rparr> else b1)"

text \<open>The first half of \<open>WriteSelf\<close>, under the lock of the queue; it returns the previous signals.\<close>

definition write_queue :: "message_packet \<Rightarrow> channel endpoint \<Rightarrow> zx_signals \<times> channel endpoint" where
  "write_queue msg e =
     (let b1 = (body e)\<lparr>messages := messages (body e) @ [msg]\<rparr>;
          (previous, d1) = RaiseSignalsLocked (disp e) ZX_OBJECT_READABLE
      in (previous, e\<lparr>disp := d1, body := note_depth b1\<rparr>))"

text \<open>\<open>reads\<close> are the reads of other threads that run before the observers are notified.\<close>

type_synonym read_args = "koid \<times> nat \<times> nat \<times> bool"

definition run_read :: "read_args \<Rightarrow> channel endpoint \<Rightarrow> channel endpoint" where
  "run_read = (\<lambda>(owner, max_size, max_handles, may_discard) e. snd (snd (snd (Channel_Read owner max_size max_handles may_discard e))))"

definition WriteSelf :: "read_args list \<Rightarrow> message_packet \<Rightarrow> channel endpoint \<Rightarrow> channel endpoint" where
  "WriteSelf reads msg e =
     (let (previous, e1) = write_queue msg e;
          e2 = fold run_read reads e1
      in if previous AND ZX_OBJECT_READABLE = 0
         then e2\<lparr>disp := NotifyObserversLocked (disp e2) (previous OR ZX_OBJECT_READABLE)\<rparr> else e2)"

definition TryWriteToMessageWaiter :: "message_packet \<Rightarrow> channel endpoint \<Rightarrow> bool \<times> channel endpoint" where
  "TryWriteToMessageWaiter msg e =
     (if waiters (body e) = [] then (False, e)
      else
        let txid = get_txid msg
        in if \<not> IsKernelGeneratedTxid txid then (False, e)
           else case find (\<lambda>w. snd w = txid) (waiters (body e)) of
                  None \<Rightarrow> (False, e)
                | Some w \<Rightarrow>
                    (True, e\<lparr>body := (body e)\<lparr>waiters := remove1 w (waiters (body e)),
                       waiter_calls := waiter_calls (body e) @ [Deliver (fst w) msg]\<rparr>\<rparr>))"

definition Channel_Write :: "koid \<Rightarrow> read_args list \<Rightarrow> message_packet \<Rightarrow> channel_state \<Rightarrow> zx_status \<times> channel_state" where
  "Channel_Write owner reads msg = (\<lambda>(ws, self, peer).
     if owner \<noteq> ch_owner (body self) then (ZX_ERR_BAD_HANDLE, ws, self, peer)
     else if \<not> peer_linked self then (ZX_ERR_PEER_CLOSED, ws, self, peer)
     else
       let (delivered, peer1) = TryWriteToMessageWaiter msg peer
       in if delivered then (ZX_OK, flush_calls (ws, self, peer1))
          else (ZX_OK, ws, self, WriteSelf reads msg peer1))"

section \<open>Calls\<close>

definition GenerateTxid :: "u32 \<Rightarrow> u32 \<times> u32" where
  "GenerateTxid counter = ((counter + 1) OR kMinKernelGeneratedTxid, counter + 1)"

text \<open>The loop at \<open>alloc_txid\<close> ends only when it finds an id that no waiter uses.\<close>

partial_function (option) alloc_txid :: "u32 \<Rightarrow> u32 list \<Rightarrow> (u32 \<times> u32) option" where
  "alloc_txid counter used =
     (case GenerateTxid counter of
        (txid, counter1) \<Rightarrow> if txid \<in> set used then alloc_txid counter1 used else Some (txid, counter1))"

datatype call_result = Killed | Returned zx_status "message_packet option" | Waiting

text \<open>The part of \<open>Call\<close> before it waits.\<close>

definition Call_begin ::
  "nat \<Rightarrow> koid \<Rightarrow> read_args list \<Rightarrow> message_packet \<Rightarrow> channel_state \<Rightarrow> (call_result \<times> channel_state) option" where
  "Call_begin t owner reads msg = (\<lambda>(ws, self, peer).
     let (status, w1) = BeginWait (koid (disp self)) (ws t);
         ws1 = ws(t := w1)
     in if status \<noteq> ZX_OK then Some (Killed, ws, self, peer)
        else if owner \<noteq> ch_owner (body self) then Some (Returned ZX_ERR_BAD_HANDLE None, ws1, self, peer)
        else if \<not> peer_linked self
        then (case EndWait (ws1 t) of (st, reply, w2) \<Rightarrow> Some (Returned ZX_ERR_PEER_CLOSED reply, ws1(t := w2), self, peer))
        else
          (case alloc_txid (ch_txid (body self)) (map snd (waiters (body self))) of
             None \<Rightarrow> None
           | Some (txid, counter) \<Rightarrow>
               Some (Waiting, ws1(t := (ws1 t)\<lparr>mw_txid := txid\<rparr>),
                     self\<lparr>body := (body self)\<lparr>ch_txid := counter, waiters := waiters (body self) @ [(t, txid)]\<rparr>\<rparr>,
                     WriteSelf reads (set_txid txid msg) peer)))"

text \<open>
  The part from the wait on, which is also how an interrupted call is resumed. After a timeout the
  waiter is erased from the list; that it is not in the list is a failure.
\<close>

definition ResumeInterruptedCall :: "nat \<Rightarrow> zx_status \<Rightarrow> channel_state \<Rightarrow> (call_result \<times> channel_state) option" where
  "ResumeInterruptedCall t timeout = (\<lambda>(ws, self, peer).
     if MessageWaiter_Wait timeout (ws t) = ZX_ERR_INTERNAL_INTR_RETRY then Some (Returned ZX_ERR_INTERNAL_INTR_RETRY None, ws, self, peer)
     else
       case EndWait (ws t) of
         (status, reply, w) \<Rightarrow>
           if status = ZX_ERR_TIMED_OUT
           then if t \<in> fst ` set (waiters (body self)) then Some (Returned status reply, ws(t := w), RemoveWaiter t self, peer) else None
           else Some (Returned status reply, ws(t := w), self, peer))"

section \<open>Transaction ids of calls\<close>

definition nth_txid :: "u32 \<Rightarrow> nat \<Rightarrow> u32" where
  "nth_txid counter k = (counter + of_nat k) OR kMinKernelGeneratedTxid"

lemma kernel_txid: "IsKernelGeneratedTxid (x OR kMinKernelGeneratedTxid)"
proof -
  have "kMinKernelGeneratedTxid AND (x OR kMinKernelGeneratedTxid) = kMinKernelGeneratedTxid"
    by (rule bit_word_eqI) (simp add: bit_simps)
  then show ?thesis unfolding IsKernelGeneratedTxid_def by (metis word_and_le1)
qed

lemma nth_txid_low: "take_bit 31 (nth_txid counter k) = take_bit 31 (counter + of_nat k)"
proof (rule bit_word_eqI)
  fix n
  have "bit kMinKernelGeneratedTxid n \<longleftrightarrow> n = 31"
    unfolding kMinKernelGeneratedTxid_def using bit_exp_u32 [of 31 n] by simp
  then show "bit (take_bit 31 (nth_txid counter k)) n = bit (take_bit 31 (counter + of_nat k)) n"
    by (auto simp: bit_simps nth_txid_def)
qed

lemma nth_txid_inj:
  assumes "nth_txid counter i = nth_txid counter j" and "i < 2 ^ 31" and "j < 2 ^ 31"
  shows "i = j"
proof -
  have "unat (take_bit 31 (counter + of_nat i)) = unat (take_bit 31 (counter + of_nat j))"
    using assms(1) nth_txid_low by metis
  then have "take_bit 31 (unat (counter + of_nat i)) = take_bit 31 (unat (counter + of_nat j))" unfolding unsigned_take_bit_eq .
  then have "unat (counter + of_nat i) mod 2 ^ 31 = unat (counter + of_nat j) mod 2 ^ 31" by (simp only: take_bit_eq_mod)
  then have "(unat counter + i) mod 2 ^ 31 = (unat counter + j) mod 2 ^ 31"
    by (simp add: unat_add_nat_u32 mod_mod_cancel)
  then have "i mod 2 ^ 31 = j mod 2 ^ 31" unfolding nat_mod_eq_iff by auto
  then show ?thesis using assms(2,3) by simp
qed

text \<open>With fewer than \<open>2 ^ 31\<close> waiters, one of the next ids is free.\<close>

lemma some_txid_free:
  assumes "length used < 2 ^ 31"
  obtains k where "k \<le> length used" "nth_txid counter (Suc k) \<notin> set used" "\<forall>j<k. nth_txid counter (Suc j) \<in> set used"
proof -
  let ?f = "\<lambda>k. nth_txid counter (Suc k)"
  have inj: "inj_on ?f {..length used}"
  proof (rule inj_onI)
    fix i j assume "i \<in> {..length used}" "j \<in> {..length used}" and eq: "?f i = ?f j"
    then have lt: "i < 2 ^ 31" "j < 2 ^ 31" using assms by auto
    have "nth_txid (counter + 1) i = nth_txid (counter + 1) j" using eq by (simp add: nth_txid_def add.assoc)
    then show "i = j" by (rule nth_txid_inj [OF _ lt])
  qed
  have "\<not> ?f ` {..length used} \<subseteq> set used"
  proof
    assume "?f ` {..length used} \<subseteq> set used"
    then have "card (?f ` {..length used}) \<le> card (set used)" by (rule card_mono [rotated]) simp
    then show False using card_image [OF inj] card_length [of used] by simp
  qed
  then obtain k where "k \<le> length used" "?f k \<notin> set used" by auto
  then have "\<exists>k. ?f k \<notin> set used" by blast
  define m where "m = (LEAST k. ?f k \<notin> set used)"
  have "?f m \<notin> set used" unfolding m_def by (rule LeastI_ex) fact
  moreover have "m \<le> k" unfolding m_def by (rule Least_le) fact
  moreover have "\<forall>j<m. ?f j \<in> set used" unfolding m_def using not_less_Least by blast
  ultimately show thesis using that \<open>k \<le> length used\<close> by (meson order_trans)
qed

lemma alloc_txid_steps:
  assumes "\<forall>j<k. nth_txid counter (Suc j) \<in> set used" and "nth_txid counter (Suc k) \<notin> set used"
  shows "alloc_txid counter used = Some (nth_txid counter (Suc k), counter + of_nat (Suc k))"
  using assms
proof (induction k arbitrary: counter)
  case 0
  then show ?case by (simp add: alloc_txid.simps [of counter] GenerateTxid_def nth_txid_def)
next
  case (Suc k)
  have shift: "nth_txid (counter + 1) (Suc j) = nth_txid counter (Suc (Suc j))" for j by (simp add: nth_txid_def add.assoc)
  have "alloc_txid (counter + 1) used = Some (nth_txid (counter + 1) (Suc k), counter + 1 + of_nat (Suc k))"
    by (rule Suc.IH) (use Suc.prems in \<open>simp_all add: shift\<close>)
  moreover have "(counter + 1) OR kMinKernelGeneratedTxid \<in> set used" using Suc.prems(1) by (auto simp: nth_txid_def dest: spec [of _ 0])
  ultimately show ?case by (simp add: alloc_txid.simps [of counter] GenerateTxid_def shift add.assoc)
qed

lemma alloc_txid_total:
  assumes "length used < 2 ^ 31"
  obtains k where "k \<le> length used" "alloc_txid counter used = Some (nth_txid counter (Suc k), counter + of_nat (Suc k))"
    "nth_txid counter (Suc k) \<notin> set used"
  using some_txid_free [OF assms, of counter] alloc_txid_steps by metis

lemma alloc_txid_result:
  assumes "alloc_txid counter used = Some (txid, counter')"
  shows "txid \<notin> set used \<and> IsKernelGeneratedTxid txid"
proof -
  have "fst (txid, counter') \<notin> set used \<and> IsKernelGeneratedTxid (fst (txid, counter'))"
    by (rule alloc_txid.raw_induct [OF _ assms, where P = "\<lambda>c u r. fst r \<notin> set u \<and> IsKernelGeneratedTxid (fst r)"])
      (auto simp: GenerateTxid_def kernel_txid split: if_splits)
  then show ?thesis by simp
qed

section \<open>The invariant\<close>

interpretation channel: peered_transport Channel_on_zero_handles_locked Channel_OnPeerZeroHandlesLocked
  by unfold_locales
    (simp_all add: Channel_on_zero_handles_locked_def Channel_OnPeerZeroHandlesLocked_def CancelMessageWaitersLocked_def
      Let_def signal_simps)

text \<open>The signals of an endpoint describe its queue and its peer.\<close>

definition channel_signals_ok :: "channel endpoint \<Rightarrow> bool" where
  "channel_signals_ok e \<longleftrightarrow>
     (bit (signals (disp e)) 0 \<longleftrightarrow> messages (body e) \<noteq> []) \<and>
     (bit (signals (disp e)) 2 \<longleftrightarrow> peer_has_closed (body e)) \<and>
     (bit (signals (disp e)) 1 \<longleftrightarrow> \<not> peer_has_closed (body e)) \<and>
     (peer_linked e \<longrightarrow> \<not> peer_has_closed (body e)) \<and>
     length (messages (body e)) \<le> max_message_count (body e)"

definition waiters_ok :: "channel endpoint \<Rightarrow> bool" where
  "waiters_ok e \<longleftrightarrow>
     distinct (map fst (waiters (body e))) \<and> distinct (map snd (waiters (body e))) \<and>
     (\<forall>w\<in>set (waiters (body e)). IsKernelGeneratedTxid (snd w)) \<and>
     (waiters (body e) \<noteq> [] \<longrightarrow> peer_linked e) \<and> waiter_calls (body e) = []"

lemma signals_clear [simp]: "signals (ClearSignals d m) = signals d AND NOT m"
  by (simp add: ClearSignals_def)

lemma Read_cases:
  assumes "Channel_Read owner n m may_discard e = (st, sizes, msg, e')"
  obtains (none) "msg = None" "e' = e"
  | (some) x rest where "messages (body e) = x # rest" "msg = Some x" "body e' = (body e)\<lparr>messages := rest\<rparr>"
      "disp e' = (if rest = [] then ClearSignals (disp e) ZX_OBJECT_READABLE else disp e)" "peer_linked e' = peer_linked e"
proof (cases "messages (body e)")
  case Nil
  then show thesis using assms by (intro none) (auto simp: Channel_Read_def split: if_splits)
next
  case (Cons x rest)
  consider "msg = None \<and> e' = e" | "msg = Some x \<and> e' = (if rest = [] then (e\<lparr>body := (body e)\<lparr>messages := rest\<rparr>\<rparr>)\<lparr>disp := ClearSignals (disp e) ZX_OBJECT_READABLE\<rparr>
      else e\<lparr>body := (body e)\<lparr>messages := rest\<rparr>\<rparr>)"
    using assms Cons by (cases "owner = ch_owner (body e)"; cases "(mp_data_size x > n \<or> mp_num_handles x > m) \<and> \<not> may_discard"; cases "rest = []")
      (simp_all add: Channel_Read_def Let_def)
  then show thesis
  proof cases
    case 2
    then show thesis using Cons by (intro some [of x rest]) auto
  qed (use none in blast)
qed

lemma Read_effect:
  assumes call: "Channel_Read owner n m may_discard e = (st, sizes, msg, e')" and ok: "channel_signals_ok e"
  shows "channel_signals_ok e'" "peer_linked e' = peer_linked e" "koid (disp e') = koid (disp e)"
    "body e' = (body e)\<lparr>messages := (case msg of None \<Rightarrow> messages (body e) | Some x \<Rightarrow> tl (messages (body e)))\<rparr>"
    "msg = Some x \<Longrightarrow> messages (body e) = x # messages (body e')"
proof -
  have "peer_linked e' = peer_linked e \<and> koid (disp e') = koid (disp e) \<and>
    body e' = (body e)\<lparr>messages := (case msg of None \<Rightarrow> messages (body e) | Some x \<Rightarrow> tl (messages (body e)))\<rparr> \<and>
    (msg = Some x \<longrightarrow> messages (body e) = x # messages (body e'))"
    by (rule Read_cases [OF call]) (auto simp: ClearSignals_def)
  then show "peer_linked e' = peer_linked e" "koid (disp e') = koid (disp e)"
    "body e' = (body e)\<lparr>messages := (case msg of None \<Rightarrow> messages (body e) | Some x \<Rightarrow> tl (messages (body e)))\<rparr>"
    "msg = Some x \<Longrightarrow> messages (body e) = x # messages (body e')" by blast+
  show "channel_signals_ok e'"
  proof (rule Read_cases [OF call])
    fix y rest
    assume m: "messages (body e) = y # rest" "body e' = (body e)\<lparr>messages := rest\<rparr>" "peer_linked e' = peer_linked e"
      and d: "disp e' = (if rest = [] then ClearSignals (disp e) ZX_OBJECT_READABLE else disp e)"
    show ?thesis
    proof (cases "rest = []")
      case True
      have "bit (signals (disp e')) k \<longleftrightarrow> bit (signals (disp e)) k \<and> k \<noteq> 0" for k
        using True d by (auto simp: bit_simps signal_simps dest: bit_imp_le_length)
      then show ?thesis using ok m True by (simp add: channel_signals_ok_def)
    next
      case False
      then show ?thesis using ok m d by (simp add: channel_signals_ok_def)
    qed
  qed (use ok in simp)
qed

lemma note_depth_frame [simp]:
  "messages (note_depth b) = messages b" "waiters (note_depth b) = waiters b" "waiter_calls (note_depth b) = waiter_calls b"
  "ch_owner (note_depth b) = ch_owner b" "peer_has_closed (note_depth b) = peer_has_closed b" "ch_txid (note_depth b) = ch_txid b"
  "length (messages b) \<le> max_message_count (note_depth b)"
  by (simp_all add: note_depth_def Let_def)

lemma write_queue_effect:
  assumes call: "write_queue msg e = (previous, e')" and ok: "channel_signals_ok e"
  shows "channel_signals_ok e'" "peer_linked e' = peer_linked e" "koid (disp e') = koid (disp e)" "previous = signals (disp e)"
    "messages (body e') = messages (body e) @ [msg]" "waiters (body e') = waiters (body e)" "waiter_calls (body e') = waiter_calls (body e)"
    "ch_owner (body e') = ch_owner (body e)"
proof -
  let ?b = "note_depth ((body e)\<lparr>messages := messages (body e) @ [msg]\<rparr>)"
  have e': "e' = e\<lparr>disp := (disp e)\<lparr>signals := signals (disp e) OR ZX_OBJECT_READABLE\<rparr>, body := ?b\<rparr>" "previous = signals (disp e)"
    using call by (auto simp: write_queue_def RaiseSignalsLocked_def Let_def)
  note f = note_depth_frame [of "(body e)\<lparr>messages := messages (body e) @ [msg]\<rparr>"]
  have bits: "bit (signals (disp e')) k \<longleftrightarrow> bit (signals (disp e)) k \<or> k = 0" for k
    using e' by (simp add: bit_or_iff signal_simps)
  show "channel_signals_ok e'" using ok bits f e' by (simp add: channel_signals_ok_def)
  show "peer_linked e' = peer_linked e" "koid (disp e') = koid (disp e)" "previous = signals (disp e)"
    "messages (body e') = messages (body e) @ [msg]" "waiters (body e') = waiters (body e)" "waiter_calls (body e') = waiter_calls (body e)"
    "ch_owner (body e') = ch_owner (body e)" using f e' by simp_all
qed

lemma run_read_effect:
  assumes "channel_signals_ok e"
  shows "channel_signals_ok (run_read r e)" "peer_linked (run_read r e) = peer_linked e" "koid (disp (run_read r e)) = koid (disp e)"
    "waiters (body (run_read r e)) = waiters (body e)" "waiter_calls (body (run_read r e)) = waiter_calls (body e)"
    "ch_owner (body (run_read r e)) = ch_owner (body e)"
proof -
  obtain owner n m d where r: "r = (owner, n, m, d)" by (metis prod_cases4)
  obtain st sizes msg e' where call: "Channel_Read owner n m d e = (st, sizes, msg, e')" by (metis prod_cases4)
  have "run_read r e = e'" using call by (simp add: run_read_def r)
  then show "channel_signals_ok (run_read r e)" "peer_linked (run_read r e) = peer_linked e" "koid (disp (run_read r e)) = koid (disp e)"
    "waiters (body (run_read r e)) = waiters (body e)" "waiter_calls (body (run_read r e)) = waiter_calls (body e)"
    "ch_owner (body (run_read r e)) = ch_owner (body e)"
    using Read_effect [OF call assms] by simp_all
qed

lemma run_reads_effect:
  assumes "channel_signals_ok e"
  shows "channel_signals_ok (fold run_read rs e) \<and> peer_linked (fold run_read rs e) = peer_linked e \<and>
    koid (disp (fold run_read rs e)) = koid (disp e) \<and> waiters (body (fold run_read rs e)) = waiters (body e) \<and>
    waiter_calls (body (fold run_read rs e)) = waiter_calls (body e) \<and> ch_owner (body (fold run_read rs e)) = ch_owner (body e)"
  using assms
proof (induction rs arbitrary: e)
  case (Cons r rs)
  show ?case using Cons.IH [OF run_read_effect(1) [OF Cons.prems]] run_read_effect(2-) [OF Cons.prems] by simp
qed simp

text \<open>A write into the queue of an endpoint, with reads of that queue running at the same time.\<close>

lemma WriteSelf_effect:
  assumes "channel_signals_ok e"
  shows "channel_signals_ok (WriteSelf rs msg e)" "peer_linked (WriteSelf rs msg e) = peer_linked e"
    "koid (disp (WriteSelf rs msg e)) = koid (disp e)" "waiters (body (WriteSelf rs msg e)) = waiters (body e)"
    "waiter_calls (body (WriteSelf rs msg e)) = waiter_calls (body e)" "ch_owner (body (WriteSelf rs msg e)) = ch_owner (body e)"
    "messages (body (WriteSelf [] msg e)) = messages (body e) @ [msg]"
proof -
  obtain prev e1 where q: "write_queue msg e = (prev, e1)" by fastforce
  note w = write_queue_effect [OF q assms]
  have body: "body (WriteSelf rs msg e) = body (fold run_read rs e1)" and pl: "peer_linked (WriteSelf rs msg e) = peer_linked (fold run_read rs e1)"
    and sig: "signals (disp (WriteSelf rs msg e)) = signals (disp (fold run_read rs e1))"
    and ko: "koid (disp (WriteSelf rs msg e)) = koid (disp (fold run_read rs e1))" for rs
    by (simp_all add: WriteSelf_def q Let_def)
  note r = run_reads_effect [OF w(1)]
  show "channel_signals_ok (WriteSelf rs msg e)" using r [of rs] body pl sig by (simp add: channel_signals_ok_def)
  show "peer_linked (WriteSelf rs msg e) = peer_linked e" "koid (disp (WriteSelf rs msg e)) = koid (disp e)"
    "waiters (body (WriteSelf rs msg e)) = waiters (body e)" "waiter_calls (body (WriteSelf rs msg e)) = waiter_calls (body e)"
    "ch_owner (body (WriteSelf rs msg e)) = ch_owner (body e)"
    using r [of rs] w body pl ko by simp_all
  show "messages (body (WriteSelf [] msg e)) = messages (body e) @ [msg]" using body [of "[]"] w(5) by simp
qed

lemma find_SomeD: "find P xs = Some x \<Longrightarrow> x \<in> set xs \<and> P x"
  by (auto simp: find_Some_iff)

lemma Try_effect:
  assumes call: "TryWriteToMessageWaiter msg e = (r, e')"
  shows "\<not> r \<Longrightarrow> e' = e" "disp e' = disp e" "peer_linked e' = peer_linked e"
    "r \<Longrightarrow> \<exists>t. (t, get_txid msg) \<in> set (waiters (body e)) \<and>
       body e' = (body e)\<lparr>waiters := remove1 (t, get_txid msg) (waiters (body e)), waiter_calls := waiter_calls (body e) @ [Deliver t msg]\<rparr>"
    "IsKernelGeneratedTxid (get_txid msg) \<Longrightarrow> get_txid msg \<in> snd ` set (waiters (body e)) \<Longrightarrow> r"
proof -
  show "\<not> r \<Longrightarrow> e' = e" "disp e' = disp e" "peer_linked e' = peer_linked e"
    using call by (auto simp: TryWriteToMessageWaiter_def Let_def split: if_splits option.splits)
  show "r \<Longrightarrow> \<exists>t. (t, get_txid msg) \<in> set (waiters (body e)) \<and>
       body e' = (body e)\<lparr>waiters := remove1 (t, get_txid msg) (waiters (body e)), waiter_calls := waiter_calls (body e) @ [Deliver t msg]\<rparr>"
    using call by (auto simp: TryWriteToMessageWaiter_def Let_def split: if_splits option.splits dest!: find_SomeD)
  show r if "IsKernelGeneratedTxid (get_txid msg)" "get_txid msg \<in> snd ` set (waiters (body e))"
    using call that by (auto simp: TryWriteToMessageWaiter_def Let_def find_None_iff split: if_splits option.splits)
qed

section \<open>Channels and threads\<close>

text \<open>A thread that waits, and one whose wait has ended without it having noticed yet.\<close>

definition waiter_waits :: "koid \<Rightarrow> u32 \<Rightarrow> message_waiter \<Rightarrow> bool" where
  "waiter_waits k x w \<longleftrightarrow> mw_channel w = Some k \<and> mw_event w = None \<and> mw_status w = ZX_ERR_TIMED_OUT \<and> mw_txid w = x \<and> mw_msg w = None"

definition waiter_done :: "koid \<Rightarrow> message_waiter \<Rightarrow> bool" where
  "waiter_done k w \<longleftrightarrow> mw_channel w = Some k \<and> mw_event w = Some (mw_status w) \<and>
     (case mw_msg w of
        Some m \<Rightarrow> mw_status w = ZX_OK \<and> get_txid m = mw_txid w
      | None \<Rightarrow> mw_status w = ZX_ERR_CANCELED \<or> mw_status w = ZX_ERR_PEER_CLOSED)"

text \<open>\<open>C t\<close> is the endpoint on which thread \<open>t\<close> is in a call, if it is in one.\<close>

type_synonym channel_world = "(nat \<Rightarrow> koid option) \<times> channel_state"

definition threads_ok :: "(nat \<Rightarrow> koid option) \<Rightarrow> (nat \<Rightarrow> message_waiter) \<Rightarrow> channel endpoint \<Rightarrow> bool" where
  "threads_ok C ws e \<longleftrightarrow>
     (\<forall>w\<in>set (waiters (body e)). C (fst w) = Some (koid (disp e)) \<and> waiter_waits (koid (disp e)) (snd w) (ws (fst w))) \<and>
     (\<forall>t. C t = Some (koid (disp e)) \<longrightarrow> t \<in> fst ` set (waiters (body e)) \<or> waiter_done (koid (disp e)) (ws t))"

definition channel_inv :: "channel_world \<Rightarrow> bool" where
  "channel_inv = (\<lambda>(C, ws, a, b). channel_signals_ok a \<and> channel_signals_ok b \<and> waiters_ok a \<and> waiters_ok b \<and>
     peer_linked a = peer_linked b \<and> koid (disp a) \<noteq> koid (disp b) \<and> threads_ok C ws a \<and> threads_ok C ws b \<and>
     (\<forall>t. C t = None \<longrightarrow> mw_msg (ws t) = None))"

lemma threads_ok_cong:
  assumes "threads_ok C ws e" and "waiters (body e') = waiters (body e)" and "koid (disp e') = koid (disp e)"
    and "\<And>t. C t = Some (koid (disp e)) \<Longrightarrow> ws' t = ws t" and "\<And>t. C' t = Some (koid (disp e)) \<longleftrightarrow> C t = Some (koid (disp e))"
  shows "threads_ok C' ws' e'"
  using assms unfolding threads_ok_def by (metis (no_types, lifting))

lemma clear_calls_id: "waiter_calls (body e) = [] \<Longrightarrow> clear_calls e = e"
  by (simp add: clear_calls_def)

lemma clear_calls_frame [simp]:
  "disp (clear_calls e) = disp e" "peer_linked (clear_calls e) = peer_linked e" "messages (body (clear_calls e)) = messages (body e)"
  "waiters (body (clear_calls e)) = waiters (body e)" "waiter_calls (body (clear_calls e)) = []"
  "peer_has_closed (body (clear_calls e)) = peer_has_closed (body e)" "ch_owner (body (clear_calls e)) = ch_owner (body e)"
  "max_message_count (body (clear_calls e)) = max_message_count (body e)"
  by (simp_all add: clear_calls_def)

lemma signals_ok_clear [simp]: "channel_signals_ok (clear_calls e) = channel_signals_ok e"
  by (simp add: channel_signals_ok_def)

lemma waiter_in_one_list:
  assumes "threads_ok C ws a" and "threads_ok C ws b" and "koid (disp a) \<noteq> koid (disp b)" and "w \<in> set (waiters (body a))"
  shows "fst w \<notin> fst ` set (waiters (body b))"
  using assms unfolding threads_ok_def by (metis (no_types, lifting) imageE option.inject)

text \<open>A reply that is delivered ends the wait of its thread, and of no other.\<close>

lemma deliver_threads:
  assumes ok: "threads_ok C ws e" "waiters_ok e" and t: "(t, get_txid msg) \<in> set (waiters (body e))"
    and e': "waiters (body e') = remove1 (t, get_txid msg) (waiters (body e))" "koid (disp e') = koid (disp e)"
  shows "threads_ok C (ws(t := MessageWaiter_Deliver msg (ws t))) e'"
proof -
  let ?k = "koid (disp e)" and ?w = "(t, get_txid msg)"
  have dist: "distinct (map fst (waiters (body e)))" using ok(2) by (simp add: waiters_ok_def)
  then have "distinct (waiters (body e))" by (simp add: distinct_map)
  then have rest: "set (waiters (body e')) = set (waiters (body e)) - {?w}" using e'(1) by simp
  have other: "fst w \<noteq> t" if "w \<in> set (waiters (body e'))" for w
  proof
    assume "fst w = t"
    then have "w = ?w" using dist that rest t by (metis Diff_iff distinct_map fst_conv inj_on_def)
    then show False using that rest by simp
  qed
  have waits: "waiter_waits ?k (get_txid msg) (ws t)" "C t = Some ?k" using ok(1) t by (auto simp: threads_ok_def)
  have ended: "waiter_done ?k (MessageWaiter_Deliver msg (ws t))"
    using waits(1) by (simp add: waiter_done_def waiter_waits_def MessageWaiter_Deliver_def)
  have in_rest: "t' \<in> fst ` set (waiters (body e'))" if "t' \<in> fst ` set (waiters (body e))" "t' \<noteq> t" for t' using that rest by auto
  have "t' \<in> fst ` set (waiters (body e')) \<or> waiter_done ?k ((ws(t := MessageWaiter_Deliver msg (ws t))) t')" if "C t' = Some ?k" for t'
    using ok(1) ended in_rest [of t'] that by (cases "t' = t") (auto simp: threads_ok_def)
  moreover have "C (fst w) = Some ?k \<and> waiter_waits ?k (snd w) ((ws(t := MessageWaiter_Deliver msg (ws t))) (fst w))"
    if "w \<in> set (waiters (body e'))" for w
    using ok(1) other [OF that] that rest by (simp add: threads_ok_def)
  ultimately show ?thesis unfolding threads_ok_def e'(2) by blast
qed

lemma fold_cancel:
  "fold run_waiter_call (map (\<lambda>w. CancelWait (fst w) st) wl) ws t =
     (if t \<in> fst ` set wl then MessageWaiter_Cancel st (ws t) else ws t)"
  by (induction wl arbitrary: ws) (auto simp: MessageWaiter_Cancel_def)

text \<open>Cancelling ends all waits of an endpoint.\<close>

lemma cancel_threads:
  assumes ok: "threads_ok C ws e" and e': "waiters (body e') = []" "koid (disp e') = koid (disp e)"
    and st: "st = ZX_ERR_CANCELED \<or> st = ZX_ERR_PEER_CLOSED"
    and ws': "\<And>t. t \<in> fst ` set (waiters (body e)) \<Longrightarrow> ws' t = MessageWaiter_Cancel st (ws t)"
      "\<And>t. C t = Some (koid (disp e)) \<Longrightarrow> t \<notin> fst ` set (waiters (body e)) \<Longrightarrow> ws' t = ws t"
  shows "threads_ok C ws' e'"
proof -
  have "waiter_done (koid (disp e)) (ws' t)" if "C t = Some (koid (disp e))" for t
  proof (cases "t \<in> fst ` set (waiters (body e))")
    case True
    then obtain x where "waiter_waits (koid (disp e)) x (ws t)" using ok by (auto simp: threads_ok_def)
    then show ?thesis using ws'(1) [OF True] st by (auto simp: waiter_done_def waiter_waits_def MessageWaiter_Cancel_def)
  next
    case False
    then show ?thesis using ok that ws'(2) [OF that False] by (auto simp: threads_ok_def)
  qed
  then show ?thesis using e' by (simp add: threads_ok_def)
qed


section \<open>Steps\<close>

text \<open>
  What can happen to a channel: the operations of its two endpoints, by any thread that is not
  already in a call, and the end of a thread that is in one. \<open>timeout\<close> of a resumed call is what its
  wait returns if nothing has signalled it.
\<close>

inductive channel_step :: "channel_world \<Rightarrow> channel_world \<Rightarrow> bool" where
  step_write: "Channel_Write owner reads msg s = (st, s') \<Longrightarrow> channel_step (C, s) (C, s')"
| step_read: "Channel_Read owner n m may_discard a = (st, sizes, msg, a') \<Longrightarrow> channel_step (C, ws, a, b) (C, ws, a', b)"
| step_call: "C t = None \<Longrightarrow> Call_begin t owner reads msg (ws, a, b) = Some (r, s') \<Longrightarrow>
    channel_step (C, ws, a, b) (if r = Waiting then C(t \<mapsto> koid (disp a)) else C, s')"
| step_resume: "C t = Some (koid (disp a)) \<Longrightarrow> timeout = ZX_ERR_TIMED_OUT \<or> timeout = ZX_ERR_INTERNAL_INTR_RETRY \<Longrightarrow>
    ResumeInterruptedCall t timeout (ws, a, b) = Some (Returned st reply, s') \<Longrightarrow>
    channel_step (C, ws, a, b) (if st = ZX_ERR_INTERNAL_INTR_RETRY then C else C(t := None), s')"
| step_exit: "C t = Some (koid (disp a)) \<Longrightarrow>
    channel_step (C, ws, a, b) (C(t := None), ws(t := (ws t)\<lparr>mw_msg := None\<rparr>), RemoveWaiter t a, b)"
| step_owner: "channel_step (C, ws, a, b) (C, ws, Channel_set_owner k a, b)"
| step_cancel: "channel_step (C, s) (C, CancelMessageWaiters s)"
| step_close: "channel_step (C, s) (C, Channel_close s)"
| step_signal_self: "user_signal_self 0 c s a = (st, a') \<Longrightarrow> channel_step (C, ws, a, b) (C, ws, a', b)"
| step_signal_peer: "user_signal_peer 0 c s (a, b) = (st, a', b') \<Longrightarrow> channel_step (C, ws, a, b) (C, ws, a', b')"
| step_swap: "channel_step (C, ws, a, b) (C, ws, b, a)"

lemma distinct_map_remove1: "distinct (map f xs) \<Longrightarrow> distinct (map f (remove1 x xs))"
proof (induction xs)
  case (Cons a xs)
  then show ?case using set_remove1_subset [of x xs] by auto
qed simp

lemma waiters_ok_remove1:
  assumes "waiters_ok e" and "waiters (body e') = remove1 w (waiters (body e))" and "peer_linked e' = peer_linked e" and "waiter_calls (body e') = []"
  shows "waiters_ok e'"
  using assms by (auto simp: waiters_ok_def distinct_map_remove1 dest: notin_set_remove1)

lemma inv_swap: "channel_inv (C, ws, a, b) \<Longrightarrow> channel_inv (C, ws, b, a)"
  by (auto simp: channel_inv_def)

lemma inv_write:
  assumes inv: "channel_inv (C, ws, a, b)" and call: "Channel_Write owner reads msg (ws, a, b) = (st, s')"
  shows "channel_inv (C, s')"
proof -
  have i: "channel_signals_ok a" "channel_signals_ok b" "waiters_ok a" "waiters_ok b" "peer_linked a = peer_linked b"
    "koid (disp a) \<noteq> koid (disp b)" "threads_ok C ws a" "threads_ok C ws b" "\<forall>t. C t = None \<longrightarrow> mw_msg (ws t) = None"
    using inv by (simp_all add: channel_inv_def)
  obtain r b1 where att: "TryWriteToMessageWaiter msg b = (r, b1)" by fastforce
  note e = Try_effect [OF att]
  consider "s' = (ws, a, b)" | "\<not> r" "s' = (ws, a, WriteSelf reads msg b)" | "r" "s' = flush_calls (ws, a, b1)"
    using call att e(1) by (auto simp: Channel_Write_def split: if_splits)
  then show ?thesis
  proof cases
    case 1 then show ?thesis using inv by simp
  next
    case 2
    note w = WriteSelf_effect(1-6) [OF i(2), of reads msg]
    have "threads_ok C ws (WriteSelf reads msg b)" by (rule threads_ok_cong [OF i(8)]) (use w in simp_all)
    moreover have "waiters_ok (WriteSelf reads msg b)" using i(4) w by (simp add: waiters_ok_def)
    ultimately show ?thesis using i w 2 by (simp add: channel_inv_def)
  next
    case 3
    obtain t where t: "(t, get_txid msg) \<in> set (waiters (body b))"
      and b1: "body b1 = (body b)\<lparr>waiters := remove1 (t, get_txid msg) (waiters (body b)), waiter_calls := waiter_calls (body b) @ [Deliver t msg]\<rparr>"
      using e(4) 3(1) by blast
    let ?ws = "ws(t := MessageWaiter_Deliver msg (ws t))"
    have s': "s' = (?ws, a, clear_calls b1)" using 3(2) b1 i(3,4) by (simp add: flush_calls_def waiters_ok_def clear_calls_id)
    have Ct: "C t = Some (koid (disp b))" using i(8) t by (auto simp: threads_ok_def)
    have "threads_ok C ?ws (clear_calls b1)" by (rule deliver_threads [OF i(8,4) t]) (use b1 e(2) in simp_all)
    moreover have "threads_ok C ?ws a" by (rule threads_ok_cong [OF i(7)]) (use Ct i(6) in auto)
    moreover have "waiters_ok (clear_calls b1)"
      by (rule waiters_ok_remove1 [OF i(4), of _ "(t, get_txid msg)"]) (use b1 e(3) in simp_all)
    moreover have "channel_signals_ok b1" using i(2) b1 e(2,3) by (simp add: channel_signals_ok_def)
    ultimately show ?thesis using i e(2,3) s' Ct by (auto simp: channel_inv_def)
  qed
qed

lemma channel_invD:
  assumes "channel_inv (C, ws, a, b)"
  shows "channel_signals_ok a" "channel_signals_ok b" "waiters_ok a" "waiters_ok b" "peer_linked a = peer_linked b"
    "koid (disp a) \<noteq> koid (disp b)" "threads_ok C ws a" "threads_ok C ws b" "C t = None \<Longrightarrow> mw_msg (ws t) = None"
  using assms by (simp_all add: channel_inv_def)

text \<open>The three ways a call begins.\<close>

lemma Call_cases:
  assumes "Call_begin t owner reads msg (ws, a, b) = Some (r, s')"
  obtains (killed) "mw_channel (ws t) \<noteq> None" "r = Killed" "s' = (ws, a, b)"
  | (refused) w st reply where "mw_channel (ws t) = None" "r = Returned st reply" "s' = (ws(t := w), a, b)"
      "mw_msg w = None \<or> mw_msg w = mw_msg (ws t)"
  | (waiting) txid counter where "mw_channel (ws t) = None" "owner = ch_owner (body a)" "peer_linked a"
      "alloc_txid (ch_txid (body a)) (map snd (waiters (body a))) = Some (txid, counter)" "r = Waiting"
      "s' = (ws(t := (ws t)\<lparr>mw_status := ZX_ERR_TIMED_OUT, mw_channel := Some (koid (disp a)), mw_event := None, mw_txid := txid\<rparr>),
             a\<lparr>body := (body a)\<lparr>ch_txid := counter, waiters := waiters (body a) @ [(t, txid)]\<rparr>\<rparr>,
             WriteSelf reads (set_txid txid msg) b)"
proof (cases "mw_channel (ws t)")
  case (Some k)
  then show thesis using assms by (intro killed) (auto simp: Call_begin_def Let_def BeginWait_def)
next
  case None
  note free = None
  let ?w = "(ws t)\<lparr>mw_status := ZX_ERR_TIMED_OUT, mw_channel := Some (koid (disp a)), mw_event := None\<rparr>"
  have bw: "BeginWait (koid (disp a)) (ws t) = (ZX_OK, ?w)" using None by (simp add: BeginWait_def)
  show thesis
  proof (cases "owner = ch_owner (body a) \<and> peer_linked a")
    case True
    then obtain txid counter where "alloc_txid (ch_txid (body a)) (map snd (waiters (body a))) = Some (txid, counter)"
      using assms bw by (auto simp: Call_begin_def Let_def split: option.splits)
    then show thesis using assms bw True None by (intro waiting [of txid counter]) (auto simp: Call_begin_def Let_def)
  next
    case False
    then show thesis
    proof (cases "owner = ch_owner (body a)")
      case True
      then show thesis using assms bw False by (intro refused [OF free, of ZX_ERR_PEER_CLOSED "mw_msg (ws t)" "?w\<lparr>mw_msg := None, mw_channel := None\<rparr>"])
          (auto simp: Call_begin_def Let_def EndWait_def)
    next
      case False
      then show thesis using assms bw by (intro refused [OF free, of ZX_ERR_BAD_HANDLE None ?w]) (auto simp: Call_begin_def Let_def)
    qed
  qed
qed

lemma inv_call:
  assumes inv: "channel_inv (C, ws, a, b)" and free: "C t = None" and call: "Call_begin t owner reads msg (ws, a, b) = Some (r, s')"
  shows "channel_inv (if r = Waiting then C(t \<mapsto> koid (disp a)) else C, s')"
proof (rule Call_cases [OF call])
  note i = channel_invD [OF inv]
  show ?thesis if "r = Killed" "s' = (ws, a, b)" using inv that by simp
  show ?thesis if "r = Returned st reply" "s' = (ws(t := w), a, b)" "mw_msg w = None \<or> mw_msg w = mw_msg (ws t)" for w st reply
  proof -
    have "threads_ok C (ws(t := w)) a" "threads_ok C (ws(t := w)) b"
      using threads_ok_cong [OF i(7)] threads_ok_cong [OF i(8)] free by (metis fun_upd_other option.distinct(1))+
    then show ?thesis using i that free by (auto simp: channel_inv_def)
  qed
  fix txid counter
  let ?ws = "ws(t := (ws t)\<lparr>mw_status := ZX_ERR_TIMED_OUT, mw_channel := Some (koid (disp a)), mw_event := None, mw_txid := txid\<rparr>)"
  let ?a = "a\<lparr>body := (body a)\<lparr>ch_txid := counter, waiters := waiters (body a) @ [(t, txid)]\<rparr>\<rparr>"
  let ?b = "WriteSelf reads (set_txid txid msg) b" and ?C = "C(t \<mapsto> koid (disp a))"
  assume w: "peer_linked a" "alloc_txid (ch_txid (body a)) (map snd (waiters (body a))) = Some (txid, counter)" "r = Waiting" "s' = (?ws, ?a, ?b)"
  note e = WriteSelf_effect(1-6) [OF i(2), of reads "set_txid txid msg"] and x = alloc_txid_result [OF w(2)]
  have new: "t \<notin> fst ` set (waiters (body a))" using i(7) free by (auto simp: threads_ok_def)
  have "waiters_ok ?a" using i(3) x new w(1) by (auto simp: waiters_ok_def)
  moreover have "waiters_ok ?b" using i(4) e by (simp add: waiters_ok_def)
  moreover have "channel_signals_ok ?a" using i(1) by (simp add: channel_signals_ok_def)
  moreover have "threads_ok ?C ?ws ?b" by (rule threads_ok_cong [OF i(8)]) (use e free i(6) in auto)
  moreover have "threads_ok ?C ?ws ?a"
    using i(7,9) new free by (auto simp: threads_ok_def waiter_waits_def)
  ultimately show ?thesis using i e w by (auto simp: channel_inv_def)
qed

text \<open>How a thread that is in a call leaves it: it never fails to find itself in the list.\<close>

lemma Resume_cases:
  assumes inv: "channel_inv (C, ws, a, b)" and C: "C t = Some (koid (disp a))"
    and timeout: "timeout = ZX_ERR_TIMED_OUT \<or> timeout = ZX_ERR_INTERNAL_INTR_RETRY"
  obtains (retry) "t \<in> fst ` set (waiters (body a))" "timeout = ZX_ERR_INTERNAL_INTR_RETRY"
      "ResumeInterruptedCall t timeout (ws, a, b) = Some (Returned ZX_ERR_INTERNAL_INTR_RETRY None, ws, a, b)"
  | (timed_out) "t \<in> fst ` set (waiters (body a))" "timeout = ZX_ERR_TIMED_OUT"
      "ResumeInterruptedCall t timeout (ws, a, b) =
         Some (Returned ZX_ERR_TIMED_OUT None, ws(t := (ws t)\<lparr>mw_msg := None, mw_channel := None\<rparr>), RemoveWaiter t a, b)"
  | (ended) "t \<notin> fst ` set (waiters (body a))" "waiter_done (koid (disp a)) (ws t)"
      "ResumeInterruptedCall t timeout (ws, a, b) =
         Some (Returned (mw_status (ws t)) (mw_msg (ws t)), ws(t := (ws t)\<lparr>mw_msg := None, mw_channel := None\<rparr>), a, b)"
proof (cases "t \<in> fst ` set (waiters (body a))")
  case True
  then obtain x where w: "waiter_waits (koid (disp a)) x (ws t)" using channel_invD(7) [OF inv] by (auto simp: threads_ok_def)
  from timeout show thesis
  proof
    assume "timeout = ZX_ERR_TIMED_OUT"
    then show thesis using True w
      by (intro timed_out) (simp_all add: ResumeInterruptedCall_def MessageWaiter_Wait_def EndWait_def waiter_waits_def)
  next
    assume "timeout = ZX_ERR_INTERNAL_INTR_RETRY"
    then show thesis using True w by (intro retry) (simp_all add: ResumeInterruptedCall_def MessageWaiter_Wait_def waiter_waits_def)
  qed
next
  case False
  then have d: "waiter_done (koid (disp a)) (ws t)" using channel_invD(7) [OF inv] C by (auto simp: threads_ok_def)
  then have st: "mw_status (ws t) \<noteq> ZX_ERR_TIMED_OUT" "mw_status (ws t) \<noteq> ZX_ERR_INTERNAL_INTR_RETRY"
    by (auto simp: waiter_done_def split: option.splits)
  show thesis using False d st
    by (intro ended) (simp_all add: ResumeInterruptedCall_def MessageWaiter_Wait_def EndWait_def waiter_done_def)
qed

lemma RemoveWaiter_frame [simp]:
  "disp (RemoveWaiter t e) = disp e" "peer_linked (RemoveWaiter t e) = peer_linked e"
  "body (RemoveWaiter t e) = (body e)\<lparr>waiters := filter (\<lambda>w. fst w \<noteq> t) (waiters (body e))\<rparr>"
  by (simp_all add: RemoveWaiter_def)

text \<open>A thread that leaves its call, and is not in the list any more.\<close>

lemma inv_leave:
  assumes inv: "channel_inv (C, ws, a, b)" and C: "C t = Some (koid (disp a))" and w: "mw_msg w = None"
  shows "channel_inv (C(t := None), ws(t := w), RemoveWaiter t a, b)"
proof -
  note i = channel_invD [OF inv]
  have "threads_ok (C(t := None)) (ws(t := w)) (RemoveWaiter t a)" using i(7) by (auto simp: threads_ok_def)
  moreover have "threads_ok (C(t := None)) (ws(t := w)) b" by (rule threads_ok_cong [OF i(8)]) (use C i(6) in auto)
  moreover have "waiters_ok (RemoveWaiter t a)"
    using i(3) by (auto simp: waiters_ok_def distinct_map inj_on_def)
  moreover have "channel_signals_ok (RemoveWaiter t a)" using i(1) by (simp add: channel_signals_ok_def)
  ultimately show ?thesis using i w by (auto simp: channel_inv_def)
qed

lemma RemoveWaiter_absent: "t \<notin> fst ` set (waiters (body a)) \<Longrightarrow> RemoveWaiter t a = a"
  by (subst RemoveWaiter_def, subst filter_True) auto

lemma inv_resume:
  assumes inv: "channel_inv (C, ws, a, b)" and C: "C t = Some (koid (disp a))"
    and timeout: "timeout = ZX_ERR_TIMED_OUT \<or> timeout = ZX_ERR_INTERNAL_INTR_RETRY"
    and call: "ResumeInterruptedCall t timeout (ws, a, b) = Some (Returned st reply, s')"
  shows "channel_inv (if st = ZX_ERR_INTERNAL_INTR_RETRY then C else C(t := None), s')"
  using inv C timeout
proof (cases rule: Resume_cases)
  case retry
  then show ?thesis using call inv by simp
next
  case timed_out
  then show ?thesis using call inv_leave [OF inv C] by auto
next
  case ended
  have "st \<noteq> ZX_ERR_INTERNAL_INTR_RETRY" using ended(2,3) call by (auto simp: waiter_done_def split: option.splits)
  then show ?thesis using ended call inv_leave [OF inv C] RemoveWaiter_absent [OF ended(1)] by auto
qed

lemma inv_cancel:
  assumes inv: "channel_inv (C, ws, a, b)"
  shows "channel_inv (C, CancelMessageWaiters (ws, a, b))"
proof -
  note i = channel_invD [OF inv]
  let ?a = "clear_calls (CancelMessageWaitersLocked ZX_ERR_CANCELED a)"
  let ?ws = "\<lambda>t. if t \<in> fst ` set (waiters (body a)) then MessageWaiter_Cancel ZX_ERR_CANCELED (ws t) else ws t"
  have new: "CancelMessageWaiters (ws, a, b) = (?ws, ?a, b)"
    using i(3,4) by (simp add: CancelMessageWaiters_def flush_calls_def waiters_ok_def clear_calls_id CancelMessageWaitersLocked_def fold_cancel fun_eq_iff)
  have "threads_ok C ?ws ?a" by (rule cancel_threads [OF i(7)]) (simp_all add: CancelMessageWaitersLocked_def)
  moreover have "threads_ok C ?ws b" 
    by (rule threads_ok_cong [OF i(8)]) (use i(6,7) in \<open>auto simp: threads_ok_def\<close>)
  moreover have "channel_signals_ok ?a" using i(1) by (simp add: channel_signals_ok_def CancelMessageWaitersLocked_def)
  ultimately show ?thesis
    using i unfolding new by (auto simp: channel_inv_def waiters_ok_def CancelMessageWaitersLocked_def threads_ok_def)
qed

lemma ep_update_state_koid [simp]: "koid (disp (ep_update_state c s e)) = koid (disp e)"
  by (simp add: ep_update_state_def)

lemma inv_close:
  assumes inv: "channel_inv (C, ws, a, b)"
  shows "channel_inv (C, Channel_close (ws, a, b))"
proof (cases "peer_linked a")
  case False
  note i = channel_invD [OF inv]
  have none: "waiters (body a) = []" using False i(3) by (auto simp: waiters_ok_def)
  have "Channel_close (ws, a, b) = (ws, clear_calls (CancelMessageWaitersLocked ZX_ERR_CANCELED (a\<lparr>peer_linked := False\<rparr>)), b)"
    using False none i(3,4) by (simp add: Channel_close_def on_zero_handles_def Channel_on_zero_handles_locked_def flush_calls_def
        waiters_ok_def clear_calls_id CancelMessageWaitersLocked_def)
  also have "clear_calls (CancelMessageWaitersLocked ZX_ERR_CANCELED (a\<lparr>peer_linked := False\<rparr>)) = a"
    using False none i(3) by (simp add: clear_calls_def CancelMessageWaitersLocked_def waiters_ok_def)
  finally show ?thesis using inv by simp
next
  case True
  note i = channel_invD [OF inv]
  let ?a1 = "Channel_on_zero_handles_locked (a\<lparr>peer_linked := False\<rparr>)" and ?b1 = "Channel_OnPeerZeroHandlesLocked (b\<lparr>peer_linked := False\<rparr>)"
  let ?a = "clear_calls ?a1" and ?b = "clear_calls ?b1"
  let ?A = "fst ` set (waiters (body a))" and ?B = "fst ` set (waiters (body b))"
  let ?ws = "fold run_waiter_call (waiter_calls (body ?a1) @ waiter_calls (body ?b1)) ws"
  have new: "Channel_close (ws, a, b) = (?ws, ?a, ?b)" using True by (simp add: Channel_close_def on_zero_handles_def flush_calls_def)
  have ws: "?ws t = (let w = (if t \<in> ?A then MessageWaiter_Cancel ZX_ERR_CANCELED (ws t) else ws t)
      in if t \<in> ?B then MessageWaiter_Cancel ZX_ERR_PEER_CLOSED w else w)" for t
    using i(3,4) by (simp add: Channel_on_zero_handles_locked_def Channel_OnPeerZeroHandlesLocked_def CancelMessageWaitersLocked_def
        fold_cancel waiters_ok_def Let_def)
  have apart: "t \<notin> ?B" if "C t = Some (koid (disp a))" for t using that i(6,8) by (auto simp: threads_ok_def)
  have apart': "t \<notin> ?A" if "C t = Some (koid (disp b))" for t using that i(6,7) by (auto simp: threads_ok_def)
  have inA: "C t = Some (koid (disp a))" if "t \<in> ?A" for t using that i(7) by (auto simp: threads_ok_def)
  have inB: "C t = Some (koid (disp b))" if "t \<in> ?B" for t using that i(8) by (auto simp: threads_ok_def)
  have frame: "waiters (body ?a) = []" "waiters (body ?b) = []" "koid (disp ?a) = koid (disp a)" "koid (disp ?b) = koid (disp b)"
    "\<not> peer_linked ?a" "\<not> peer_linked ?b"
    by (simp_all add: Channel_on_zero_handles_locked_def Channel_OnPeerZeroHandlesLocked_def CancelMessageWaitersLocked_def Let_def)
  have "threads_ok C ?ws ?a"
    by (rule cancel_threads [OF i(7), where st = ZX_ERR_CANCELED]) (use frame ws apart inA in \<open>simp_all add: Let_def\<close>)
  moreover have "threads_ok C ?ws ?b"
    by (rule cancel_threads [OF i(8), where st = ZX_ERR_PEER_CLOSED]) (use frame ws apart' inB in \<open>simp_all add: Let_def\<close>)
  moreover have "channel_signals_ok ?a" using i(1)
    by (simp add: channel_signals_ok_def Channel_on_zero_handles_locked_def CancelMessageWaitersLocked_def)
  moreover have "channel_signals_ok ?b" using i(2)
    by (simp add: channel_signals_ok_def Channel_OnPeerZeroHandlesLocked_def CancelMessageWaitersLocked_def Let_def signal_simps)
  moreover have "mw_msg (?ws t) = None" if "C t = None" for t
    using that i(9) [of t] ws [of t] inA [of t] inB [of t] by (auto simp: Let_def)
  ultimately show ?thesis unfolding new using i frame by (simp add: channel_inv_def waiters_ok_def)
qed

text \<open>A change of the signals that users may change, and of the owner, is no concern of the invariant.\<close>

lemma inv_frame:
  assumes inv: "channel_inv (C, ws, a, b)" and frame: "peer_linked a' = peer_linked a" "koid (disp a') = koid (disp a)"
    "\<And>k. k < 3 \<Longrightarrow> bit (signals (disp a')) k = bit (signals (disp a)) k"
    "messages (body a') = messages (body a)" "max_message_count (body a') = max_message_count (body a)" "peer_has_closed (body a') = peer_has_closed (body a)"
    "waiters (body a') = waiters (body a)" "waiter_calls (body a') = waiter_calls (body a)"
  shows "channel_inv (C, ws, a', b)"
proof -
  note i = channel_invD [OF inv]
  have "threads_ok C ws a'" by (rule threads_ok_cong [OF i(7)]) (use frame in simp_all)
  moreover have "channel_signals_ok a'" using i(1) frame(3) [of 0] frame(3) [of 1] frame(3) [of 2] frame by (simp add: channel_signals_ok_def)
  ultimately show ?thesis using i frame by (simp add: channel_inv_def waiters_ok_def)
qed

lemma inv_signal_self:
  assumes "channel_inv (C, ws, a, b)" and "user_signal_self 0 c s a = (st, a')"
  shows "channel_inv (C, ws, a', b)"
proof -
  consider "a' = a" | "a' = ep_update_state c s a" "\<And>k. k < 24 \<Longrightarrow> \<not> bit c k \<and> \<not> bit s k"
    using assms(2) user_mask_low_bits [of c 0] user_mask_low_bits [of s 0] by (auto simp: user_signal_self_def Let_def split: if_splits)
  then show ?thesis
  proof cases
    case 2
    show ?thesis by (rule inv_frame [OF assms(1)]) (use 2 in \<open>simp_all add: ep_update_state_signals\<close>)
  qed (use assms in simp)
qed

lemma inv_signal_peer:
  assumes inv: "channel_inv (C, ws, a, b)" and call: "user_signal_peer 0 c s (a, b) = (st, a', b')"
  shows "channel_inv (C, ws, a', b')"
proof (cases "b' = b")
  case True
  then show ?thesis using assms by (auto simp: user_signal_peer_def Let_def split: if_splits)
next
  case False
  then have "user_signal_self 0 c s b = (ZX_OK, b')" "a' = a"
    using call by (auto simp: user_signal_peer_def user_signal_self_def Let_def split: if_splits)
  then show ?thesis using inv_swap [OF inv_signal_self [OF inv_swap [OF inv]]] by simp
qed

lemma inv_step: "channel_step W W' \<Longrightarrow> channel_inv W \<Longrightarrow> channel_inv W'"
proof (induction rule: channel_step.induct)
  case (step_write owner reads msg s st s' C)
  then show ?case using inv_write by (cases s) blast
next
  case (step_read owner n m may_discard a st sizes msg a' C ws b)
  note i = channel_invD [OF step_read(2)] and r = Read_effect(1-4) [OF step_read(1) channel_invD(1) [OF step_read(2)]]
  have "threads_ok C ws a'" by (rule threads_ok_cong [OF i(7)]) (use r in simp_all)
  then show ?case using i r by (simp add: channel_inv_def waiters_ok_def)
next
  case (step_call C t owner reads msg ws a b r s') then show ?case by (intro inv_call)
next
  case (step_resume C t a timeout ws b st reply s') then show ?case by (intro inv_resume)
next
  case (step_exit C t a ws b) then show ?case by (intro inv_leave) simp_all
next
  case (step_owner C ws a b k) show ?case by (rule inv_frame [OF step_owner]) (simp_all add: Channel_set_owner_def)
next
  case (step_cancel C s) then show ?case using inv_cancel by (cases s) blast
next
  case (step_close C s) then show ?case using inv_close by (cases s) blast
next
  case (step_signal_self c s a st a' C ws b) then show ?case using inv_signal_self by blast
next
  case (step_signal_peer c s a b st a' b' C ws) then show ?case using inv_signal_peer by blast
next
  case (step_swap C ws a b) then show ?case by (rule inv_swap)
qed

section \<open>Correctness of channels\<close>

text \<open>A new channel, with no thread in a call.\<close>

definition channel_start :: "channel_world \<Rightarrow> bool" where
  "channel_start = (\<lambda>(C, ws, a, b). (\<forall>t. C t = None \<and> mw_msg (ws t) = None) \<and>
     (\<exists>alloc k0 k1. k0 \<noteq> k1 \<and> ChannelDispatcher_Create alloc k0 k1 = Inr (a, b)))"

definition channel_reachable :: "channel_world \<Rightarrow> bool" where
  "channel_reachable W \<longleftrightarrow> (\<exists>W0. channel_start W0 \<and> channel_step\<^sup>*\<^sup>* W0 W)"

lemma inv_start:
  assumes "channel_start (C, ws, a, b)"
  shows "channel_inv (C, ws, a, b)"
proof -
  obtain alloc k0 k1 where k: "k0 \<noteq> k1" "ChannelDispatcher_Create alloc k0 k1 = Inr (a, b)" and C: "\<And>t. C t = None" "\<And>t. mw_msg (ws t) = None"
    using assms by (auto simp: channel_start_def)
  then have e: "a = InitPeer k1 (PeeredDispatcher_new k0 ZX_OBJECT_WRITABLE channel_new)"
    "b = InitPeer k0 (PeeredDispatcher_new k1 ZX_OBJECT_WRITABLE channel_new)" by (auto simp: ChannelDispatcher_Create_def split: if_splits)
  show ?thesis using k(1) C unfolding e
    by (simp add: channel_inv_def InitPeer_def PeeredDispatcher_new_def Dispatcher_new_def channel_new_def channel_signals_ok_def
        waiters_ok_def threads_ok_def signal_simps)
qed

lemma inv_reachable:
  assumes "channel_reachable W"
  shows "channel_inv W"
proof -
  obtain W0 where W0: "channel_start W0" and steps: "channel_step\<^sup>*\<^sup>* W0 W" using assms by (auto simp: channel_reachable_def)
  from steps show ?thesis by (induction rule: rtranclp_induct) (use W0 inv_start inv_step in \<open>cases W0; blast\<close>)+
qed

lemma reachable_step: "channel_reachable W \<Longrightarrow> channel_step W W' \<Longrightarrow> channel_reachable W'"
  unfolding channel_reachable_def by (meson rtranclp.rtrancl_into_rtrancl)

definition idle_waiter :: message_waiter where
  "idle_waiter = \<lparr>mw_channel = None, mw_msg = None, mw_event = None, mw_txid = 0, mw_status = ZX_OK\<rparr>"

definition example_endpoint :: "koid \<Rightarrow> koid \<Rightarrow> channel endpoint" where
  "example_endpoint k k' = InitPeer k' (PeeredDispatcher_new k ZX_OBJECT_WRITABLE channel_new)"

lemma example_reachable: "channel_reachable (\<lambda>_. None, \<lambda>_. idle_waiter, example_endpoint 1 2, example_endpoint 2 1)"
proof -
  have "channel_start (\<lambda>_. None, \<lambda>_. idle_waiter, example_endpoint 1 2, example_endpoint 2 1)"
    unfolding channel_start_def prod.case
    by (rule conjI, simp add: idle_waiter_def, rule exI [of _ "\<lambda>_. True"], rule exI [of _ 1], rule exI [of _ 2])
      (simp add: example_endpoint_def ChannelDispatcher_Create_def)
  then show ?thesis unfolding channel_reachable_def by blast
qed

text \<open>
  C15. In every state that calls, replies, reads, writes, timeouts, exiting threads, cancellations
  and closing can lead to, the signals of an endpoint are true: it is readable exactly if its queue
  holds a message, although reads run in the middle of writes; exactly one of writable and peer
  closed is shown, the latter exactly if the peer has closed; and both endpoints know of each other
  or neither does.
\<close>

theorem channel_signals_truthful:
  assumes "channel_reachable (C, ws, a, b)" and "e = a \<or> e = b"
  shows "(signals (disp e) AND ZX_OBJECT_READABLE \<noteq> 0 \<longleftrightarrow> messages (body e) \<noteq> []) \<and>
    (signals (disp e) AND ZX_OBJECT_PEER_CLOSED \<noteq> 0 \<longleftrightarrow> peer_has_closed (body e)) \<and>
    (signals (disp e) AND ZX_OBJECT_WRITABLE \<noteq> 0 \<longleftrightarrow> \<not> peer_has_closed (body e)) \<and>
    (peer_linked e \<longrightarrow> \<not> peer_has_closed (body e)) \<and> pair_linked (a, b)"
proof -
  note i = channel_invD [OF inv_reachable [OF assms(1)]]
  have "channel_signals_ok e" using assms(2) i(1,2) by blast
  then show ?thesis using i(5) unfolding object_signal_defs and_exp_nonzero by (simp add: channel_signals_ok_def pair_linked_def)
qed

theorem channel_signals_truthful_witness:
  "\<exists>a b. channel_reachable (\<lambda>_. None, \<lambda>_. idle_waiter, a, b) \<and> signals (disp a) AND ZX_OBJECT_WRITABLE \<noteq> 0"
  using channel_signals_truthful [OF example_reachable disjI1 [OF refl]] example_reachable
  by (auto simp: example_endpoint_def InitPeer_def PeeredDispatcher_new_def channel_new_def)

text \<open>The waiter of a thread has the id that its entry in the list has, which no other entry has.\<close>

lemma waiter_unique:
  assumes inv: "channel_inv (C, ws, a, b)" and t: "t \<in> fst ` set (waiters (body a))"
  shows "(t', mw_txid (ws t)) \<in> set (waiters (body a)) \<longleftrightarrow> t' = t" "IsKernelGeneratedTxid (mw_txid (ws t))"
proof -
  note i = channel_invD [OF inv]
  obtain x where x: "(t, x) \<in> set (waiters (body a))" using t by force
  then have "waiter_waits (koid (disp a)) x (ws t)" using i(7) by (auto simp: threads_ok_def)
  then have tx: "(t, mw_txid (ws t)) \<in> set (waiters (body a))" using x by (simp add: waiter_waits_def)
  show "IsKernelGeneratedTxid (mw_txid (ws t))" using i(3) tx by (auto simp: waiters_ok_def)
  have "distinct (map snd (waiters (body a)))" using i(3) by (simp add: waiters_ok_def)
  then have "inj_on snd (set (waiters (body a)))" by (simp add: distinct_map)
  then show "(t', mw_txid (ws t)) \<in> set (waiters (body a)) \<longleftrightarrow> t' = t" using tx inj_onD [of snd _ "(t', mw_txid (ws t))" "(t, mw_txid (ws t))"] by auto
qed

lemma reply_delivered:
  assumes inv: "channel_inv (C, ws, a, b)" and t: "t \<in> fst ` set (waiters (body a))" and x: "get_txid msg = mw_txid (ws t)"
  obtains ws' a' where "Channel_Write (ch_owner (body b)) reads msg (ws, b, a) = (ZX_OK, ws', b, a')"
    "messages (body a') = messages (body a)" "waiters (body a') = remove1 (t, mw_txid (ws t)) (waiters (body a))" "disp a' = disp a" "peer_linked a' = peer_linked a"
    "ws' = ws(t := MessageWaiter_Deliver msg (ws t))" "channel_inv (C, ws', b, a')"
proof -
  note i = channel_invD [OF inv] and u = waiter_unique [OF inv t]
  obtain r a1 where att: "TryWriteToMessageWaiter msg a = (r, a1)" by fastforce
  note e = Try_effect [OF att]
  have r using e(5) u(2) u(1) [of t] x by force
  then obtain t' where t': "(t', get_txid msg) \<in> set (waiters (body a))"
    and a1: "body a1 = (body a)\<lparr>waiters := remove1 (t', get_txid msg) (waiters (body a)), waiter_calls := waiter_calls (body a) @ [Deliver t' msg]\<rparr>"
    using e(4) by blast
  have [simp]: "t' = t" using u(1) [of t'] t' x by simp
  have linked: "peer_linked b" using i(3,5) t by (auto simp: waiters_ok_def)
  let ?ws = "ws(t := MessageWaiter_Deliver msg (ws t))"
  have w: "Channel_Write (ch_owner (body b)) reads msg (ws, b, a) = (ZX_OK, ?ws, b, clear_calls a1)"
    using att \<open>r\<close> a1 linked i(3,4) by (simp add: Channel_Write_def flush_calls_def waiters_ok_def clear_calls_id)
  show thesis by (rule that [OF w]) (use a1 x e inv_write [OF inv_swap [OF inv] w] in simp_all)
qed

text \<open>A thread whose wait has ended with a message returns it.\<close>

lemma resume_delivered:
  assumes "mw_channel w = Some k"
  shows "ResumeInterruptedCall t timeout (ws(t := MessageWaiter_Deliver msg w), a, b) =
    Some (Returned ZX_OK (Some msg), ws(t := (MessageWaiter_Deliver msg w)\<lparr>mw_msg := None, mw_channel := None\<rparr>), a, b)"
  using assms by (simp add: ResumeInterruptedCall_def MessageWaiter_Wait_def MessageWaiter_Deliver_def EndWait_def)

text \<open>
  C6. A reply reaches its caller and nobody else. In every reachable state, a thread that is in a
  call on an endpoint can end it: resuming returns a value (the waiter is never erased from a list
  that it is not in), with a message exactly if the status is \<open>ZX_OK\<close>, and that message carries
  the transaction id of the call. If the thread still waits, no other waiter has its id, and a
  message with that id that the owner of the other endpoint writes is not queued: it is handed to
  that thread, whose call returns it.
\<close>

theorem channel_reply_to_caller:
  assumes reach: "channel_reachable (C, ws, a, b)" and C: "C t = Some (koid (disp a))"
    and timeout: "timeout = ZX_ERR_TIMED_OUT \<or> timeout = ZX_ERR_INTERNAL_INTR_RETRY"
  shows "(\<exists>st reply s'. ResumeInterruptedCall t timeout (ws, a, b) = Some (Returned st reply, s') \<and> (st = ZX_OK \<longleftrightarrow> reply \<noteq> None) \<and>
      (\<forall>m. reply = Some m \<longrightarrow> get_txid m = mw_txid (ws t))) \<and>
    (t \<in> fst ` set (waiters (body a)) \<and> get_txid msg = mw_txid (ws t) \<longrightarrow>
      (\<forall>t'. (t', get_txid msg) \<in> set (waiters (body a)) \<longleftrightarrow> t' = t) \<and>
      (\<exists>ws' a'. Channel_Write (ch_owner (body b)) reads msg (ws, b, a) = (ZX_OK, ws', b, a') \<and>
        messages (body a') = messages (body a) \<and> (\<forall>t'. t' \<noteq> t \<longrightarrow> ws' t' = ws t') \<and>
        (\<exists>ws'' . ResumeInterruptedCall t timeout (ws', a', b) = Some (Returned ZX_OK (Some msg), ws'', a', b))))"
proof (rule conjI; (rule impI, elim conjE)?)
  note inv = inv_reachable [OF reach]
  show "\<exists>st reply s'. ResumeInterruptedCall t timeout (ws, a, b) = Some (Returned st reply, s') \<and> (st = ZX_OK \<longleftrightarrow> reply \<noteq> None) \<and>
      (\<forall>m. reply = Some m \<longrightarrow> get_txid m = mw_txid (ws t))"
    using inv C timeout by (cases rule: Resume_cases) (auto simp: waiter_done_def split: option.splits)
  assume t: "t \<in> fst ` set (waiters (body a))" "get_txid msg = mw_txid (ws t)"
  obtain x where "waiter_waits (koid (disp a)) x (ws t)" using channel_invD(7) [OF inv] t(1) by (auto simp: threads_ok_def)
  then have chan: "mw_channel (ws t) = Some (koid (disp a))" by (simp add: waiter_waits_def)
  show "(\<forall>t'. (t', get_txid msg) \<in> set (waiters (body a)) \<longleftrightarrow> t' = t) \<and>
      (\<exists>ws' a'. Channel_Write (ch_owner (body b)) reads msg (ws, b, a) = (ZX_OK, ws', b, a') \<and>
        messages (body a') = messages (body a) \<and> (\<forall>t'. t' \<noteq> t \<longrightarrow> ws' t' = ws t') \<and>
        (\<exists>ws''. ResumeInterruptedCall t timeout (ws', a', b) = Some (Returned ZX_OK (Some msg), ws'', a', b)))"
  proof (rule reply_delivered [OF inv t, of reads], intro conjI)
    fix ws' a'
    assume w: "Channel_Write (ch_owner (body b)) reads msg (ws, b, a) = (ZX_OK, ws', b, a')" "messages (body a') = messages (body a)"
      "ws' = ws(t := MessageWaiter_Deliver msg (ws t))"
    show "\<forall>t'. (t', get_txid msg) \<in> set (waiters (body a)) \<longleftrightarrow> t' = t" using waiter_unique(1) [OF inv t(1)] t(2) by simp
    show "\<exists>ws' a'. Channel_Write (ch_owner (body b)) reads msg (ws, b, a) = (ZX_OK, ws', b, a') \<and>
        messages (body a') = messages (body a) \<and> (\<forall>t'. t' \<noteq> t \<longrightarrow> ws' t' = ws t') \<and>
        (\<exists>ws''. ResumeInterruptedCall t timeout (ws', a', b) = Some (Returned ZX_OK (Some msg), ws'', a', b))"
      using w resume_delivered [OF chan, of t timeout ws msg a' b] by auto
  qed
qed

text \<open>A call of a thread that is not in one, on an endpoint with a peer, waits.\<close>

lemma call_waits:
  assumes free: "mw_channel (ws t) = None" and linked: "peer_linked a" and room: "length (waiters (body a)) < 2 ^ 31"
  obtains x counter where "x \<notin> snd ` set (waiters (body a))" "IsKernelGeneratedTxid x"
    "Call_begin t (ch_owner (body a)) reads msg (ws, a, b) = Some (Waiting,
       ws(t := (ws t)\<lparr>mw_status := ZX_ERR_TIMED_OUT, mw_channel := Some (koid (disp a)), mw_event := None, mw_txid := x\<rparr>),
       a\<lparr>body := (body a)\<lparr>ch_txid := counter, waiters := waiters (body a) @ [(t, x)]\<rparr>\<rparr>,
       WriteSelf reads (set_txid x msg) b)"
proof -
  have "length (map snd (waiters (body a))) < 2 ^ 31" using room by simp
  then obtain k where k: "alloc_txid (ch_txid (body a)) (map snd (waiters (body a))) =
      Some (nth_txid (ch_txid (body a)) (Suc k), ch_txid (body a) + of_nat (Suc k))"
    by (rule alloc_txid_total [where counter = "ch_txid (body a)"])
  show thesis
    by (rule that) (use alloc_txid_result [OF k] k free linked in \<open>simp_all add: Call_begin_def BeginWait_def Let_def\<close>)
qed

lemma created_message:
  assumes cache: "page_cache_ok cache" and view: "view_of buf src" and create: "MessagePacket_Create cache src n nh = Inr msg"
  shows "msg_shape msg" "mp_data_size msg = n"
proof -
  obtain m0 where m0: "CreateCommon cache n nh = Inr m0" and app: "append_to src n m0 = Inr msg"
    using create by (auto simp: MessagePacket_Create_def split: sum.splits)
  show "msg_shape msg" by (rule append_to_ok(1) [OF view CreateCommon_ok(1) [OF cache m0] app])
  show "mp_data_size msg = n" by (rule create_message(1) [OF cache view create])
qed

text \<open>
  C14. A call and its reply, from end to end: a thread that is not in a call can make one on an
  endpoint whose peer is open. It is given an id that the kernel generates and no waiter of the
  endpoint has (the search for one ends whenever fewer than \<open>2 ^ 31\<close> threads wait); the message
  with that id is the last in the peer's queue; and the first message with that id that is written
  back is what the call returns, leaving the caller's queue and waiters as they were and the thread
  ready for its next call.
\<close>

theorem channel_call_round_trip:
  assumes reach: "channel_reachable (C, ws, a, b)" and free: "C t = None" "mw_channel (ws t) = None"
    and linked: "peer_linked a" and room: "length (waiters (body a)) < 2 ^ 31"
    and msg: "page_cache_ok cache" "view_of buf src" "MessagePacket_Create cache src n nh = Inr msg" "4 \<le> n"
  shows "\<exists>x ws1 a1 b1. Call_begin t (ch_owner (body a)) [] msg (ws, a, b) = Some (Waiting, ws1, a1, b1) \<and>
    IsKernelGeneratedTxid x \<and> x \<notin> snd ` set (waiters (body a)) \<and>
    (\<exists>m. messages (body b1) = messages (body b) @ [m] \<and> get_txid m = x \<and> m = set_txid x msg) \<and>
    (\<forall>reply timeout. get_txid reply = x \<longrightarrow>
      (\<exists>ws2 a2 ws3. Channel_Write (ch_owner (body b1)) [] reply (ws1, b1, a1) = (ZX_OK, ws2, b1, a2) \<and>
        ResumeInterruptedCall t timeout (ws2, a2, b1) = Some (Returned ZX_OK (Some reply), ws3, a2, b1) \<and>
        messages (body a2) = messages (body a) \<and> waiters (body a2) = waiters (body a) \<and> mw_channel (ws3 t) = None))"
proof (rule call_waits [of ws t, OF free(2) linked room, of "[]" msg b])
  note inv = inv_reachable [OF reach]
  fix x counter
  let ?ws = "ws(t := (ws t)\<lparr>mw_status := ZX_ERR_TIMED_OUT, mw_channel := Some (koid (disp a)), mw_event := None, mw_txid := x\<rparr>)"
  let ?a = "a\<lparr>body := (body a)\<lparr>ch_txid := counter, waiters := waiters (body a) @ [(t, x)]\<rparr>\<rparr>" and ?b = "WriteSelf [] (set_txid x msg) b"
  assume x: "x \<notin> snd ` set (waiters (body a))" "IsKernelGeneratedTxid x"
    and call: "Call_begin t (ch_owner (body a)) [] msg (ws, a, b) = Some (Waiting, ?ws, ?a, ?b)"
  have queued: "messages (body ?b) = messages (body b) @ [set_txid x msg]" by (rule WriteSelf_effect(7) [OF channel_invD(2) [OF inv]])
  have inv1: "channel_inv (C(t \<mapsto> koid (disp a)), ?ws, ?a, ?b)" using inv_call [OF inv free(1) call] by simp
  have new: "(t, x) \<notin> set (waiters (body a))" using x(1) by force
  have "\<exists>ws2 a2 ws3. Channel_Write (ch_owner (body ?b)) [] reply (?ws, ?b, ?a) = (ZX_OK, ws2, ?b, a2) \<and>
        ResumeInterruptedCall t timeout (ws2, a2, ?b) = Some (Returned ZX_OK (Some reply), ws3, a2, ?b) \<and>
        messages (body a2) = messages (body a) \<and> waiters (body a2) = waiters (body a) \<and> mw_channel (ws3 t) = None"
    if "get_txid reply = x" for reply timeout
  proof (rule reply_delivered [OF inv1, of t reply "[]"])
    show "t \<in> fst ` set (waiters (body ?a))" "get_txid reply = mw_txid (?ws t)" using that by simp_all
    fix ws' a'
    assume w: "Channel_Write (ch_owner (body ?b)) [] reply (?ws, ?b, ?a) = (ZX_OK, ws', ?b, a')" "messages (body a') = messages (body ?a)"
      "waiters (body a') = remove1 (t, mw_txid (?ws t)) (waiters (body ?a))" "ws' = ?ws(t := MessageWaiter_Deliver reply (?ws t))"
    have "ResumeInterruptedCall t timeout (ws', a', ?b) =
        Some (Returned ZX_OK (Some reply), ?ws(t := (MessageWaiter_Deliver reply (?ws t))\<lparr>mw_msg := None, mw_channel := None\<rparr>), a', ?b)"
      unfolding w(4) by (rule resume_delivered [where k = "koid (disp a)"]) simp
    moreover have "waiters (body a') = waiters (body a)" using w(3) new by (simp add: remove1_append remove1_idem)
    ultimately show ?thesis using w(1,2) by auto
  qed
  moreover have "get_txid (set_txid x msg) = x" using get_set_txid created_message [OF msg(1-3)] msg(4) by simp
  ultimately show ?thesis using call x queued by blast
qed


lemma example_message:
  obtains msg where "MessagePacket_Create example_cache (user_buf [0, 0, 0, 0, 7]) 5 0 = Inr msg"
  using create_message_iff [OF example_cache_ok, of 5 "[0, 0, 0, 0, 7]" 0] by (auto simp: kMaxMessageSize_def kMaxMessageHandles_def)

lemma example_ready:
  "mw_channel idle_waiter = None" "peer_linked (example_endpoint k l)" "waiters (body (example_endpoint k l)) = []"
  "ch_owner (body (example_endpoint k l)) = ZX_KOID_INVALID" "koid (disp (example_endpoint k l)) = k"
  by (simp_all add: idle_waiter_def example_endpoint_def InitPeer_def PeeredDispatcher_new_def Dispatcher_new_def channel_new_def)

theorem channel_call_round_trip_witness:
  "\<exists>msg x ws1 a1 b1. MessagePacket_Create example_cache (user_buf [0, 0, 0, 0, 7]) 5 0 = Inr msg \<and>
     Call_begin 0 ZX_KOID_INVALID [] msg (\<lambda>_. idle_waiter, example_endpoint 1 2, example_endpoint 2 1) = Some (Waiting, ws1, a1, b1) \<and>
     get_txid (set_txid x msg) = x \<and>
     (\<exists>ws2 a2 ws3. Channel_Write (ch_owner (body b1)) [] (set_txid x msg) (ws1, b1, a1) = (ZX_OK, ws2, b1, a2) \<and>
       ResumeInterruptedCall 0 ZX_ERR_TIMED_OUT (ws2, a2, b1) = Some (Returned ZX_OK (Some (set_txid x msg)), ws3, a2, b1))"
proof (rule example_message)
  fix msg
  assume msg: "MessagePacket_Create example_cache (user_buf [0, 0, 0, 0, 7]) 5 0 = Inr msg"
  have len: "length (waiters (body (example_endpoint 1 2))) < 2 ^ 31" "(4::nat) \<le> 5" by (simp_all add: example_ready)
  obtain x ws1 a1 b1 where "Call_begin 0 ZX_KOID_INVALID [] msg (\<lambda>_. idle_waiter, example_endpoint 1 2, example_endpoint 2 1) = Some (Waiting, ws1, a1, b1)"
    "get_txid (set_txid x msg) = x"
    "\<forall>reply timeout. get_txid reply = x \<longrightarrow> (\<exists>ws2 a2 ws3. Channel_Write (ch_owner (body b1)) [] reply (ws1, b1, a1) = (ZX_OK, ws2, b1, a2) \<and>
        ResumeInterruptedCall 0 timeout (ws2, a2, b1) = Some (Returned ZX_OK (Some reply), ws3, a2, b1))"
    using channel_call_round_trip [where t = 0, OF example_reachable refl example_ready(1,2) len(1) example_cache_ok(1) user_buf_view msg len(2)]
    unfolding example_ready by metis
  then show ?thesis using msg by blast
qed

text \<open>A reachable state in which thread 0 waits for a reply.\<close>

lemma example_waiting:
  obtains C ws a b where "channel_reachable (C, ws, a, b)" "C 0 = Some (koid (disp a))" "0 \<in> fst ` set (waiters (body a))"
proof -
  obtain msg where "MessagePacket_Create example_cache (user_buf [0, 0, 0, 0, 7]) 5 0 = Inr msg" by (rule example_message)
  have free: "mw_channel ((\<lambda>_. idle_waiter) (0::nat)) = None" "length (waiters (body (example_endpoint 1 2))) < 2 ^ 31" by (simp_all add: example_ready)
  have "\<exists>C s. channel_reachable (C, s) \<and> C 0 = Some (koid (disp (fst (snd s)))) \<and> 0 \<in> fst ` set (waiters (body (fst (snd s))))"
  proof (rule call_waits [of "\<lambda>_. idle_waiter" 0 "example_endpoint 1 2" "[]" msg "example_endpoint 2 1", OF free(1) example_ready(2) free(2)])
    fix x counter
    let ?s = "((\<lambda>_. idle_waiter)(0 := idle_waiter\<lparr>mw_status := ZX_ERR_TIMED_OUT, mw_channel := Some (koid (disp (example_endpoint 1 2))), mw_event := None, mw_txid := x\<rparr>),
       (example_endpoint 1 2)\<lparr>body := (body (example_endpoint 1 2))\<lparr>ch_txid := counter, waiters := waiters (body (example_endpoint 1 2)) @ [(0, x)]\<rparr>\<rparr>,
       WriteSelf [] (set_txid x msg) (example_endpoint 2 1))"
    assume call: "Call_begin 0 (ch_owner (body (example_endpoint 1 2))) [] msg (\<lambda>_. idle_waiter, example_endpoint 1 2, example_endpoint 2 1) = Some (Waiting, ?s)"
    have "channel_reachable ((\<lambda>_. None)(0 \<mapsto> koid (disp (example_endpoint 1 2))), ?s)"
      using reachable_step [OF example_reachable step_call [OF refl call]] by (simp only: if_True simp_thms)
    then show ?thesis by (intro exI conjI, assumption) simp_all
  qed
  then show thesis using that by (metis prod.collapse)
qed

theorem channel_reply_to_caller_witness:
  "\<exists>C ws a b st reply s'. channel_reachable (C, ws, a, b) \<and> 0 \<in> fst ` set (waiters (body a)) \<and>
     ResumeInterruptedCall 0 ZX_ERR_TIMED_OUT (ws, a, b) = Some (Returned st reply, s') \<and> (st = ZX_OK \<longleftrightarrow> reply \<noteq> None)"
proof (rule example_waiting)
  fix C ws a b
  assume w: "channel_reachable (C, ws, a, b)" "C 0 = Some (koid (disp a))" "0 \<in> fst ` set (waiters (body a))"
  obtain st reply s' where "ResumeInterruptedCall 0 ZX_ERR_TIMED_OUT (ws, a, b) = Some (Returned st reply, s')" "st = ZX_OK \<longleftrightarrow> reply \<noteq> None"
    using conjunct1 [OF channel_reply_to_caller [OF w(1,2) disjI1 [OF refl]]] by metis
  then show ?thesis using w(1,3) by (intro exI conjI)
qed

text \<open>
  C40. A call that is refused because the caller's process does not own the endpoint (the handle
  was transferred meanwhile) leaves the thread's message waiter marked as waiting: the status is
  \<open>ZX_ERR_BAD_HANDLE\<close> and nothing was sent, but every later call of that thread, on whichever
  channel, kills its process. A call that is refused because the peer has closed does not have
  this effect.
\<close>

theorem bad_handle_leaves_waiter:
  assumes "mw_channel (ws t) = None" and "owner \<noteq> ch_owner (body a)"
  shows "\<exists>ws1. Call_begin t owner reads msg (ws, a, b) = Some (Returned ZX_ERR_BAD_HANDLE None, ws1, a, b) \<and>
    (\<forall>owner' reads' msg' a' b'. Call_begin t owner' reads' msg' (ws1, a', b') = Some (Killed, ws1, a', b')) \<and>
    (\<not> peer_linked a \<longrightarrow> (\<exists>ws2. Call_begin t (ch_owner (body a)) reads msg (ws, a, b) = Some (Returned ZX_ERR_PEER_CLOSED (mw_msg (ws t)), ws2, a, b) \<and>
      mw_channel (ws2 t) = None))"
  using assms by (auto simp: Call_begin_def BeginWait_def EndWait_def Let_def)

theorem bad_handle_leaves_waiter_witness:
  "\<exists>msg ws1. Call_begin 0 5 [] msg (\<lambda>_. idle_waiter, example_endpoint 1 2, example_endpoint 2 1) =
       Some (Returned ZX_ERR_BAD_HANDLE None, ws1, example_endpoint 1 2, example_endpoint 2 1) \<and>
     Call_begin 0 0 [] msg (ws1, example_endpoint 3 4, example_endpoint 4 3) = Some (Killed, ws1, example_endpoint 3 4, example_endpoint 4 3)"
proof -
  have owner: "5 \<noteq> ch_owner (body (example_endpoint 1 2))" by (simp add: example_ready)
  show ?thesis using bad_handle_leaves_waiter [where ws = "\<lambda>_. idle_waiter" and t = 0 and reads = "[]" and b = "example_endpoint 2 1", OF example_ready(1) owner] by metis
qed

section \<open>The queue of messages\<close>

text \<open>
  One endpoint writes, the other reads. A write puts one message, or none, into the queue: none
  if it is refused or goes to a waiting call.
\<close>

definition channel_push :: "koid \<Rightarrow> channel_state \<Rightarrow> message_packet list \<Rightarrow> nat \<times> channel_state" where
  "channel_push owner s msgs =
     (case msgs of
        [] \<Rightarrow> (0, s)
      | msg # _ \<Rightarrow>
          let (st, s') = Channel_Write owner [] msg s
          in (length (messages (body (snd (snd s')))) - length (messages (body (snd (snd s)))), s'))"

definition channel_pop :: "read_args \<Rightarrow> channel_state \<Rightarrow> nat \<Rightarrow> message_packet list \<times> channel_state" where
  "channel_pop = (\<lambda>(owner, max_size, max_handles, may_discard) (ws, self, peer) k.
     if k = 0 then ([], ws, self, peer)
     else case Channel_Read owner max_size max_handles may_discard peer of
            (st, sizes, msg, peer') \<Rightarrow> (case msg of None \<Rightarrow> [] | Some m \<Rightarrow> [m], ws, self, peer'))"

lemma flush_calls_frame:
  "messages (body (snd (snd (flush_calls (ws, a, b))))) = messages (body b)" "disp (snd (snd (flush_calls (ws, a, b)))) = disp b"
  "channel_signals_ok (snd (snd (flush_calls (ws, a, b)))) = channel_signals_ok b"
  by (simp_all add: flush_calls_def)

lemma Write_queue:
  assumes "channel_signals_ok b" and "Channel_Write owner [] msg (ws, a, b) = (st, s')"
  shows "channel_signals_ok (snd (snd s')) \<and>
    (messages (body (snd (snd s'))) = messages (body b) \<or> messages (body (snd (snd s'))) = messages (body b) @ [msg])"
proof -
  obtain r b1 where att: "TryWriteToMessageWaiter msg b = (r, b1)" by fastforce
  note e = Try_effect [OF att]
  have b1: "channel_signals_ok b1 \<and> messages (body b1) = messages (body b)"
    using assms(1) e by (cases r) (auto simp: channel_signals_ok_def)
  consider "s' = (ws, a, b)" | "s' = (ws, a, WriteSelf [] msg b)" | "s' = flush_calls (ws, a, b1)"
    using assms(2) att e(1) by (auto simp: Channel_Write_def split: if_splits)
  then show ?thesis using assms(1) b1 WriteSelf_effect(1) [OF assms(1), of "[]" msg] WriteSelf_effect(7) [OF assms(1), of msg]
    by cases (simp_all add: flush_calls_frame)
qed

interpretation channel_q: fifo_queue "\<lambda>s. channel_signals_ok (snd (snd s))" "\<lambda>s. messages (body (snd (snd s)))" "\<lambda>_ _. True" "\<lambda>_. ()"
  "channel_push owner" "channel_pop r" for owner r
proof
  fix s :: channel_state and msgs n s'
  assume ok: "channel_signals_ok (snd (snd s))" and push: "channel_push owner s msgs = (n, s')"
  show "channel_signals_ok (snd (snd s')) \<and> () = () \<and> n \<le> length msgs \<and> messages (body (snd (snd s'))) = messages (body (snd (snd s))) @ take n msgs"
  proof (cases msgs)
    case Nil
    then show ?thesis using ok push by (simp add: channel_push_def)
  next
    case (Cons msg rest)
    obtain ws a b where s: "s = (ws, a, b)" by (metis prod_cases3)
    obtain st s1 where w: "Channel_Write owner [] msg (ws, a, b) = (st, s1)" by (metis prod.exhaust)
    show ?thesis using Write_queue [OF _ w] ok push Cons w by (auto simp: channel_push_def s)
  qed
next
  fix s :: channel_state and k ys s'
  assume ok: "channel_signals_ok (snd (snd s))" and pop: "channel_pop r s k = (ys, s')"
  obtain ws a b where s: "s = (ws, a, b)" by (metis prod_cases3)
  obtain owner n m d where r: "r = (owner, n, m, d)" by (metis prod_cases4)
  obtain st sizes msg b' where rd: "Channel_Read owner n m d b = (st, sizes, msg, b')" by (metis prod_cases4)
  have "channel_signals_ok b" using ok by (simp add: s)
  note e = Read_effect(1,4) [OF rd this] and m = Read_effect(5) [OF rd this]
  show "channel_signals_ok (snd (snd s')) \<and> () = () \<and> length ys \<le> k \<and> messages (body (snd (snd s))) = ys @ messages (body (snd (snd s')))"
  proof (cases "k = 0")
    case True
    then show ?thesis using pop ok by (simp add: channel_pop_def s r)
  next
    case False
    then have "ys = (case msg of None \<Rightarrow> [] | Some m \<Rightarrow> [m])" "s' = (ws, a, b')" using pop by (simp_all add: channel_pop_def s r rd)
    then show ?thesis using e m False by (cases msg) (simp_all add: s)
  qed
qed

lemma run_received:
  assumes pop: "\<And>s k ys s'. pop s k = (ys, s') \<Longrightarrow> \<forall>y\<in>set ys. P y" and "queue_run push pop s ops = (i, outp, s')"
  shows "\<forall>y\<in>set outp. P y"
  using assms(2)
proof (induction ops arbitrary: s i outp s')
  case (Cons op ops)
  show ?case
  proof (cases op)
    case (Inl xs)
    then show ?thesis using Cons.IH Cons.prems by (auto split: prod.splits)
  next
    case (Inr k)
    obtain ys s1 where p: "pop s k = (ys, s1)" by (metis prod.exhaust)
    obtain i1 out1 s2 where r: "queue_run push pop s1 ops = (i1, out1, s2)" by (metis prod_cases3)
    show ?thesis using Cons.prems Cons.IH [OF r] assms(1) [OF p] Inr p r by auto
  qed
qed simp

lemma channel_pop_fits:
  assumes "channel_pop (owner, max_size, max_handles, may_discard) s k = (ys, s')"
  shows "\<forall>m\<in>set ys. may_discard \<or> mp_data_size m \<le> max_size \<and> mp_num_handles m \<le> max_handles"
proof -
  obtain ws a b where s: "s = (ws, a, b)" by (metis prod_cases3)
  show ?thesis
  proof (cases "messages (body b)")
    case Nil
    then show ?thesis using assms by (auto simp: channel_pop_def Channel_Read_def s split: if_splits)
  next
    case (Cons x rest)
    then have "ys = [] \<or> ys = [x] \<and> (may_discard \<or> mp_data_size x \<le> max_size \<and> mp_num_handles x \<le> max_handles)"
      using assms by (auto simp: channel_pop_def Channel_Read_def Let_def s split: if_splits)
    then show ?thesis by auto
  qed
qed

text \<open>
  C39. Messages arrive in the order in which they were queued, each exactly once: in any
  interleaving of writes of one endpoint and reads of the other, from a reachable state whose queue
  is empty, the messages queued are those read followed by those still in the queue. A read whose
  buffer is too small takes its message out only if it may discard it.
\<close>

theorem channel_in_order:
  assumes reach: "channel_reachable (C, ws, a, b)" and empty: "messages (body b) = []"
    and run: "queue_run (channel_push owner) (channel_pop (owner', max_size, max_handles, may_discard)) (ws, a, b) ops = (queued, received, ws', a', b')"
  shows "queued = received @ messages (body b') \<and>
    (\<forall>m\<in>set received. may_discard \<or> mp_data_size m \<le> max_size \<and> mp_num_handles m \<le> max_handles)"
proof
  have "channel_signals_ok (snd (snd (ws, a, b)))" using channel_invD(2) [OF inv_reachable [OF reach]] by simp
  from channel_q.run_in_order [OF this _ _ run] empty show "queued = received @ messages (body b')" by simp
  show "\<forall>m\<in>set received. may_discard \<or> mp_data_size m \<le> max_size \<and> mp_num_handles m \<le> max_handles"
    by (rule run_received [OF channel_pop_fits run])
qed

theorem channel_in_order_witness:
  "\<exists>msg queued received ws' a' b'. MessagePacket_Create example_cache (user_buf [0, 0, 0, 0, 7]) 5 0 = Inr msg \<and>
     queue_run (channel_push 0) (channel_pop (0, 10, 0, False)) (\<lambda>_. idle_waiter, example_endpoint 1 2, example_endpoint 2 1)
       [Inl [msg], Inr 1, Inr 1] = (queued, received, ws', a', b') \<and> queued = received @ messages (body b')"
proof (rule example_message)
  fix msg
  assume msg: "MessagePacket_Create example_cache (user_buf [0, 0, 0, 0, 7]) 5 0 = Inr msg"
  have empty: "messages (body (example_endpoint 2 1)) = []"
    by (simp add: example_endpoint_def InitPeer_def PeeredDispatcher_new_def channel_new_def)
  obtain queued received ws' a' b' where run: "queue_run (channel_push 0) (channel_pop (0, 10, 0, False))
      (\<lambda>_. idle_waiter, example_endpoint 1 2, example_endpoint 2 1) [Inl [msg], Inr 1, Inr 1] = (queued, received, ws', a', b')"
    by (metis prod_cases5)
  show ?thesis using msg run conjunct1 [OF channel_in_order [OF example_reachable empty run]] by (intro exI conjI)
qed

end
