(* ===== verification/Spec2Isabelle.thy ===== *)
theory Spec2Isabelle
  imports Dispatcher Fifo MBuf Socket Timer_Queue Job_Policy Timer_Object Handle_Table Port_World Channel
begin

text \<open>
  Verification of the object layer of the Zircon kernel.
\<close>

end
